(* ===== verification/Morgan_Prelude.thy ===== *)
theory Morgan_Prelude
  imports Main "HOL-Library.Word" "HOL-Library.List_Lexorder" "HOL-Library.AList"
begin

text \<open>
  Shared vocabulary of the development: the machine integers of the Rust code, the outcome
  type of fallible code, checked indexing and in-place updates of slices, and the generic
  lemmas about them that the components share.

  Arithmetic on \<open>u64\<close> is the arithmetic of the shipped binaries: the installation
  script (\<^verbatim>\<open>scripts/cargo-install-all.sh\<close>) builds with \<^verbatim>\<open>--release\<close> and no profile turns
  overflow checks on, so \<open>+\<close>, \<open>-\<close> and \<open>*\<close> wrap around, as they do on \<open>64 word\<close>.
  Everything that panics in every build (an index out of range, \<open>unwrap\<close> on \<open>None\<close>, a
  failed \<open>assert!\<close>, a division by zero) is the outcome \<open>Panic\<close>.
\<close>

section \<open>Machine integers\<close>

type_synonym u8 = "8 word"
type_synonym u16 = "16 word"
type_synonym u32 = "32 word"
type_synonym u64 = "64 word"
type_synonym bytes = "u8 list"

section \<open>Outcomes\<close>

datatype ('e, 'a) res = Ok 'a | Err 'e | Panic

fun res_bind :: "('e, 'a) res \<Rightarrow> ('a \<Rightarrow> ('e, 'b) res) \<Rightarrow> ('e, 'b) res" where
  "res_bind (Ok x) f = f x"
| "res_bind (Err e) f = Err e"
| "res_bind Panic f = Panic"

fun map_err :: "('e \<Rightarrow> 'd) \<Rightarrow> ('e, 'a) res \<Rightarrow> ('d, 'a) res" where
  "map_err g (Ok x) = Ok x"
| "map_err g (Err e) = Err (g e)"
| "map_err g Panic = Panic"

fun is_ok :: "('e, 'a) res \<Rightarrow> bool" where
  "is_ok (Ok x) = True"
| "is_ok (Err e) = False"
| "is_ok Panic = False"

definition ok_or :: "'e \<Rightarrow> 'a option \<Rightarrow> ('e, 'a) res" where
  "ok_or e m = (case m of None \<Rightarrow> Err e | Some x \<Rightarrow> Ok x)"

definition unwrap :: "'a option \<Rightarrow> ('e, 'a) res" where
  "unwrap m = (case m of None \<Rightarrow> Panic | Some x \<Rightarrow> Ok x)"

definition guard :: "'e \<Rightarrow> bool \<Rightarrow> ('e, unit) res" where
  "guard e b = (if b then Ok () else Err e)"

text \<open>Inversion of successful runs: the rules that carry the handler proofs.\<close>

lemma res_bind_Ok_iff [simp]: "res_bind m f = Ok y \<longleftrightarrow> (\<exists>x. m = Ok x \<and> f x = Ok y)"
  by (cases m) auto

lemma res_bind_Err_iff: "res_bind m f = Err e \<longleftrightarrow> m = Err e \<or> (\<exists>x. m = Ok x \<and> f x = Err e)"
  by (cases m) auto

lemma res_bind_Panic_iff: "res_bind m f = Panic \<longleftrightarrow> m = Panic \<or> (\<exists>x. m = Ok x \<and> f x = Panic)"
  by (cases m) auto

lemma map_err_Ok_iff [simp]: "map_err g m = Ok y \<longleftrightarrow> m = Ok y"
  by (cases m) auto

lemma map_err_Err_iff: "map_err g m = Err d \<longleftrightarrow> (\<exists>e. m = Err e \<and> d = g e)"
  by (cases m) auto

lemma is_ok_iff: "is_ok m \<longleftrightarrow> (\<exists>x. m = Ok x)"
  by (cases m) auto

lemma ok_or_simps [simp]: "ok_or e (Some x) = Ok x" "ok_or e None = Err e"
  by (simp_all add: ok_or_def)

lemma ok_or_Ok_iff [simp]: "ok_or e m = Ok x \<longleftrightarrow> m = Some x"
  by (auto simp: ok_or_def split: option.splits)

lemma unwrap_Ok_iff [simp]: "unwrap m = Ok x \<longleftrightarrow> m = Some x"
  by (auto simp: unwrap_def split: option.splits)

lemma guard_Ok_iff [simp]: "guard e b = Ok u \<longleftrightarrow> b"
  by (auto simp: guard_def)

lemma res_bind_assoc: "res_bind (res_bind m f) g = res_bind m (\<lambda>x. res_bind (f x) g)"
  by (cases m) auto

section \<open>Slices\<close>

text \<open>Indexing as Rust does it: out of range is a panic.\<close>

definition idx :: "'a list \<Rightarrow> nat \<Rightarrow> ('e, 'a) res" where
  "idx xs i = (if i < length xs then Ok (xs ! i) else Panic)"

definition upd_at :: "nat \<Rightarrow> ('a \<Rightarrow> 'a) \<Rightarrow> 'a list \<Rightarrow> ('e, 'a list) res" where
  "upd_at i f xs = (if i < length xs then Ok (xs[i := f (xs ! i)]) else Panic)"

lemma idx_Ok_iff [simp]: "idx xs i = Ok x \<longleftrightarrow> i < length xs \<and> x = xs ! i"
  by (auto simp: idx_def)

lemma idx_in [simp]: "i < length xs \<Longrightarrow> idx xs i = Ok (xs ! i)"
  by (simp add: idx_def)

lemma idx_not_Err [simp]: "idx xs i \<noteq> Err e"
  by (simp add: idx_def)

lemma upd_at_Ok_iff [simp]:
  "upd_at i f xs = Ok ys \<longleftrightarrow> i < length xs \<and> ys = xs[i := f (xs ! i)]"
  by (auto simp: upd_at_def)

lemma upd_at_in [simp]: "i < length xs \<Longrightarrow> upd_at i f xs = Ok (xs[i := f (xs ! i)])"
  by (simp add: upd_at_def)

lemma upd_at_not_Err [simp]: "upd_at i f xs \<noteq> Err e"
  by (simp add: upd_at_def)

lemma sum_list_list_update:
  fixes f :: "'a \<Rightarrow> 'b :: ab_group_add"
  shows "i < length xs \<Longrightarrow> sum_list (map f (xs[i := y])) = sum_list (map f xs) - f (xs ! i) + f y"
proof (induction xs arbitrary: i)
  case (Cons x xs)
  then show ?case by (cases i) auto
qed simp

text \<open>A list is determined by its map under an update that leaves the mapped value alone.\<close>

lemma list_update_Cons_numeral [simp]: "(x # xs)[numeral v := y] = x # xs[pred_numeral v := y]"
  by (simp add: numeral_eq_Suc)

lemma map_list_update_same: "f y = f (xs ! i) \<Longrightarrow> map f (xs[i := y]) = map f xs"
  by (metis list_update_id map_update)

lemma sum_list_map_move:
  fixes f :: "'a \<Rightarrow> 'b :: ab_group_add"
  assumes "i < length xs" "j < length xs" "i \<noteq> j"
    and "f y = f (xs ! i) - d" "f z = f (xs ! j) + d"
  shows "sum_list (map f (xs[i := y, j := z])) = sum_list (map f xs)"
  using assms by (simp add: sum_list_list_update)

section \<open>Words\<close>

lemma unat_eq_unat_iff [simp]: "unat a = unat b \<longleftrightarrow> a = b"
  by (simp add: word_unat_eq_iff)

lemma unat_sub_le: "b \<le> a \<Longrightarrow> unat (a - b) = unat a - unat b"
  by (rule unat_sub)

lemma unat_plus_no_overflow:
  "unat a + unat b < 2 ^ LENGTH('l) \<Longrightarrow> unat (a + b :: 'l :: len word) = unat a + unat b"
  by (simp add: unat_word_ariths)

section \<open>Option and list vocabulary of the Rust standard library\<close>

text \<open>\<open>iter().position(p)\<close>: the index of the first element that satisfies the predicate.\<close>

fun position :: "('a \<Rightarrow> bool) \<Rightarrow> 'a list \<Rightarrow> nat option" where
  "position p [] = None"
| "position p (x # xs) = (if p x then Some 0 else map_option Suc (position p xs))"

lemma position_Some: "position p xs = Some i \<Longrightarrow> i < length xs \<and> p (xs ! i)"
  by (induction xs arbitrary: i) (auto split: if_splits)

lemma position_None: "position p xs = None \<longleftrightarrow> (\<forall>x \<in> set xs. \<not> p x)"
  by (induction xs) auto

lemma position_first: "position p xs = Some i \<Longrightarrow> j < i \<Longrightarrow> \<not> p (xs ! j)"
proof (induction xs arbitrary: i j)
  case (Cons x xs)
  then show ?case by (cases j) (auto split: if_splits)
qed simp

lemma position_eq_nth:
  assumes "k \<in> set xs"
  obtains i where "position (\<lambda>x. x = k) xs = Some i" "i < length xs" "xs ! i = k"
proof (cases "position (\<lambda>x. x = k) xs")
  case None
  then show thesis using assms by (auto simp: position_None)
next
  case (Some i)
  then show thesis using that position_Some [OF Some] by simp
qed

section \<open>Fallible map, and \<open>get\<close>\<close>

text \<open>\<open>iter().map(f).collect()\<close> where \<open>f\<close> may fail or panic: the first failure is the outcome.\<close>

fun res_map :: "('a \<Rightarrow> ('e, 'b) res) \<Rightarrow> 'a list \<Rightarrow> ('e, 'b list) res" where
  "res_map f [] = Ok []"
| "res_map f (x # xs) = res_bind (f x) (\<lambda>y. res_bind (res_map f xs) (\<lambda>ys. Ok (y # ys)))"

definition nth_opt :: "'a list \<Rightarrow> nat \<Rightarrow> 'a option" where
  "nth_opt xs i = (if i < length xs then Some (xs ! i) else None)"

lemma nth_opt_Some_iff [simp]: "nth_opt xs i = Some x \<longleftrightarrow> i < length xs \<and> x = xs ! i"
  by (auto simp: nth_opt_def)

lemma nth_opt_None_iff [simp]: "nth_opt xs i = None \<longleftrightarrow> length xs \<le> i"
  by (auto simp: nth_opt_def)

lemma res_map_Ok_iff:
  "res_map f xs = Ok ys \<longleftrightarrow> list_all2 (\<lambda>x y. f x = Ok y) xs ys"
  by (induction xs arbitrary: ys) (auto simp: list_all2_Cons1)

lemma res_map_Ok_map: "(\<And>x. x \<in> set xs \<Longrightarrow> f x = Ok (g x)) \<Longrightarrow> res_map f xs = Ok (map g xs)"
  by (induction xs) simp_all

text \<open>Retaining the entries of an association list by their value.\<close>

lemma map_of_filter_snd:
  "distinct (map fst al) \<Longrightarrow>
     map_of (filter (\<lambda>p. Q (snd p)) al) k = (case map_of al k of None \<Rightarrow> None | Some v \<Rightarrow> if Q v then Some v else None)"
proof (induction al)
  case (Cons p al)
  have "map_of al (fst p) = None" using Cons.prems by (simp add: map_of_eq_None_iff)
  then show ?case using Cons by (cases p) (auto split: option.splits)
qed simp

section \<open>Little-endian integers\<close>

definition u64_bytes :: "u64 \<Rightarrow> bytes" where
  "u64_bytes w = map (\<lambda>i. ucast (drop_bit (8 * i) w)) [0..<8]"

definition bytes_u64 :: "bytes \<Rightarrow> u64" where
  "bytes_u64 bs = foldr (\<lambda>b w. ucast b + push_bit 8 w) bs 0"

lemma u64_bytes_length [simp]: "length (u64_bytes w) = 8"
  by (simp add: u64_bytes_def)

lemma bytes_u64_bytes [simp]: "bytes_u64 (u64_bytes w) = w"
proof -
  have step: "ucast (ucast (v :: u64) :: u8) + push_bit 8 (drop_bit 8 v) = v" for v
  proof -
    have "ucast (ucast v :: u8) = take_bit 8 v" by (simp add: unsigned_ucast_eq)
    then show ?thesis using bits_ident [of 8 v] by (simp add: add.commute)
  qed
  have "bytes_u64 (map (\<lambda>i. ucast (drop_bit (8 * i) w)) [n..<8]) = drop_bit (8 * n) w" if "n \<le> 8" for n
    using that
  proof (induction "8 - n" arbitrary: n)
    case 0
    then show ?case by (simp add: bytes_u64_def)
  next
    case (Suc k)
    then have "[n..<8] = n # [Suc n..<8]" "bytes_u64 (map (\<lambda>i. ucast (drop_bit (8 * i) w)) [Suc n..<8]) = drop_bit (8 * Suc n) w"
      by (simp_all add: upt_conv_Cons)
    moreover have "drop_bit (8 * Suc n) w = drop_bit 8 (drop_bit (8 * n) w)"
      by simp
    ultimately show ?case using step [of "drop_bit (8 * n) w"] by (simp add: bytes_u64_def)
  qed
  from this [of 0] show ?thesis by (simp add: u64_bytes_def)
qed

end
