(* ===== verification/Account_Model.thy ===== *)
theory Account_Model
  imports Morgan_Prelude
begin

text \<open>
  The data that every other part shares, from \<^verbatim>\<open>src/interface/src\<close>: public keys and hashes,
  accounts and keyed accounts (\<^verbatim>\<open>account.rs\<close>), the typed view of an account's data
  (\<^verbatim>\<open>account_utils.rs\<close>), instruction errors and instruction metadata (\<^verbatim>\<open>instruction.rs\<close>),
  and the system and native-loader program ids.

  Serialisation is bincode, a third-party crate: a \<open>codec\<close> is a parameter of every
  definition that reads or writes typed data, and what the code relies on (what was written
  is read back, a write never changes the length of the buffer) is the predicate
  \<open>codec_ok\<close>, a hypothesis of the theorems that need it.
\<close>

section \<open>Keys and hashes\<close>

datatype pubkey = Pubkey (pubkey_bytes: bytes)

datatype hash = Hash (hash_bytes: bytes)

datatype signature = Signature (signature_bytes: bytes)

definition default_pubkey :: pubkey where
  "default_pubkey = Pubkey (replicate 32 0)"

definition default_hash :: hash where
  "default_hash = Hash (replicate 32 0)"

definition default_signature :: signature where
  "default_signature = Signature (replicate 64 0)"

text \<open>The derived order of \<open>Pubkey\<close>: lexicographic on the bytes.\<close>

instantiation pubkey :: linorder
begin

definition less_eq_pubkey :: "pubkey \<Rightarrow> pubkey \<Rightarrow> bool" where
  "less_eq_pubkey a b = (pubkey_bytes a \<le> pubkey_bytes b)"

definition less_pubkey :: "pubkey \<Rightarrow> pubkey \<Rightarrow> bool" where
  "less_pubkey a b = (pubkey_bytes a < pubkey_bytes b)"

instance
  by standard
    (auto simp: less_eq_pubkey_def less_pubkey_def pubkey.expand less_le_not_le)

end

section \<open>Accounts\<close>

record account =
  difs :: u64
  reputations :: u64
  data :: bytes
  owner :: pubkey
  executable :: bool

definition account_new :: "u64 \<Rightarrow> u64 \<Rightarrow> nat \<Rightarrow> pubkey \<Rightarrow> account" where
  "account_new d r space own =
     \<lparr>difs = d, reputations = r, data = replicate space 0, owner = own, executable = False\<rparr>"

text \<open>\<open>Account::default()\<close>, derived field by field.\<close>

definition default_account :: account where
  "default_account =
     \<lparr>difs = 0, reputations = 0, data = [], owner = default_pubkey, executable = False\<rparr>"

record keyed_account =
  is_signer :: bool
  key :: pubkey
  account :: account

definition signer_key :: "keyed_account \<Rightarrow> pubkey option" where
  "signer_key ka = (if is_signer ka then Some (key ka) else None)"

definition unsigned_key :: "keyed_account \<Rightarrow> pubkey" where
  "unsigned_key ka = key ka"

definition keyed_account_new :: "pubkey \<Rightarrow> bool \<Rightarrow> account \<Rightarrow> keyed_account" where
  "keyed_account_new k s a = \<lparr>is_signer = s, key = k, account = a\<rparr>"

definition keyed_account_from :: "pubkey \<times> account \<Rightarrow> keyed_account" where
  "keyed_account_from p = \<lparr>is_signer = False, key = fst p, account = snd p\<rparr>"

definition create_keyed_accounts :: "(pubkey \<times> account) list \<Rightarrow> keyed_account list" where
  "create_keyed_accounts accounts = map keyed_account_from accounts"

text \<open>The in-place updates \<open>keyed_accounts[i].account.f = \<dots>\<close> of the handlers.\<close>

definition modify_account ::
  "nat \<Rightarrow> (account \<Rightarrow> account) \<Rightarrow> keyed_account list \<Rightarrow> ('e, keyed_account list) res" where
  "modify_account i f kas = upd_at i (\<lambda>ka. ka\<lparr>account := f (account ka)\<rparr>) kas"

definition add_difs :: "u64 \<Rightarrow> account \<Rightarrow> account" where
  "add_difs d a = a\<lparr>difs := difs a + d\<rparr>"

definition sub_difs :: "u64 \<Rightarrow> account \<Rightarrow> account" where
  "sub_difs d a = a\<lparr>difs := difs a - d\<rparr>"

abbreviation total_difs :: "keyed_account list \<Rightarrow> u64" where
  "total_difs kas \<equiv> sum_list (map (\<lambda>ka. difs (account ka)) kas)"

section \<open>Instruction errors and instruction metadata\<close>

datatype instruction_error =
    GenericError
  | InvalidArgument
  | InvalidInstructionData
  | InvalidAccountData
  | AccountDataTooSmall
  | IncorrectProgramId
  | MissingRequiredSignature
  | AccountAlreadyInitialized
  | UninitializedAccount
  | UnbalancedInstruction
  | ModifiedProgramId
  | ExternalAccountDifSpend
  | ExternalAccountDataModified
  | DuplicateAccountIndex
  | CustomError u32

type_synonym 'a ix_result = "(instruction_error, 'a) res"

record account_meta =
  meta_pubkey :: pubkey
  meta_is_signer :: bool
  meta_is_debitable :: bool

definition account_meta_new :: "pubkey \<Rightarrow> bool \<Rightarrow> account_meta" where
  "account_meta_new k s = \<lparr>meta_pubkey = k, meta_is_signer = s, meta_is_debitable = True\<rparr>"

definition account_meta_new_credit_only :: "pubkey \<Rightarrow> bool \<Rightarrow> account_meta" where
  "account_meta_new_credit_only k s =
     \<lparr>meta_pubkey = k, meta_is_signer = s, meta_is_debitable = False\<rparr>"

record instruction =
  ix_program_id :: pubkey
  ix_accounts :: "account_meta list"
  ix_data :: bytes

record compiled_instruction =
  program_ids_index :: u8
  ci_accounts :: "u8 list"
  ci_data :: bytes

section \<open>Serialisation: a parameter\<close>

datatype bincode_error = SizeLimit | OtherBincodeError

record 'a codec =
  serialize :: "'a \<Rightarrow> bincode_error + bytes"
  serialize_into :: "'a \<Rightarrow> bytes \<Rightarrow> bincode_error + bytes"
  deserialize :: "bytes \<Rightarrow> 'a option"
  serialized_size :: "'a \<Rightarrow> bincode_error + u64"

definition codec_ok :: "'a codec \<Rightarrow> bool" where
  "codec_ok c \<longleftrightarrow>
     (\<forall>x b. serialize c x = Inr b \<longrightarrow> deserialize c b = Some x) \<and>
     (\<forall>x b b'. serialize_into c x b = Inr b' \<longrightarrow> length b' = length b \<and> deserialize c b' = Some x)"

definition instruction_new ::
  "'a codec \<Rightarrow> pubkey \<Rightarrow> 'a \<Rightarrow> account_meta list \<Rightarrow> ('e, instruction) res" where
  "instruction_new c program x accounts =
     (case serialize c x of
        Inl _ \<Rightarrow> Panic
      | Inr d \<Rightarrow> Ok \<lparr>ix_program_id = program, ix_accounts = accounts, ix_data = d\<rparr>)"

text \<open>\<open>serialized_size(\<dots>).unwrap() as usize\<close>.\<close>

definition size_of_value :: "'a codec \<Rightarrow> 'a \<Rightarrow> ('e, nat) res" where
  "size_of_value c x = (case serialized_size c x of Inl _ \<Rightarrow> Panic | Inr n \<Rightarrow> Ok (unat n))"

text \<open>\<open>State\<close> of \<^verbatim>\<open>account_utils.rs\<close>: an account's data read and written at a type.\<close>

definition account_state :: "'a codec \<Rightarrow> account \<Rightarrow> 'a ix_result" where
  "account_state c a = ok_or InvalidAccountData (deserialize c (data a))"

definition account_set_state :: "'a codec \<Rightarrow> 'a \<Rightarrow> account \<Rightarrow> account ix_result" where
  "account_set_state c x a =
     (case serialize_into c x (data a) of
        Inr d \<Rightarrow> Ok (a\<lparr>data := d\<rparr>)
      | Inl SizeLimit \<Rightarrow> Err AccountDataTooSmall
      | Inl _ \<Rightarrow> Err GenericError)"

definition keyed_state :: "'a codec \<Rightarrow> keyed_account \<Rightarrow> 'a ix_result" where
  "keyed_state c ka = account_state c (account ka)"

definition keyed_set_state :: "'a codec \<Rightarrow> 'a \<Rightarrow> keyed_account \<Rightarrow> keyed_account ix_result" where
  "keyed_set_state c x ka =
     res_bind (account_set_state c x (account ka)) (\<lambda>a. Ok (ka\<lparr>account := a\<rparr>))"

section \<open>Program ids\<close>

definition system_program_id :: pubkey where
  "system_program_id = Pubkey
     [0, 0, 0, 0, 0, 0, 0, 0, 0, 0, 0, 0, 0, 0, 0, 0, 0, 0, 0, 0, 0, 0, 0, 0, 0, 0, 0, 0, 0, 0, 0, 0]"

definition system_check_id :: "pubkey \<Rightarrow> bool" where
  "system_check_id k \<longleftrightarrow> k = system_program_id"

definition native_loader_id :: pubkey where
  "native_loader_id = Pubkey
     [5, 135, 132, 191, 20, 139, 164, 40, 47, 176, 18, 87, 72, 136, 169, 241, 83, 160, 125, 173,
      247, 101, 192, 69, 92, 154, 151, 3, 128, 0, 0, 0]"

definition create_loadable_account :: "bytes \<Rightarrow> account" where
  "create_loadable_account name =
     \<lparr>difs = 1, reputations = 0, data = name, owner = native_loader_id, executable = True\<rparr>"

text \<open>\<open>unwrap\<close> of a result: an error panics.\<close>

fun unwrap_res :: "('d, 'a) res \<Rightarrow> ('e, 'a) res" where
  "unwrap_res (Ok x) = Ok x"
| "unwrap_res (Err _) = Panic"
| "unwrap_res Panic = Panic"

text \<open>
  The entry point of a native program, \<open>ProcessInstruction\<close>: the program id, the keyed
  accounts, the instruction data and the tick height give the accounts after the call.
\<close>

type_synonym process_instruction =
  "pubkey \<Rightarrow> keyed_account list \<Rightarrow> bytes \<Rightarrow> u64 \<Rightarrow> keyed_account list ix_result"

section \<open>Lemmas\<close>

text \<open>The default key and the system program's id are the same 32 zero bytes.\<close>

lemma system_program_id_default: "system_program_id = default_pubkey"
  by (simp add: system_program_id_def default_pubkey_def numeral_eq_Suc)

lemma signer_key_Some [simp]: "signer_key ka = Some k \<longleftrightarrow> is_signer ka \<and> key ka = k"
  by (simp add: signer_key_def)

lemma signer_key_None [simp]: "signer_key ka = None \<longleftrightarrow> \<not> is_signer ka"
  by (simp add: signer_key_def)

lemma modify_account_Ok_iff [simp]:
  "modify_account i f kas = Ok kas' \<longleftrightarrow>
     i < length kas \<and> kas' = kas[i := (kas ! i)\<lparr>account := f (account (kas ! i))\<rparr>]"
  by (simp add: modify_account_def)

lemma modify_account_in [simp]:
  "i < length kas \<Longrightarrow>
     modify_account i f kas = Ok (kas[i := (kas ! i)\<lparr>account := f (account (kas ! i))\<rparr>])"
  by (simp add: modify_account_def)

lemma modify_account_not_Err [simp]: "modify_account i f kas \<noteq> Err e"
  by (simp add: modify_account_def)

lemma add_difs_sel [simp]:
  "difs (add_difs d a) = difs a + d" "reputations (add_difs d a) = reputations a"
  "data (add_difs d a) = data a" "owner (add_difs d a) = owner a"
  "executable (add_difs d a) = executable a"
  by (simp_all add: add_difs_def)

lemma sub_difs_sel [simp]:
  "difs (sub_difs d a) = difs a - d" "reputations (sub_difs d a) = reputations a"
  "data (sub_difs d a) = data a" "owner (sub_difs d a) = owner a"
  "executable (sub_difs d a) = executable a"
  by (simp_all add: sub_difs_def)

lemma account_state_Ok_iff [simp]: "account_state c a = Ok x \<longleftrightarrow> deserialize c (data a) = Some x"
  by (simp add: account_state_def)

lemma account_set_state_Ok_iff:
  "account_set_state c x a = Ok a' \<longleftrightarrow>
     (\<exists>d. serialize_into c x (data a) = Inr d \<and> a' = a\<lparr>data := d\<rparr>)"
  by (auto simp: account_set_state_def split: sum.splits bincode_error.splits)

lemma account_set_state_frame:
  "account_set_state c x a = Ok a' \<Longrightarrow>
     difs a' = difs a \<and> reputations a' = reputations a \<and> owner a' = owner a \<and>
     executable a' = executable a"
  by (auto simp: account_set_state_Ok_iff)

lemma account_state_set_state:
  "codec_ok c \<Longrightarrow> account_set_state c x a = Ok a' \<Longrightarrow> account_state c a' = Ok x"
  by (auto simp: account_set_state_Ok_iff codec_ok_def)

lemma keyed_state_Ok_iff [simp]:
  "keyed_state c ka = Ok x \<longleftrightarrow> deserialize c (data (account ka)) = Some x"
  by (simp add: keyed_state_def)

lemma keyed_set_state_Ok_iff:
  "keyed_set_state c x ka = Ok ka' \<longleftrightarrow>
     (\<exists>d. serialize_into c x (data (account ka)) = Inr d \<and>
          ka' = ka\<lparr>account := (account ka)\<lparr>data := d\<rparr>\<rparr>)"
  by (auto simp: keyed_set_state_def account_set_state_Ok_iff)

lemma keyed_set_state_frame:
  "keyed_set_state c x ka = Ok ka' \<Longrightarrow>
     key ka' = key ka \<and> is_signer ka' = is_signer ka \<and>
     difs (account ka') = difs (account ka) \<and> owner (account ka') = owner (account ka) \<and>
     reputations (account ka') = reputations (account ka) \<and>
     executable (account ka') = executable (account ka)"
  by (auto simp: keyed_set_state_Ok_iff)

lemma keyed_state_set_state:
  "codec_ok c \<Longrightarrow> keyed_set_state c x ka = Ok ka' \<Longrightarrow> keyed_state c ka' = Ok x"
  by (auto simp: keyed_set_state_Ok_iff codec_ok_def)

text \<open>
  A concrete codec, to show that hypotheses over codecs can hold: values of a table are
  written as one byte, their position in the table, at the front of the buffer.
\<close>

definition table_codec :: "'a list \<Rightarrow> 'a codec" where
  "table_codec tbl =
     \<lparr>serialize = (\<lambda>x. case position (\<lambda>y. y = x) tbl of
                          None \<Rightarrow> Inl OtherBincodeError
                        | Some i \<Rightarrow> if i < 256 then Inr [of_nat i] else Inl OtherBincodeError),
      serialize_into = (\<lambda>x b. case position (\<lambda>y. y = x) tbl of
                          None \<Rightarrow> Inl OtherBincodeError
                        | Some i \<Rightarrow> if b = [] then Inl SizeLimit
                                    else if i < 256 then Inr (of_nat i # tl b)
                                    else Inl OtherBincodeError),
      deserialize = (\<lambda>b. case b of [] \<Rightarrow> None
                          | w # _ \<Rightarrow> if unat w < length tbl then Some (tbl ! unat w) else None),
      serialized_size = (\<lambda>x. Inr 1)\<rparr>"

lemma table_codec_ok: "codec_ok (table_codec tbl)"
proof -
  have "tbl ! unat (of_nat i :: u8) = x \<and> unat (of_nat i :: u8) < length tbl"
    if "position (\<lambda>y. y = x) tbl = Some i" "i < 256" for i x
    using that position_Some [OF that(1)] by (simp add: unat_of_nat)
  then show ?thesis
    by (auto simp: codec_ok_def table_codec_def split: option.splits if_splits)
qed

text \<open>Reading ignores the bytes after the value, as \<open>bincode::deserialize\<close> does.\<close>

definition codec_prefix_ok :: "'a codec \<Rightarrow> bool" where
  "codec_prefix_ok c \<longleftrightarrow> (\<forall>x b rest. serialize c x = Inr b \<longrightarrow> deserialize c (b @ rest) = Some x)"

lemma table_codec_prefix_ok: "codec_prefix_ok (table_codec tbl)"
proof -
  have "tbl ! unat (of_nat i :: u8) = x \<and> unat (of_nat i :: u8) < length tbl"
    if "position (\<lambda>y. y = x) tbl = Some i" "i < 256" for i x
    using that position_Some [OF that(1)] by (simp add: unat_of_nat)
  then show ?thesis
    by (auto simp: codec_prefix_ok_def table_codec_def split: option.splits if_splits)
qed

end
