(* ===== verification/Message_Model.thy ===== *)
theory Message_Model
  imports Account_Model
begin

text \<open>
  Messages and transactions, \<^verbatim>\<open>src/interface/src/message.rs\<close> and \<^verbatim>\<open>transaction.rs\<close>: compiling
  instructions into a message (which keys it lists, in which order, and the indices that
  replace them), the lock type of every key, and the reference check of a transaction.

  \<open>unique\<close> and \<open>unique_by\<close> of the itertools crate are a parameter; \<open>itertools_ok\<close> states
  their documented behaviour: elements whose key has been produced before are dropped.
\<close>

section \<open>Compiling instructions\<close>

record itertools =
  unique :: "pubkey list \<Rightarrow> pubkey list"
  unique_by :: "(account_meta \<Rightarrow> pubkey) \<Rightarrow> account_meta list \<Rightarrow> account_meta list"

fun first_by :: "('a \<Rightarrow> 'k) \<Rightarrow> 'k set \<Rightarrow> 'a list \<Rightarrow> 'a list" where
  "first_by f seen [] = []"
| "first_by f seen (x # xs) =
     (if f x \<in> seen then first_by f seen xs else x # first_by f (insert (f x) seen) xs)"

definition itertools_ok :: "itertools \<Rightarrow> bool" where
  "itertools_ok it \<longleftrightarrow>
     (\<forall>xs. unique it xs = first_by (\<lambda>k. k) {} xs) \<and>
     (\<forall>f xs. unique_by it f xs = first_by f {} xs)"

definition message_position :: "pubkey list \<Rightarrow> pubkey \<Rightarrow> ('e, u8) res" where
  "message_position keys k =
     res_bind (unwrap (position (\<lambda>k'. k' = k) keys)) (\<lambda>i. Ok (of_nat i))"

definition compile_instruction ::
  "instruction \<Rightarrow> pubkey list \<Rightarrow> ('e, compiled_instruction) res" where
  "compile_instruction ix keys =
     res_bind (res_map (\<lambda>m. message_position keys (meta_pubkey m)) (ix_accounts ix)) (\<lambda>accounts.
     res_bind (message_position keys (ix_program_id ix)) (\<lambda>pidx.
       Ok \<lparr>program_ids_index = pidx, ci_accounts = accounts, ci_data = ix_data ix\<rparr>))"

definition compile_instructions ::
  "instruction list \<Rightarrow> pubkey list \<Rightarrow> ('e, compiled_instruction list) res" where
  "compile_instructions ixs keys = res_map (\<lambda>ix. compile_instruction ix keys) ixs"

record instruction_keys =
  signed_keys :: "pubkey list"
  unsigned_keys :: "pubkey list"
  ik_num_credit_only_signed_accounts :: u8
  ik_num_credit_only_unsigned_accounts :: u8

definition get_program_ids :: "itertools \<Rightarrow> instruction list \<Rightarrow> pubkey list" where
  "get_program_ids it ixs = unique it (map ix_program_id ixs)"

text \<open>
  The comparison of \<open>sort_by\<close> (stable in the standard library) ranks signers before the
  others, and debitable keys before credit-only ones.
\<close>

definition meta_rank :: "account_meta \<Rightarrow> nat" where
  "meta_rank m = (if meta_is_signer m then 0 else 2) + (if meta_is_debitable m then 0 else 1)"

fun get_keys_loop :: "account_meta list \<Rightarrow> instruction_keys \<Rightarrow> instruction_keys" where
  "get_keys_loop [] ik = ik"
| "get_keys_loop (m # ms) ik = get_keys_loop ms
     (if meta_is_signer m then
        ik\<lparr>signed_keys := signed_keys ik @ [meta_pubkey m],
           ik_num_credit_only_signed_accounts :=
             ik_num_credit_only_signed_accounts ik + (if meta_is_debitable m then 0 else 1)\<rparr>
      else
        ik\<lparr>unsigned_keys := unsigned_keys ik @ [meta_pubkey m],
           ik_num_credit_only_unsigned_accounts :=
             ik_num_credit_only_unsigned_accounts ik + (if meta_is_debitable m then 0 else 1)\<rparr>)"

definition keys_and_signed :: "itertools \<Rightarrow> instruction list \<Rightarrow> pubkey option \<Rightarrow> account_meta list" where
  "keys_and_signed it ixs payer =
     (let programs = map (\<lambda>p. \<lparr>meta_pubkey = p, meta_is_signer = False, meta_is_debitable = False\<rparr>)
                         (get_program_ids it ixs);
          sorted_keys = sort_key meta_rank (concat (map ix_accounts ixs) @ programs)
      in case payer of
           None \<Rightarrow> sorted_keys
         | Some p \<Rightarrow> \<lparr>meta_pubkey = p, meta_is_signer = True, meta_is_debitable = True\<rparr> # sorted_keys)"

definition get_keys :: "itertools \<Rightarrow> instruction list \<Rightarrow> pubkey option \<Rightarrow> instruction_keys" where
  "get_keys it ixs payer =
     get_keys_loop (unique_by it meta_pubkey (keys_and_signed it ixs payer))
       \<lparr>signed_keys = [], unsigned_keys = [],
        ik_num_credit_only_signed_accounts = 0, ik_num_credit_only_unsigned_accounts = 0\<rparr>"

section \<open>Messages\<close>

record message_header =
  num_required_signatures :: u8
  num_credit_only_signed_accounts :: u8
  num_credit_only_unsigned_accounts :: u8

record message =
  header :: message_header
  account_keys :: "pubkey list"
  recent_blockhash :: hash
  instructions :: "compiled_instruction list"

definition message_new_with_compiled_instructions ::
  "u8 \<Rightarrow> u8 \<Rightarrow> u8 \<Rightarrow> pubkey list \<Rightarrow> hash \<Rightarrow> compiled_instruction list \<Rightarrow> message" where
  "message_new_with_compiled_instructions nrs ncs ncu keys blockhash ixs =
     \<lparr>header = \<lparr>num_required_signatures = nrs, num_credit_only_signed_accounts = ncs,
                num_credit_only_unsigned_accounts = ncu\<rparr>,
      account_keys = keys, recent_blockhash = blockhash, instructions = ixs\<rparr>"

definition message_new_with_payer ::
  "itertools \<Rightarrow> instruction list \<Rightarrow> pubkey option \<Rightarrow> ('e, message) res" where
  "message_new_with_payer it ixs payer =
     (let ik = get_keys it ixs payer;
          keys = signed_keys ik @ unsigned_keys ik
      in res_bind (compile_instructions ixs keys) (\<lambda>cis.
           Ok (message_new_with_compiled_instructions
                 (of_nat (length (signed_keys ik)))
                 (ik_num_credit_only_signed_accounts ik)
                 (ik_num_credit_only_unsigned_accounts ik)
                 keys default_hash cis)))"

definition message_new :: "itertools \<Rightarrow> instruction list \<Rightarrow> ('e, message) res" where
  "message_new it ixs = message_new_with_payer it ixs None"

definition program_ids :: "message \<Rightarrow> ('e, pubkey list) res" where
  "program_ids m = res_map (\<lambda>ix. idx (account_keys m) (unat (program_ids_index ix))) (instructions m)"

text \<open>
  The closure of \<open>program_position\<close> indexes \<open>account_keys\<close> once per program id it looks at, so
  an index out of range panics unless the message has no instruction at all.
\<close>

definition program_position :: "message \<Rightarrow> nat \<Rightarrow> ('e, nat option) res" where
  "program_position m i =
     res_bind (program_ids m) (\<lambda>ids.
       if ids = [] then Ok None
       else res_bind (idx (account_keys m) i) (\<lambda>k. Ok (position (\<lambda>p. p = k) ids)))"

definition is_credit_debit :: "message \<Rightarrow> nat \<Rightarrow> bool" where
  "is_credit_debit m i \<longleftrightarrow>
     i < unat (num_required_signatures (header m) - num_credit_only_signed_accounts (header m)) \<or>
     (i \<ge> unat (num_required_signatures (header m)) \<and>
      i < unat ((of_nat (length (account_keys m)) :: u64)
                 - ucast (num_credit_only_unsigned_accounts (header m))))"

definition get_account_keys_by_lock_type :: "message \<Rightarrow> pubkey list \<times> pubkey list" where
  "get_account_keys_by_lock_type m =
     (map snd (filter (\<lambda>(i, k). is_credit_debit m i) (enumerate 0 (account_keys m))),
      map snd (filter (\<lambda>(i, k). \<not> is_credit_debit m i) (enumerate 0 (account_keys m))))"

definition ci_program_id :: "compiled_instruction \<Rightarrow> pubkey list \<Rightarrow> ('e, pubkey) res" where
  "ci_program_id ci ids = idx ids (unat (program_ids_index ci))"

section \<open>Transactions\<close>

datatype transaction_error =
    AccountInUse
  | AccountLoadedTwice
  | AccountNotFound
  | ProgramAccountNotFound
  | InsufficientFundsForFee
  | InvalidAccountForFee
  | DuplicateSignature
  | BlockhashNotFound
  | InstructionError u8 instruction_error
  | CallChainTooDeep
  | MissingSignatureForFee
  | InvalidAccountIndex

record transaction =
  signatures :: "signature list"
  tx_message :: message

definition new_unsigned :: "message \<Rightarrow> transaction" where
  "new_unsigned m =
     \<lparr>signatures = replicate (unat (num_required_signatures (header m))) default_signature,
      tx_message = m\<rparr>"

text \<open>A key pair is its public key and its signing function (\<open>KeypairUtil\<close>).\<close>

record keypair =
  kp_pubkey :: pubkey
  kp_sign :: "bytes \<Rightarrow> signature"

definition message_data :: "message codec \<Rightarrow> transaction \<Rightarrow> ('e, bytes) res" where
  "message_data c tx = (case serialize c (tx_message tx) of Inl _ \<Rightarrow> Panic | Inr d \<Rightarrow> Ok d)"

definition sign_unchecked ::
  "message codec \<Rightarrow> keypair list \<Rightarrow> hash \<Rightarrow> transaction \<Rightarrow> ('e, transaction) res" where
  "sign_unchecked c kps h tx =
     (let tx = tx\<lparr>tx_message := (tx_message tx)\<lparr>recent_blockhash := h\<rparr>\<rparr>
      in res_bind (message_data c tx) (\<lambda>d. Ok (tx\<lparr>signatures := map (\<lambda>kp. kp_sign kp d) kps\<rparr>)))"

definition sign ::
  "message codec \<Rightarrow> keypair list \<Rightarrow> hash \<Rightarrow> transaction \<Rightarrow> ('e, transaction) res" where
  "sign c kps h tx =
     (let n = unat (num_required_signatures (header (tx_message tx)));
          keys = account_keys (tx_message tx)
      in if length keys < n then Panic
         else if map kp_pubkey kps \<noteq> take n keys then Panic
         else sign_unchecked c kps h tx)"

fun partial_sign_loop ::
  "message codec \<Rightarrow> pubkey list \<Rightarrow> keypair list \<Rightarrow> transaction \<Rightarrow> ('e, transaction) res" where
  "partial_sign_loop c keys [] tx = Ok tx"
| "partial_sign_loop c keys (kp # kps) tx =
     res_bind (unwrap (position (\<lambda>k. k = kp_pubkey kp) keys)) (\<lambda>i.
     res_bind (message_data c tx) (\<lambda>d.
     res_bind (upd_at i (\<lambda>_. kp_sign kp d) (signatures tx)) (\<lambda>ss.
       partial_sign_loop c keys kps (tx\<lparr>signatures := ss\<rparr>))))"

definition partial_sign ::
  "message codec \<Rightarrow> keypair list \<Rightarrow> hash \<Rightarrow> transaction \<Rightarrow> ('e, transaction) res" where
  "partial_sign c kps h tx =
     (let n = unat (num_required_signatures (header (tx_message tx)));
          keys = account_keys (tx_message tx)
      in if length keys < n then Panic
         else partial_sign_loop c (take n keys) kps
           (if h \<noteq> recent_blockhash (tx_message tx)
            then tx\<lparr>tx_message := (tx_message tx)\<lparr>recent_blockhash := h\<rparr>,
                    signatures := map (\<lambda>_. default_signature) (signatures tx)\<rparr>
            else tx))"

definition transaction_new ::
  "message codec \<Rightarrow> keypair list \<Rightarrow> message \<Rightarrow> hash \<Rightarrow> ('e, transaction) res" where
  "transaction_new c kps m h = sign c kps h (new_unsigned m)"

definition new_signed_instructions ::
  "itertools \<Rightarrow> message codec \<Rightarrow> keypair list \<Rightarrow> instruction list \<Rightarrow> hash \<Rightarrow> ('e, transaction) res" where
  "new_signed_instructions it c kps ixs h =
     res_bind (message_new it ixs) (\<lambda>m. transaction_new c kps m h)"

definition transaction_new_with_compiled_instructions ::
  "message codec \<Rightarrow> keypair list \<Rightarrow> pubkey list \<Rightarrow> hash \<Rightarrow> pubkey list \<Rightarrow> compiled_instruction list \<Rightarrow>
     ('e, transaction) res" where
  "transaction_new_with_compiled_instructions c kps keys h programs cis =
     transaction_new c kps
       (message_new_with_compiled_instructions (of_nat (length kps)) 0 (of_nat (length programs))
          (map kp_pubkey kps @ keys @ programs) default_hash cis) h"

definition key_index :: "transaction \<Rightarrow> nat \<Rightarrow> nat \<Rightarrow> nat option" where
  "key_index tx i a =
     (case nth_opt (instructions (tx_message tx)) i of
        None \<Rightarrow> None
      | Some ci \<Rightarrow> map_option unat (nth_opt (ci_accounts ci) a))"

definition tx_key :: "transaction \<Rightarrow> nat \<Rightarrow> nat \<Rightarrow> pubkey option" where
  "tx_key tx i a = Option.bind (key_index tx i a) (nth_opt (account_keys (tx_message tx)))"

definition tx_signer_key :: "transaction \<Rightarrow> nat \<Rightarrow> nat \<Rightarrow> pubkey option" where
  "tx_signer_key tx i a =
     (case key_index tx i a of
        None \<Rightarrow> None
      | Some s \<Rightarrow> if s \<ge> length (signatures tx) then None
                  else nth_opt (account_keys (tx_message tx)) s)"

definition is_signed :: "transaction \<Rightarrow> bool" where
  "is_signed tx \<longleftrightarrow> list_all (\<lambda>s. s \<noteq> default_signature) (signatures tx)"

definition verify_refs :: "transaction \<Rightarrow> bool" where
  "verify_refs tx \<longleftrightarrow>
     (let n = length (account_keys (tx_message tx))
      in list_all (\<lambda>ci. unat (program_ids_index ci) < n \<and>
                         list_all (\<lambda>i. unat i < n) (ci_accounts ci)) (instructions (tx_message tx)))"

section \<open>First occurrences\<close>

lemma first_by_set:
  "f ` set (first_by f seen xs) = f ` set xs - seen"
  by (induction xs arbitrary: seen) (auto simp: insert_Diff_if)

lemma first_by_distinct: "distinct (map f (first_by f seen xs))"
proof (induction xs arbitrary: seen)
  case (Cons x xs)
  then show ?case
    using first_by_set [of f "insert (f x) seen" xs] by (auto simp: image_iff)
qed simp

lemma first_by_subset: "set (first_by f seen xs) \<subseteq> set xs"
  by (induction xs arbitrary: seen) (auto split: if_splits)

lemma first_by_sorted: "sorted (map r xs) \<Longrightarrow> sorted (map r (first_by f seen xs))"
proof (induction xs arbitrary: seen)
  case (Cons x xs)
  then show ?case
    using first_by_subset [of f "insert (f x) seen" xs] by auto
qed simp

lemma first_by_unseen: "x \<in> set (first_by f seen xs) \<Longrightarrow> f x \<notin> seen"
  by (induction xs arbitrary: seen) (auto split: if_splits)

lemma first_by_least:
  assumes "sorted (map r xs)" "x \<in> set (first_by f seen xs)" "y \<in> set xs" "f y = f x"
  shows "r x \<le> r y"
  using assms
proof (induction xs arbitrary: seen)
  case (Cons z xs)
  show ?case
  proof (cases "y = z")
    case True
    then show ?thesis
      using Cons.prems first_by_unseen [of x f seen "z # xs"]
        first_by_unseen [of x f "insert (f z) seen" xs] by (auto split: if_splits)
  next
    case False
    then have "y \<in> set xs" using Cons.prems by simp
    moreover have "x = z \<or> x \<in> set (first_by f seen xs) \<or> x \<in> set (first_by f (insert (f z) seen) xs)"
      using Cons.prems(2) by (auto split: if_splits)
    ultimately show ?thesis
      using Cons.IH [of seen] Cons.IH [of "insert (f z) seen"] Cons.prems(1,4) by auto
  qed
qed simp

section \<open>What compilation gives\<close>

text \<open>The keys of a message in the order of the message, as the metadata that won.\<close>

definition message_metas :: "itertools \<Rightarrow> instruction list \<Rightarrow> pubkey option \<Rightarrow> account_meta list" where
  "message_metas it ixs payer = unique_by it meta_pubkey (keys_and_signed it ixs payer)"

lemma get_keys_loop_eq:
  "get_keys_loop ms ik =
     \<lparr>signed_keys = signed_keys ik @ map meta_pubkey (filter meta_is_signer ms),
      unsigned_keys = unsigned_keys ik @ map meta_pubkey (filter (\<lambda>m. \<not> meta_is_signer m) ms),
      ik_num_credit_only_signed_accounts = ik_num_credit_only_signed_accounts ik +
        of_nat (length (filter (\<lambda>m. meta_is_signer m \<and> \<not> meta_is_debitable m) ms)),
      ik_num_credit_only_unsigned_accounts = ik_num_credit_only_unsigned_accounts ik +
        of_nat (length (filter (\<lambda>m. \<not> meta_is_signer m \<and> \<not> meta_is_debitable m) ms))\<rparr>"
  by (induction ms ik rule: get_keys_loop.induct) (simp_all add: algebra_simps)

lemma get_keys_eq:
  "get_keys it ixs payer =
     (let ms = message_metas it ixs payer in
      \<lparr>signed_keys = map meta_pubkey (filter meta_is_signer ms),
       unsigned_keys = map meta_pubkey (filter (\<lambda>m. \<not> meta_is_signer m) ms),
       ik_num_credit_only_signed_accounts =
         of_nat (length (filter (\<lambda>m. meta_is_signer m \<and> \<not> meta_is_debitable m) ms)),
       ik_num_credit_only_unsigned_accounts =
         of_nat (length (filter (\<lambda>m. \<not> meta_is_signer m \<and> \<not> meta_is_debitable m) ms))\<rparr>)"
  by (simp add: get_keys_def message_metas_def get_keys_loop_eq Let_def)

lemma keys_and_signed_sorted: "sorted (map meta_rank (keys_and_signed it ixs payer))"
  by (auto simp: keys_and_signed_def Let_def meta_rank_def split: option.splits)

lemma message_metas_eq:
  "itertools_ok it \<Longrightarrow>
     message_metas it ixs payer = first_by meta_pubkey {} (keys_and_signed it ixs payer)"
  by (simp add: message_metas_def itertools_ok_def)

lemma message_metas_distinct:
  "itertools_ok it \<Longrightarrow> distinct (map meta_pubkey (message_metas it ixs payer))"
  by (simp add: message_metas_eq first_by_distinct)

lemma message_metas_sorted:
  "itertools_ok it \<Longrightarrow> sorted (map meta_rank (message_metas it ixs payer))"
  by (simp add: message_metas_eq first_by_sorted keys_and_signed_sorted)

text \<open>A list sorted by rank is its signers followed by the others.\<close>

lemma sorted_filter_split:
  assumes "sorted (map r ms)" "\<And>m. m \<in> set ms \<Longrightarrow> P m \<longleftrightarrow> r m < (n :: nat)"
  shows "filter P ms @ filter (\<lambda>m. \<not> P m) ms = ms"
  using assms
proof (induction ms)
  case (Cons m ms)
  show ?case
  proof (cases "P m")
    case False
    then have "\<forall>x \<in> set ms. \<not> P x" using Cons.prems by fastforce
    then show ?thesis using False by (simp add: filter_id_conv)
  qed (use Cons in simp)
qed simp

lemma message_metas_split:
  "itertools_ok it \<Longrightarrow>
     filter meta_is_signer (message_metas it ixs payer) @
     filter (\<lambda>m. \<not> meta_is_signer m) (message_metas it ixs payer) = message_metas it ixs payer"
  by (rule sorted_filter_split [where n = 2, OF message_metas_sorted]) (auto simp: meta_rank_def)

text \<open>The keys that have to be in the message.\<close>

definition referenced_keys :: "instruction list \<Rightarrow> pubkey option \<Rightarrow> pubkey set" where
  "referenced_keys ixs payer =
     set_option payer \<union> ix_program_id ` set ixs \<union>
     (\<Union>ix \<in> set ixs. meta_pubkey ` set (ix_accounts ix))"

lemma message_metas_keys:
  assumes "itertools_ok it"
  shows "meta_pubkey ` set (message_metas it ixs payer) = referenced_keys ixs payer"
proof -
  have "set (get_program_ids it ixs) = ix_program_id ` set ixs"
    using assms first_by_set [of "\<lambda>k. k" "{}" "map ix_program_id ixs"]
    by (simp add: itertools_ok_def get_program_ids_def)
  then have "meta_pubkey ` set (keys_and_signed it ixs payer) = referenced_keys ixs payer"
    by (cases payer)
      (simp_all add: keys_and_signed_def referenced_keys_def Let_def image_Un image_image image_UN
         Un_ac)
  then show ?thesis
    using assms by (simp add: message_metas_eq first_by_set)
qed

lemma message_position_in:
  assumes "k \<in> set keys"
  obtains i where "position (\<lambda>k'. k' = k) keys = Some i" "i < length keys" "keys ! i = k"
    "message_position keys k = Ok (of_nat i)"
proof -
  obtain i where i: "position (\<lambda>k'. k' = k) keys = Some i"
    using assms position_None [of "\<lambda>k'. k' = k" keys] by (cases "position (\<lambda>k'. k' = k) keys") auto
  with position_Some [OF i] show ?thesis
    by (intro that [of i]) (auto simp: message_position_def unwrap_def)
qed

lemma message_position_Ok:
  assumes "message_position keys k = Ok p" "length keys \<le> 256"
  shows "unat p < length keys \<and> keys ! unat p = k"
proof -
  from assms(1) obtain i where i: "position (\<lambda>k'. k' = k) keys = Some i" "p = of_nat i"
    by (auto simp: message_position_def)
  with position_Some [OF i(1)] assms(2) show ?thesis
    by (simp add: unat_of_nat)
qed

lemma compile_instruction_total:
  assumes "ix_program_id ix \<in> set keys" "meta_pubkey ` set (ix_accounts ix) \<subseteq> set keys"
  shows "\<exists>ci. compile_instruction ix keys = (Ok ci :: ('e, compiled_instruction) res)"
proof -
  have pos: "\<exists>p. message_position keys k = (Ok p :: ('e, u8) res)" if "k \<in> set keys" for k
    using that by (elim message_position_in) blast
  then obtain g where g: "\<And>k. k \<in> set keys \<Longrightarrow> message_position keys k = (Ok (g k) :: ('e, u8) res)"
    by metis
  have "res_map (\<lambda>m. message_position keys (meta_pubkey m)) (ix_accounts ix) =
          (Ok (map (\<lambda>m. g (meta_pubkey m)) (ix_accounts ix)) :: ('e, u8 list) res)"
    using assms(2) by (intro res_map_Ok_map g) auto
  with g [OF assms(1)] show ?thesis by (simp add: compile_instruction_def)
qed

definition resolves_to :: "pubkey list \<Rightarrow> compiled_instruction \<Rightarrow> instruction \<Rightarrow> bool" where
  "resolves_to keys ci ix \<longleftrightarrow>
     ci_data ci = ix_data ix \<and>
     unat (program_ids_index ci) < length keys \<and>
     keys ! unat (program_ids_index ci) = ix_program_id ix \<and>
     list_all2 (\<lambda>i m. unat i < length keys \<and> keys ! unat i = meta_pubkey m)
       (ci_accounts ci) (ix_accounts ix)"

lemma compile_instruction_resolves:
  assumes "compile_instruction ix keys = (Ok ci :: ('e, compiled_instruction) res)"
    "length keys \<le> 256"
  shows "resolves_to keys ci ix"
proof -
  from assms(1) obtain as p where
    as: "list_all2 (\<lambda>m a. message_position keys (meta_pubkey m) = (Ok a :: ('e, u8) res))
           (ix_accounts ix) as"
    and p: "message_position keys (ix_program_id ix) = (Ok p :: ('e, u8) res)"
    and ci: "ci = \<lparr>program_ids_index = p, ci_accounts = as, ci_data = ix_data ix\<rparr>"
    by (auto simp: compile_instruction_def res_map_Ok_iff)
  have "list_all2 (\<lambda>i m. unat i < length keys \<and> keys ! unat i = meta_pubkey m) as (ix_accounts ix)"
    using as by (auto simp: list_all2_conv_all_nth dest: message_position_Ok [OF _ assms(2)])
  then show ?thesis
    using message_position_Ok [OF p assms(2)] by (simp add: ci resolves_to_def)
qed

lemma compile_instructions_total:
  assumes "referenced_keys ixs payer \<subseteq> set keys"
  shows "\<exists>cis. compile_instructions ixs keys = (Ok cis :: ('e, compiled_instruction list) res)"
proof -
  have "\<exists>ci. compile_instruction ix keys = (Ok ci :: ('e, compiled_instruction) res)"
    if "ix \<in> set ixs" for ix
    using that assms by (intro compile_instruction_total) (auto simp: referenced_keys_def image_subset_iff UN_subset_iff)
  then obtain g where
    "\<And>ix. ix \<in> set ixs \<Longrightarrow> compile_instruction ix keys = (Ok (g ix) :: ('e, compiled_instruction) res)"
    by metis
  then have "compile_instructions ixs keys = (Ok (map g ixs) :: ('e, compiled_instruction list) res)"
    unfolding compile_instructions_def by (rule res_map_Ok_map)
  then show ?thesis ..
qed

lemma compile_instructions_resolve:
  assumes "compile_instructions ixs keys = Ok cis" "length keys \<le> 256"
  shows "list_all2 (resolves_to keys) cis ixs"
  using assms(1)
  by (auto simp: compile_instructions_def res_map_Ok_iff list_all2_conv_all_nth
      dest: compile_instruction_resolves [OF _ assms(2)])

text \<open>The message in terms of the winning metadata.\<close>

lemma message_new_with_payer_eq:
  fixes ixs payer
  assumes "itertools_ok it"
  defines "ms \<equiv> message_metas it ixs payer"
  shows "message_new_with_payer it ixs payer =
     res_bind (compile_instructions ixs (map meta_pubkey ms)) (\<lambda>cis.
       Ok (message_new_with_compiled_instructions (of_nat (length (filter meta_is_signer ms)))
         (of_nat (length (filter (\<lambda>m. meta_is_signer m \<and> \<not> meta_is_debitable m) ms)))
         (of_nat (length (filter (\<lambda>m. \<not> meta_is_signer m \<and> \<not> meta_is_debitable m) ms)))
         (map meta_pubkey ms) default_hash cis))"
  using message_metas_split [OF assms(1), of ixs payer]
  by (simp add: message_new_with_payer_def get_keys_eq Let_def ms_def flip: map_append)

lemma message_new_with_payer_Ok:
  fixes ixs payer
  assumes "itertools_ok it" "message_new_with_payer it ixs payer = (Ok m :: ('e, message) res)"
  defines "ms \<equiv> message_metas it ixs payer"
  shows "account_keys m = map meta_pubkey ms"
    "num_required_signatures (header m) = of_nat (length (filter meta_is_signer ms))"
    "num_credit_only_signed_accounts (header m) =
       of_nat (length (filter (\<lambda>m. meta_is_signer m \<and> \<not> meta_is_debitable m) ms))"
    "num_credit_only_unsigned_accounts (header m) =
       of_nat (length (filter (\<lambda>m. \<not> meta_is_signer m \<and> \<not> meta_is_debitable m) ms))"
    "compile_instructions ixs (map meta_pubkey ms) =
       (Ok (instructions m) :: ('e, compiled_instruction list) res)"
  using assms(2)
  by (auto simp: message_new_with_payer_eq [OF assms(1)] ms_def
      message_new_with_compiled_instructions_def)

lemma message_metas_length:
  assumes "itertools_ok it"
  shows "length (message_metas it ixs payer) = card (referenced_keys ixs payer)"
  using distinct_card [OF message_metas_distinct [OF assms, of ixs payer]] message_metas_keys [OF assms]
  by simp

lemma message_metas_payer:
  assumes "itertools_ok it"
  shows "\<exists>ms. message_metas it ixs (Some p) =
           \<lparr>meta_pubkey = p, meta_is_signer = True, meta_is_debitable = True\<rparr> # ms"
  using assms by (simp add: message_metas_eq keys_and_signed_def Let_def)

text \<open>The metadata that wins for a key has the least rank among those that mention it.\<close>

lemma message_metas_least:
  assumes "itertools_ok it" "m \<in> set (message_metas it ixs payer)"
    "m' \<in> set (keys_and_signed it ixs payer)" "meta_pubkey m' = meta_pubkey m"
  shows "meta_rank m \<le> meta_rank m'"
  using assms by (auto simp: message_metas_eq intro: first_by_least [OF keys_and_signed_sorted])

lemma message_metas_mem:
  "itertools_ok it \<Longrightarrow> m \<in> set (message_metas it ixs payer) \<Longrightarrow>
     m \<in> set (keys_and_signed it ixs payer)"
  using first_by_subset by (fastforce simp: message_metas_eq)

definition wants_signature :: "instruction list \<Rightarrow> pubkey option \<Rightarrow> pubkey \<Rightarrow> bool" where
  "wants_signature ixs payer k \<longleftrightarrow>
     payer = Some k \<or>
     list_ex (\<lambda>ix. list_ex (\<lambda>m. meta_pubkey m = k \<and> meta_is_signer m) (ix_accounts ix)) ixs"

definition wants_debit :: "instruction list \<Rightarrow> pubkey option \<Rightarrow> bool \<Rightarrow> pubkey \<Rightarrow> bool" where
  "wants_debit ixs payer as_signer k \<longleftrightarrow>
     payer = Some k \<or>
     list_ex (\<lambda>ix. list_ex (\<lambda>m. meta_pubkey m = k \<and> meta_is_signer m = as_signer \<and> meta_is_debitable m)
       (ix_accounts ix)) ixs"

lemma keys_and_signed_mem:
  "m \<in> set (keys_and_signed it ixs payer) \<longleftrightarrow>
     (\<exists>p. payer = Some p \<and> m = \<lparr>meta_pubkey = p, meta_is_signer = True, meta_is_debitable = True\<rparr>) \<or>
     (\<exists>ix \<in> set ixs. m \<in> set (ix_accounts ix)) \<or>
     (\<exists>p \<in> set (get_program_ids it ixs).
        m = \<lparr>meta_pubkey = p, meta_is_signer = False, meta_is_debitable = False\<rparr>)"
  by (auto simp: keys_and_signed_def Let_def split: option.splits)

lemma keys_and_signed_bex:
  "(\<exists>m \<in> set (keys_and_signed it ixs payer). P m) \<longleftrightarrow>
     (\<exists>p. payer = Some p \<and> P \<lparr>meta_pubkey = p, meta_is_signer = True, meta_is_debitable = True\<rparr>) \<or>
     (\<exists>ix \<in> set ixs. \<exists>m \<in> set (ix_accounts ix). P m) \<or>
     (\<exists>p \<in> set (get_program_ids it ixs).
        P \<lparr>meta_pubkey = p, meta_is_signer = False, meta_is_debitable = False\<rparr>)"
  unfolding Bex_def keys_and_signed_mem by blast

lemma message_metas_signer:
  assumes "itertools_ok it" "m \<in> set (message_metas it ixs payer)"
  shows "meta_is_signer m \<longleftrightarrow> wants_signature ixs payer (meta_pubkey m)"
proof
  show "wants_signature ixs payer (meta_pubkey m)" if "meta_is_signer m"
    using that message_metas_mem [OF assms]
    by (auto simp: keys_and_signed_mem wants_signature_def list_ex_iff)
next
  assume "wants_signature ixs payer (meta_pubkey m)"
  then have "\<exists>m' \<in> set (keys_and_signed it ixs payer).
      meta_pubkey m' = meta_pubkey m \<and> meta_is_signer m'"
    by (auto simp: keys_and_signed_bex wants_signature_def list_ex_iff)
  then obtain m' where "m' \<in> set (keys_and_signed it ixs payer)" "meta_pubkey m' = meta_pubkey m"
    "meta_is_signer m'" by blast
  with message_metas_least [OF assms this(1,2)] show "meta_is_signer m"
    by (simp add: meta_rank_def split: if_splits)
qed

lemma message_metas_debit:
  assumes "itertools_ok it" "m \<in> set (message_metas it ixs payer)"
  shows "meta_is_debitable m \<longleftrightarrow> wants_debit ixs payer (meta_is_signer m) (meta_pubkey m)"
proof
  show "wants_debit ixs payer (meta_is_signer m) (meta_pubkey m)" if "meta_is_debitable m"
    using that message_metas_mem [OF assms]
    by (auto simp: keys_and_signed_mem wants_debit_def list_ex_iff)
next
  assume "wants_debit ixs payer (meta_is_signer m) (meta_pubkey m)"
  then have "\<exists>m' \<in> set (keys_and_signed it ixs payer).
      meta_pubkey m' = meta_pubkey m \<and>
      (meta_is_signer m' \<or> meta_is_signer m' = meta_is_signer m) \<and> meta_is_debitable m'"
    by (auto simp: keys_and_signed_bex wants_debit_def list_ex_iff)
  then obtain m' where "m' \<in> set (keys_and_signed it ixs payer)" "meta_pubkey m' = meta_pubkey m"
    "meta_is_signer m' \<or> meta_is_signer m' = meta_is_signer m" "meta_is_debitable m'" by blast
  with message_metas_least [OF assms this(1,2)] show "meta_is_debitable m"
    by (auto simp: meta_rank_def split: if_splits)
qed

text \<open>In a list sorted by rank, the elements below a rank are the first ones.\<close>

lemma sorted_nth_filter:
  assumes "sorted (map r ms)" "i < length ms"
  shows "r (ms ! i) < (n :: nat) \<longleftrightarrow> i < length (filter (\<lambda>m. r m < n) ms)"
proof -
  let ?P = "\<lambda>m. r m < n"
  have split: "ms = filter ?P ms @ filter (\<lambda>m. \<not> ?P m) ms"
    using sorted_filter_split [OF assms(1), of ?P n] by simp
  have "?P (ms ! i)" if "i < length (filter ?P ms)"
    using that nth_mem [OF that] by (subst split) (simp add: nth_append)
  moreover have "\<not> ?P (ms ! i)" if "\<not> i < length (filter ?P ms)"
  proof -
    have "length ms = length (filter ?P ms) + length (filter (\<lambda>m. \<not> ?P m) ms)"
      using arg_cong [OF split, of length] by simp
    then have "i - length (filter ?P ms) < length (filter (\<lambda>m. \<not> ?P m) ms)"
      using that assms(2) by arith
    from nth_mem [OF this] show ?thesis
      using that by (subst split) (simp add: nth_append)
  qed
  ultimately show ?thesis by blast
qed

lemma rank_counts:
  "length (filter (\<lambda>m. meta_rank m < 2) ms) = length (filter meta_is_signer ms)"
  "length (filter (\<lambda>m. meta_rank m < 1) ms) +
     length (filter (\<lambda>m. meta_is_signer m \<and> \<not> meta_is_debitable m) ms) =
   length (filter meta_is_signer ms)"
  "length (filter (\<lambda>m. meta_rank m < 3) ms) +
     length (filter (\<lambda>m. \<not> meta_is_signer m \<and> \<not> meta_is_debitable m) ms) = length ms"
  by (induction ms) (auto simp: meta_rank_def)

lemma rank_cases:
  "meta_is_signer m \<longleftrightarrow> meta_rank m < 2"
  "meta_is_debitable m \<longleftrightarrow> meta_rank m < 1 \<or> (\<not> meta_rank m < 2 \<and> meta_rank m < 3)"
  by (auto simp: meta_rank_def)

lemma unat_of_nat_diff:
  assumes "a + b = c" "c < 2 ^ LENGTH('w::len)"
  shows "unat (of_nat c - of_nat b :: 'w word) = a"
proof -
  have "(of_nat c - of_nat b :: 'w word) = of_nat a"
    using assms(1) by auto
  then show ?thesis using assms by (simp add: unat_of_nat take_bit_nat_eq_self)
qed

lemma message_lock_ranks:
  assumes "itertools_ok it" "card (referenced_keys ixs payer) \<le> 255"
    "message_new_with_payer it ixs payer = Ok m" "i < length (account_keys m)"
  defines "mi \<equiv> message_metas it ixs payer ! i"
  shows "i < unat (num_required_signatures (header m)) \<longleftrightarrow> meta_is_signer mi"
    "is_credit_debit m i \<longleftrightarrow> meta_is_debitable mi"
proof -
  let ?ms = "message_metas it ixs payer"
  let ?s = "length (filter meta_is_signer ?ms)"
  let ?sc = "length (filter (\<lambda>m. meta_is_signer m \<and> \<not> meta_is_debitable m) ?ms)"
  let ?uc = "length (filter (\<lambda>m. \<not> meta_is_signer m \<and> \<not> meta_is_debitable m) ?ms)"
  note m_eq = message_new_with_payer_Ok [OF assms(1,3)]
  have i: "i < length ?ms" using assms(4) by (simp add: m_eq)
  have len: "length ?ms \<le> 255" using assms(1,2) by (simp add: message_metas_length)
  have small: "?s \<le> 255" "?uc \<le> 255"
    using len length_filter_le [of meta_is_signer ?ms]
      length_filter_le [of "\<lambda>m. \<not> meta_is_signer m \<and> \<not> meta_is_debitable m" ?ms] by linarith+
  note rank = sorted_nth_filter [OF message_metas_sorted [OF assms(1)] i]
  have s: "unat (of_nat ?s :: u8) = ?s" "(ucast (of_nat ?uc :: u8) :: u64) = of_nat ?uc"
    using small by (simp_all add: unat_of_nat unsigned_of_nat take_bit_nat_eq_self)
  have d1: "unat (of_nat ?s - of_nat ?sc :: u8) = length (filter (\<lambda>m. meta_rank m < 1) ?ms)"
    using rank_counts(2) [of ?ms] small by (intro unat_of_nat_diff) simp_all
  have d2: "unat (of_nat (length ?ms) - of_nat ?uc :: u64) = length (filter (\<lambda>m. meta_rank m < 3) ?ms)"
    using rank_counts(3) [of ?ms] len by (intro unat_of_nat_diff) simp_all
  show "i < unat (num_required_signatures (header m)) \<longleftrightarrow> meta_is_signer mi"
    using rank [of 2] by (simp add: m_eq s mi_def rank_counts(1) rank_cases)
  show "is_credit_debit m i \<longleftrightarrow> meta_is_debitable mi"
    unfolding is_credit_debit_def m_eq length_map s d1 d2 mi_def
    using rank_cases(2) [of "?ms ! i"] rank [of 1] rank [of 2] rank [of 3] by (simp add: rank_counts(1) linorder_not_less)
qed

section \<open>Properties\<close>

text \<open>
  Why there is a bound: the cast to \<open>u8\<close> wraps, and the 257th key gets the index of the first, which is the
  payer.
\<close>

lemma message_position_wraps:
  assumes "distinct keys" "256 < length keys"
  shows "message_position keys (keys ! 256) = Ok 0"
proof -
  have "position (\<lambda>k. k = keys ! 256) keys \<noteq> None" using assms(2) by (auto simp: position_None)
  then obtain i where i: "position (\<lambda>k. k = keys ! 256) keys = Some i" by blast
  from position_Some [OF i] have "i = 256" using assms by (auto simp: nth_eq_iff_index_eq)
  then show ?thesis using i by (simp add: message_position_def)
qed

text \<open>
  C19: compiling instructions that refer to at most 256 keys, the payer included, never panics, and the
  message it gives is well formed. The keys of the message are exactly the payer, the programs and the accounts of the instructions, each
  once, with the payer first; every compiled index is in range and stands for the key it
  replaced; so the transaction made of the message passes \<open>verify_refs\<close>. The bound is the
  range of a \<open>u8\<close> index.
\<close>

theorem message_new_with_payer_sound:
  assumes "itertools_ok it" "card (referenced_keys ixs payer) \<le> 256"
  shows "\<exists>m. message_new_with_payer it ixs payer = (Ok m :: ('e, message) res) \<and>
     distinct (account_keys m) \<and>
     set (account_keys m) = referenced_keys ixs payer \<and>
     (case payer of None \<Rightarrow> True | Some p \<Rightarrow> hd (account_keys m) = p) \<and>
     list_all2 (resolves_to (account_keys m)) (instructions m) ixs \<and>
     verify_refs (new_unsigned m)"
proof -
  let ?ms = "message_metas it ixs payer"
  have keys: "set (map meta_pubkey ?ms) = referenced_keys ixs payer"
    using message_metas_keys [OF assms(1)] by simp
  obtain cis where
    cis: "compile_instructions ixs (map meta_pubkey ?ms) = (Ok cis :: ('e, compiled_instruction list) res)"
    using compile_instructions_total [of ixs payer "map meta_pubkey ?ms"] keys by blast
  then obtain m where m: "message_new_with_payer it ixs payer = (Ok m :: ('e, message) res)"
    by (simp add: message_new_with_payer_eq [OF assms(1)])
  note m_eq = message_new_with_payer_Ok [OF assms(1) m]
  have res: "list_all2 (resolves_to (account_keys m)) (instructions m) ixs"
    using compile_instructions_resolve [OF m_eq(5)] assms message_metas_length [OF assms(1)]
    by (simp add: m_eq(1))
  then have "verify_refs (new_unsigned m)"
    by (auto simp: verify_refs_def new_unsigned_def list_all_iff list_all2_conv_all_nth
        resolves_to_def in_set_conv_nth Let_def)
  moreover have "case payer of None \<Rightarrow> True | Some p \<Rightarrow> hd (account_keys m) = p"
  proof (cases payer)
    case (Some p)
    with message_metas_payer [OF assms(1), of ixs p] show ?thesis by (auto simp: m_eq(1))
  qed simp
  ultimately show ?thesis
    using m res keys message_metas_distinct [OF assms(1)] by (auto simp: m_eq(1))
qed

text \<open>A concrete instance: the reference functions themselves, and one transfer instruction.\<close>

definition itertools_ref :: itertools where
  "itertools_ref = \<lparr>unique = first_by (\<lambda>k. k) {}, unique_by = (\<lambda>f. first_by f {})\<rparr>"

definition demo_key :: "u8 \<Rightarrow> pubkey" where
  "demo_key b = Pubkey (replicate 32 b)"

definition demo_ix :: instruction where
  "demo_ix = \<lparr>ix_program_id = demo_key 0,
     ix_accounts = [account_meta_new (demo_key 2) False, account_meta_new (demo_key 1) True,
                    account_meta_new_credit_only (demo_key 3) False],
     ix_data = [7]\<rparr>"

lemma itertools_ref_ok: "itertools_ok itertools_ref"
  by (simp add: itertools_ok_def itertools_ref_def)

lemma demo_key_inject [simp]: "demo_key a = demo_key b \<longleftrightarrow> a = b"
  by (simp add: demo_key_def)

lemma referenced_keys_demo:
  "referenced_keys [demo_ix] (Some (demo_key 4)) =
     {demo_key 4, demo_key 0, demo_key 2, demo_key 1, demo_key 3}"
  by (auto simp: referenced_keys_def demo_ix_def account_meta_new_def account_meta_new_credit_only_def)

theorem message_new_with_payer_sound_witness:
  "\<exists>m. message_new_with_payer itertools_ref [demo_ix] (Some (demo_key 4)) = (Ok m :: (unit, message) res) \<and>
     set (account_keys m) = {demo_key 4, demo_key 0, demo_key 2, demo_key 1, demo_key 3} \<and>
     verify_refs (new_unsigned m)"
  using message_new_with_payer_sound [OF itertools_ref_ok, of "[demo_ix]" "Some (demo_key 4)",
      where 'e = unit]
  by (auto simp: referenced_keys_demo)

text \<open>
  The header of a compiled message tells signers and lock types truly. Key \<open>i\<close> is among the
  first \<open>num_required_signatures\<close> exactly when it is the payer or some instruction wants its
  signature; it is credit-debit exactly when it is the payer or some instruction wants to
  debit it with the signer flag the key ended up with. (A key that one instruction signs
  credit-only and another debits unsigned is locked credit-only.)
\<close>

theorem message_lock_types:
  assumes "itertools_ok it" "card (referenced_keys ixs payer) \<le> 255"
    "message_new_with_payer it ixs payer = Ok m" "i < length (account_keys m)"
  shows "(i < unat (num_required_signatures (header m)) \<longleftrightarrow>
           wants_signature ixs payer (account_keys m ! i)) \<and>
         (is_credit_debit m i \<longleftrightarrow>
           wants_debit ixs payer (wants_signature ixs payer (account_keys m ! i)) (account_keys m ! i))"
proof -
  let ?m = "message_metas it ixs payer ! i"
  note m_eq = message_new_with_payer_Ok [OF assms(1,3)]
  have mem: "?m \<in> set (message_metas it ixs payer)" and k: "account_keys m ! i = meta_pubkey ?m"
    using assms(4) by (simp_all add: m_eq)
  note r = message_lock_ranks [OF assms]
  show ?thesis
    using message_metas_signer [OF assms(1) mem] message_metas_debit [OF assms(1) mem] r k by simp
qed

text \<open>In the concrete message, key 1 signs and is credit-debit, and key 4 is credit-only.\<close>

definition demo_message :: message where
  "demo_message = message_new_with_compiled_instructions 2 0 2
     [demo_key 4, demo_key 1, demo_key 2, demo_key 3, demo_key 0] default_hash
     [\<lparr>program_ids_index = 4, ci_accounts = [2, 1, 3], ci_data = [7]\<rparr>]"

lemma demo_message_eq:
  "message_new_with_payer itertools_ref [demo_ix] (Some (demo_key 4)) = (Ok demo_message :: (unit, message) res)"
  by (simp add: message_new_with_payer_def get_keys_def keys_and_signed_def get_program_ids_def
      itertools_ref_def demo_ix_def account_meta_new_def account_meta_new_credit_only_def Let_def
      demo_message_def compile_instructions_def compile_instruction_def message_position_def
      meta_rank_def unwrap_def message_new_with_compiled_instructions_def)

theorem message_lock_types_witness:
  "(1 < unat (num_required_signatures (header demo_message)) \<longleftrightarrow>
      wants_signature [demo_ix] (Some (demo_key 4)) (demo_key 1)) \<and>
   wants_signature [demo_ix] (Some (demo_key 4)) (demo_key 1)"
  using message_lock_types [OF itertools_ref_ok _ demo_message_eq, of 1]
  by (simp add: referenced_keys_demo demo_message_def message_new_with_compiled_instructions_def
      wants_signature_def demo_ix_def account_meta_new_def account_meta_new_credit_only_def)

end
