(* ===== verification/System_Program.thy ===== *)
theory System_Program
  imports Message_Model
begin

text \<open>
  The system program: the instruction type and the instruction builders of
  \<^verbatim>\<open>src/interface/src/system_instruction.rs\<close> and the processor
  \<^verbatim>\<open>src/runtime/src/system_instruction_processor.rs\<close>. The contract that the message processor
  wants of every native program, \<open>native_program\<close>, is stated here and the system
  processor is its first instance.
\<close>

section \<open>Instructions\<close>

datatype system_error =
    AccountAlreadyInUse
  | ResultWithNegativeDifs
  | SourceNotSystemAccount
  | ResultWithNegativeReputations

fun system_error_code :: "system_error \<Rightarrow> u32" where
  "system_error_code AccountAlreadyInUse = 0"
| "system_error_code ResultWithNegativeDifs = 1"
| "system_error_code SourceNotSystemAccount = 2"
| "system_error_code ResultWithNegativeReputations = 3"

definition new_result_with_negative_difs :: instruction_error where
  "new_result_with_negative_difs = CustomError (system_error_code ResultWithNegativeDifs)"

datatype system_instruction =
    CreateAccount u64 u64 u64 pubkey
  | Assign pubkey
  | Transfer u64
  | CreateAccountWithReputation u64 u64 pubkey
  | TransferReputations u64

definition system_create_account ::
  "system_instruction codec \<Rightarrow> pubkey \<Rightarrow> pubkey \<Rightarrow> u64 \<Rightarrow> u64 \<Rightarrow> pubkey \<Rightarrow> ('e, instruction) res" where
  "system_create_account c from to d space program_id =
     instruction_new c system_program_id (CreateAccount d 0 space program_id)
       [account_meta_new from True, account_meta_new to False]"

definition system_create_account_with_reputation ::
  "system_instruction codec \<Rightarrow> pubkey \<Rightarrow> pubkey \<Rightarrow> u64 \<Rightarrow> u64 \<Rightarrow> pubkey \<Rightarrow> ('e, instruction) res" where
  "system_create_account_with_reputation c from to r space program_id =
     instruction_new c system_program_id (CreateAccountWithReputation r space program_id)
       [account_meta_new from True, account_meta_new to False]"

definition create_user_account ::
  "system_instruction codec \<Rightarrow> pubkey \<Rightarrow> pubkey \<Rightarrow> u64 \<Rightarrow> ('e, instruction) res" where
  "create_user_account c from to d = system_create_account c from to d 0 system_program_id"

definition create_user_account_with_reputation ::
  "system_instruction codec \<Rightarrow> pubkey \<Rightarrow> pubkey \<Rightarrow> u64 \<Rightarrow> ('e, instruction) res" where
  "create_user_account_with_reputation c from to r =
     system_create_account_with_reputation c from to r 0 system_program_id"

definition system_assign ::
  "system_instruction codec \<Rightarrow> pubkey \<Rightarrow> pubkey \<Rightarrow> ('e, instruction) res" where
  "system_assign c from program_id =
     instruction_new c system_program_id (Assign program_id) [account_meta_new from True]"

definition system_transfer ::
  "system_instruction codec \<Rightarrow> pubkey \<Rightarrow> pubkey \<Rightarrow> u64 \<Rightarrow> ('e, instruction) res" where
  "system_transfer c from to d =
     instruction_new c system_program_id (Transfer d)
       [account_meta_new from True, account_meta_new to False]"

definition system_transfer_reputations ::
  "system_instruction codec \<Rightarrow> pubkey \<Rightarrow> pubkey \<Rightarrow> u64 \<Rightarrow> ('e, instruction) res" where
  "system_transfer_reputations c from to r =
     instruction_new c system_program_id (TransferReputations r)
       [account_meta_new from True, account_meta_new to False]"

definition transfer_many ::
  "system_instruction codec \<Rightarrow> pubkey \<Rightarrow> (pubkey \<times> u64) list \<Rightarrow> ('e, instruction list) res" where
  "transfer_many c from to_difs = res_map (\<lambda>(to, d). system_transfer c from to d) to_difs"

section \<open>The processor\<close>

definition add_reputations :: "u64 \<Rightarrow> account \<Rightarrow> account" where
  "add_reputations r a = a\<lparr>reputations := reputations a + r\<rparr>"

definition sub_reputations :: "u64 \<Rightarrow> account \<Rightarrow> account" where
  "sub_reputations r a = a\<lparr>reputations := reputations a - r\<rparr>"

text \<open>\<open>vec![0; n]\<close> panics when the capacity exceeds \<open>isize::MAX\<close>.\<close>

definition zeroed :: "u64 \<Rightarrow> ('e, bytes) res" where
  "zeroed space = (if unat space < 2 ^ 63 then Ok (replicate (unat space) 0) else Panic)"

definition create_system_account ::
  "keyed_account list \<Rightarrow> u64 \<Rightarrow> u64 \<Rightarrow> u64 \<Rightarrow> pubkey \<Rightarrow> (system_error, keyed_account list) res" where
  "create_system_account kas d r space program_id =
     res_bind (idx kas 0) (\<lambda>from.
       if \<not> system_check_id (owner (account from)) then Err SourceNotSystemAccount else
     res_bind (idx kas 1) (\<lambda>to.
       if data (account to) \<noteq> [] \<or> \<not> system_check_id (owner (account to))
       then Err AccountAlreadyInUse
       else if d > difs (account from) then Err ResultWithNegativeDifs else
     res_bind (modify_account 0 (sub_difs d) kas) (\<lambda>kas.
     res_bind (modify_account 1 (add_difs d) kas) (\<lambda>kas.
     res_bind (modify_account 1 (add_reputations r) kas) (\<lambda>kas.
     res_bind (modify_account 1 (\<lambda>a. a\<lparr>owner := program_id\<rparr>) kas) (\<lambda>kas.
     res_bind (zeroed space) (\<lambda>zs.
     res_bind (modify_account 1 (\<lambda>a. a\<lparr>data := zs\<rparr>) kas) (\<lambda>kas.
       modify_account 1 (\<lambda>a. a\<lparr>executable := False\<rparr>) kas))))))))"

definition create_system_account_with_reputation ::
  "keyed_account list \<Rightarrow> u64 \<Rightarrow> u64 \<Rightarrow> pubkey \<Rightarrow> (system_error, keyed_account list) res" where
  "create_system_account_with_reputation kas r space program_id =
     res_bind (idx kas 0) (\<lambda>from.
       if \<not> system_check_id (owner (account from)) then Err SourceNotSystemAccount else
     res_bind (idx kas 1) (\<lambda>to.
       if data (account to) \<noteq> [] \<or> \<not> system_check_id (owner (account to))
       then Err AccountAlreadyInUse
       else if 1 > difs (account from) then Err ResultWithNegativeDifs else
     res_bind (modify_account 0 (sub_difs 1) kas) (\<lambda>kas.
     res_bind (modify_account 1 (add_difs 1) kas) (\<lambda>kas.
     res_bind (modify_account 1 (add_reputations r) kas) (\<lambda>kas.
     res_bind (modify_account 1 (\<lambda>a. a\<lparr>owner := program_id\<rparr>) kas) (\<lambda>kas.
     res_bind (zeroed space) (\<lambda>zs.
     res_bind (modify_account 1 (\<lambda>a. a\<lparr>data := zs\<rparr>) kas) (\<lambda>kas.
       modify_account 1 (\<lambda>a. a\<lparr>executable := False\<rparr>) kas))))))))"

definition assign_account_to_program ::
  "keyed_account list \<Rightarrow> pubkey \<Rightarrow> (system_error, keyed_account list) res" where
  "assign_account_to_program kas program_id = modify_account 0 (\<lambda>a. a\<lparr>owner := program_id\<rparr>) kas"

definition transfer_difs :: "keyed_account list \<Rightarrow> u64 \<Rightarrow> (system_error, keyed_account list) res" where
  "transfer_difs kas d =
     res_bind (idx kas 0) (\<lambda>from.
       if d > difs (account from) then Err ResultWithNegativeDifs else
     res_bind (modify_account 0 (sub_difs d) kas) (modify_account 1 (add_difs d)))"

definition transfer_reputations ::
  "keyed_account list \<Rightarrow> u64 \<Rightarrow> (system_error, keyed_account list) res" where
  "transfer_reputations kas r =
     res_bind (idx kas 0) (\<lambda>from.
       if r > reputations (account from) then Err ResultWithNegativeReputations else
     res_bind (modify_account 0 (sub_reputations r) kas) (modify_account 1 (add_reputations r)))"

fun system_dispatch ::
  "system_instruction \<Rightarrow> keyed_account list \<Rightarrow> keyed_account list ix_result" where
  "system_dispatch (CreateAccount d r space program_id) kas =
     map_err (\<lambda>e. CustomError (system_error_code e)) (create_system_account kas d r space program_id)"
| "system_dispatch (CreateAccountWithReputation r space program_id) kas =
     map_err (\<lambda>e. CustomError (system_error_code e))
       (create_system_account_with_reputation kas r space program_id)"
| "system_dispatch (Assign program_id) kas =
     res_bind (idx kas 0) (\<lambda>from.
       if \<not> system_check_id (owner (account from)) then Err IncorrectProgramId
       else map_err (\<lambda>e. CustomError (system_error_code e)) (assign_account_to_program kas program_id))"
| "system_dispatch (Transfer d) kas =
     map_err (\<lambda>e. CustomError (system_error_code e)) (transfer_difs kas d)"
| "system_dispatch (TransferReputations r) kas =
     map_err (\<lambda>e. CustomError (system_error_code e)) (transfer_reputations kas r)"

definition system_process_instruction :: "system_instruction codec \<Rightarrow> process_instruction" where
  "system_process_instruction c program_id kas ix tick_height =
     (case deserialize c ix of
        None \<Rightarrow> Err InvalidInstructionData
      | Some instruction \<Rightarrow>
          res_bind (idx kas 0) (\<lambda>from.
            if signer_key from = None then Err MissingRequiredSignature
            else system_dispatch instruction kas))"

section \<open>The contract of a native program\<close>

text \<open>
  What the message processor relies on: a program works in place on the slice it is given, so
  it can change neither its length nor the keys and signer flags; and an honest program moves
  difs between the accounts without changing their total.
\<close>

definition same_keys :: "keyed_account list \<Rightarrow> keyed_account list \<Rightarrow> bool" where
  "same_keys kas kas' \<longleftrightarrow> map key kas' = map key kas \<and> map is_signer kas' = map is_signer kas"

locale slice_program =
  fixes process :: process_instruction
  assumes process_keys: "process pid kas ix tick = Ok kas' \<Longrightarrow> same_keys kas kas'"
begin

lemma process_length: "process pid kas ix tick = Ok kas' \<Longrightarrow> length kas' = length kas"
  using process_keys [of pid kas ix tick kas'] by (metis length_map same_keys_def)

end

locale native_program = slice_program +
  assumes process_balanced: "process pid kas ix tick = Ok kas' \<Longrightarrow> total_difs kas' = total_difs kas"

section \<open>Lemmas\<close>

lemma add_reputations_sel [simp]:
  "difs (add_reputations r a) = difs a" "reputations (add_reputations r a) = reputations a + r"
  "data (add_reputations r a) = data a" "owner (add_reputations r a) = owner a"
  "executable (add_reputations r a) = executable a"
  by (simp_all add: add_reputations_def)

lemma sub_reputations_sel [simp]:
  "difs (sub_reputations r a) = difs a" "reputations (sub_reputations r a) = reputations a - r"
  "data (sub_reputations r a) = data a" "owner (sub_reputations r a) = owner a"
  "executable (sub_reputations r a) = executable a"
  by (simp_all add: sub_reputations_def)

lemma same_keys_refl [simp]: "same_keys kas kas"
  by (simp add: same_keys_def)

lemma same_keys_trans: "same_keys a b \<Longrightarrow> same_keys b c \<Longrightarrow> same_keys a c"
  by (simp add: same_keys_def)

lemma same_keys_length: "same_keys a b \<Longrightarrow> length b = length a"
  by (metis length_map same_keys_def)

lemma same_keys_update:
  "i < length kas \<Longrightarrow> key ka = key (kas ! i) \<Longrightarrow> is_signer ka = is_signer (kas ! i) \<Longrightarrow>
     same_keys kas (kas[i := ka])"
  by (simp add: same_keys_def map_list_update_same)

lemma same_keys_update_account [simp]:
  "i < length kas \<Longrightarrow> same_keys kas (kas[i := (kas ! i)\<lparr>account := a\<rparr>])"
  by (rule same_keys_update) simp_all

lemma total_difs_update:
  "i < length kas \<Longrightarrow>
     total_difs (kas[i := ka]) = total_difs kas - difs (account (kas ! i)) + difs (account ka)"
  by (rule sum_list_list_update)

text \<open>The outcome of each operation that succeeds, on the two accounts it works on.\<close>

lemma zeroed_Ok_iff [simp]: "zeroed n = Ok zs \<longleftrightarrow> unat n < 2 ^ 63 \<and> zs = replicate (unat n) 0"
  by (auto simp: zeroed_def)

lemma create_system_account_Ok_iff:
  "create_system_account kas d r space pid = Ok kas' \<longleftrightarrow>
     (\<exists>f t rest. kas = f # t # rest \<and> system_check_id (owner (account f)) \<and>
        data (account t) = [] \<and> system_check_id (owner (account t)) \<and>
        d \<le> difs (account f) \<and> unat space < 2 ^ 63 \<and>
        kas' = f\<lparr>account := sub_difs d (account f)\<rparr> #
               t\<lparr>account := \<lparr>difs = difs (account t) + d, reputations = reputations (account t) + r,
                  data = replicate (unat space) 0, owner = pid, executable = False\<rparr>\<rparr> # rest)"
  by (cases kas rule: remdups_adj.cases)
    (auto simp: create_system_account_def add_difs_def add_reputations_def not_less)

lemma create_system_account_with_reputation_eq:
  "create_system_account_with_reputation kas r space pid = create_system_account kas 1 r space pid"
  by (simp add: create_system_account_with_reputation_def create_system_account_def)

lemma transfer_difs_Ok_iff:
  "transfer_difs kas d = Ok kas' \<longleftrightarrow>
     (\<exists>f t rest. kas = f # t # rest \<and> d \<le> difs (account f) \<and>
        kas' = f\<lparr>account := sub_difs d (account f)\<rparr> # t\<lparr>account := add_difs d (account t)\<rparr> # rest)"
  by (cases kas rule: remdups_adj.cases) (auto simp: transfer_difs_def not_less)

lemma transfer_reputations_Ok_iff:
  "transfer_reputations kas r = Ok kas' \<longleftrightarrow>
     (\<exists>f t rest. kas = f # t # rest \<and> r \<le> reputations (account f) \<and>
        kas' = f\<lparr>account := sub_reputations r (account f)\<rparr> #
               t\<lparr>account := add_reputations r (account t)\<rparr> # rest)"
  by (cases kas rule: remdups_adj.cases) (auto simp: transfer_reputations_def not_less)

lemma assign_account_to_program_Ok_iff:
  "assign_account_to_program kas pid = Ok kas' \<longleftrightarrow>
     (\<exists>f rest. kas = f # rest \<and> kas' = f\<lparr>account := (account f)\<lparr>owner := pid\<rparr>\<rparr> # rest)"
  by (cases kas) (auto simp: assign_account_to_program_def)

lemmas system_op_Ok_iff =
  create_system_account_Ok_iff create_system_account_with_reputation_eq transfer_difs_Ok_iff
  transfer_reputations_Ok_iff assign_account_to_program_Ok_iff

lemma system_process_Ok:
  "system_process_instruction c pid kas ix tick = Ok kas' \<Longrightarrow>
     \<exists>i. deserialize c ix = Some i \<and> kas \<noteq> [] \<and> is_signer (hd kas) \<and> system_dispatch i kas = Ok kas'"
  by (cases kas) (auto simp: system_process_instruction_def split: option.splits if_splits)

lemma system_dispatch_same_keys: "system_dispatch i kas = Ok kas' \<Longrightarrow> same_keys kas kas'"
  by (cases i) (auto simp: system_op_Ok_iff same_keys_def split: if_splits)

lemma system_dispatch_balanced:
  "system_dispatch i kas = Ok kas' \<Longrightarrow> total_difs kas' = total_difs kas"
  by (cases i) (auto simp: system_op_Ok_iff split: if_splits)

interpretation system: native_program "system_process_instruction c"
  by unfold_locales
    (auto dest!: system_process_Ok intro: system_dispatch_same_keys system_dispatch_balanced)

section \<open>Properties\<close>

text \<open>
  C18: what a system instruction that succeeds may do. The first account signed; accounts from
  the third on are untouched; some amount that the first account could afford moved from it
  to the second one; and an account whose owner or data changed belonged to the system program.
\<close>

theorem system_process_safe:
  assumes "system_process_instruction c pid kas ix tick = Ok kas'"
  shows "is_signer (kas ! 0) \<and> length kas' = length kas \<and> drop 2 kas' = drop 2 kas \<and>
    (\<exists>d \<le> difs (account (kas ! 0)).
       difs (account (kas' ! 0)) = difs (account (kas ! 0)) - d \<and>
       (1 < length kas \<longrightarrow> difs (account (kas' ! 1)) = difs (account (kas ! 1)) + d)) \<and>
    (\<forall>i < length kas.
       owner (account (kas' ! i)) \<noteq> owner (account (kas ! i)) \<or>
       data (account (kas' ! i)) \<noteq> data (account (kas ! i)) \<longrightarrow>
       owner (account (kas ! i)) = system_program_id)"
proof -
  from system_process_Ok [OF assms] obtain i
    where i: "kas \<noteq> []" "is_signer (hd kas)" "system_dispatch i kas = Ok kas'" by blast
  have "\<exists>d \<le> difs (account (kas ! 0)).
       difs (account (kas' ! 0)) = difs (account (kas ! 0)) - d \<and>
       (1 < length kas \<longrightarrow> difs (account (kas' ! 1)) = difs (account (kas ! 1)) + d)"
    using i(3) by (cases i) (auto simp: system_op_Ok_iff split: if_splits intro: exI [of _ 0])
  moreover have "\<forall>j < length kas.
       owner (account (kas' ! j)) \<noteq> owner (account (kas ! j)) \<or>
       data (account (kas' ! j)) \<noteq> data (account (kas ! j)) \<longrightarrow>
       owner (account (kas ! j)) = system_program_id"
    using i(3) by (cases i)
      (auto simp: system_op_Ok_iff system_check_id_def nth_Cons split: if_splits nat.splits)
  moreover have "drop 2 kas' = drop 2 kas"
    using i(3) by (cases i) (auto simp: system_op_Ok_iff split: if_splits)
  ultimately show ?thesis
    using i same_keys_length [OF system_dispatch_same_keys [OF i(3)]] by (simp add: hd_conv_nth)
qed

definition demo_keyed :: "bool \<Rightarrow> u8 \<Rightarrow> u64 \<Rightarrow> keyed_account" where
  "demo_keyed s b d = keyed_account_new (demo_key b) s (account_new d 0 0 system_program_id)"

lemma table_codec_deserialize [simp]:
  "deserialize (table_codec tbl) (w # b) = (if unat w < length tbl then Some (tbl ! unat w) else None)"
  by (simp add: table_codec_def)

lemma demo_transfer:
  "system_process_instruction (table_codec [Transfer 3]) system_program_id
     [demo_keyed True 1 10, demo_keyed False 2 5] [0] 0 =
   Ok [demo_keyed True 1 7, demo_keyed False 2 8]"
  by (simp add: system_process_instruction_def transfer_difs_def demo_keyed_def
      keyed_account_new_def account_new_def add_difs_def sub_difs_def signer_key_def)

theorem system_process_safe_witness:
  "is_signer (demo_keyed True 1 10) \<and>
   (\<exists>d \<le> difs (account (demo_keyed True 1 10)).
      difs (account (demo_keyed True 1 7)) = difs (account (demo_keyed True 1 10)) - d)"
  using system_process_safe [OF demo_transfer] by auto

text \<open>
  A transfer from a signed account, in full: it succeeds exactly when the first account holds
  the amount, it debits the first account and credits the second, and it fails with the
  \<open>ResultWithNegativeDifs\<close> code otherwise. Without the signature it always fails.
\<close>

theorem system_transfer_spec:
  assumes "deserialize c ix = Some (Transfer d)"
  shows "system_process_instruction c pid (f # t # rest) ix tick =
    (if \<not> is_signer f then Err MissingRequiredSignature
     else if difs (account f) < d then Err new_result_with_negative_difs
     else Ok (f\<lparr>account := (account f)\<lparr>difs := difs (account f) - d\<rparr>\<rparr> #
              t\<lparr>account := (account t)\<lparr>difs := difs (account t) + d\<rparr>\<rparr> # rest))"
  by (simp add: assms system_process_instruction_def transfer_difs_def
      new_result_with_negative_difs_def add_difs_def sub_difs_def)

theorem system_transfer_spec_witness:
  "system_process_instruction (table_codec [Transfer 30]) system_program_id
     [demo_keyed True 1 10, demo_keyed False 2 5] [0] 0 = Err new_result_with_negative_difs"
  using system_transfer_spec [of "table_codec [Transfer 30]" "[0]" 30 system_program_id
      "demo_keyed True 1 10" "demo_keyed False 2 5" "[]" 0]
  by (simp add: demo_keyed_def keyed_account_new_def account_new_def)

end
