(* ===== verification/Message_Processor.thy ===== *)
theory Message_Processor
  imports System_Program
begin

text \<open>
  The execution of a message: \<^verbatim>\<open>src/runtime/src/message_processor.rs\<close> and the dynamic loader
  \<^verbatim>\<open>src/runtime/src/native_loader.rs\<close>. The state is the loaded accounts, the executable
  accounts and the symbol cache; a failing instruction ends the message, and then only the
  symbol cache of the state survives (the caller stores accounts of successful messages only).
  Opening a shared library is the parameter \<open>open_library\<close>: no library, a library without
  the entry point, or its entry point.
\<close>

section \<open>The native loader\<close>

datatype loader_instruction = Write u32 bytes | Finalize

definition loader_write ::
  "loader_instruction codec \<Rightarrow> pubkey \<Rightarrow> pubkey \<Rightarrow> u32 \<Rightarrow> bytes \<Rightarrow> ('e, instruction) res" where
  "loader_write c account_pubkey program_id offset bs =
     instruction_new c program_id (Write offset bs) [account_meta_new account_pubkey True]"

definition loader_finalize ::
  "loader_instruction codec \<Rightarrow> pubkey \<Rightarrow> pubkey \<Rightarrow> ('e, instruction) res" where
  "loader_finalize c account_pubkey program_id =
     instruction_new c program_id Finalize [account_meta_new account_pubkey True]"

text \<open>\<open>str::from_utf8\<close>: well-formed UTF-8, no overlong forms, no surrogates.\<close>

definition utf8_cont :: "u8 \<Rightarrow> bool" where
  "utf8_cont b \<longleftrightarrow> 0x80 \<le> b \<and> b \<le> 0xBF"

fun utf8_valid :: "bytes \<Rightarrow> bool" where
  "utf8_valid [] = True"
| "utf8_valid (a # bs) =
     (if a < 0x80 then utf8_valid bs
      else case bs of
        [] \<Rightarrow> False
      | b # bs \<Rightarrow>
        if 0xC2 \<le> a \<and> a \<le> 0xDF then utf8_cont b \<and> utf8_valid bs
        else case bs of
          [] \<Rightarrow> False
        | c # bs \<Rightarrow>
          if 0xE0 \<le> a \<and> a \<le> 0xEF then
            (if a = 0xE0 then 0xA0 \<le> b \<and> b \<le> 0xBF
             else if a = 0xED then 0x80 \<le> b \<and> b \<le> 0x9F
             else utf8_cont b) \<and> utf8_cont c \<and> utf8_valid bs
          else case bs of
            [] \<Rightarrow> False
          | d # bs \<Rightarrow>
            0xF0 \<le> a \<and> a \<le> 0xF4 \<and>
            (if a = 0xF0 then 0x90 \<le> b \<and> b \<le> 0xBF
             else if a = 0xF4 then 0x80 \<le> b \<and> b \<le> 0x8F
             else utf8_cont b) \<and> utf8_cont c \<and> utf8_cont d \<and> utf8_valid bs)"

type_synonym library = "bytes \<Rightarrow> process_instruction option option"
type_synonym symbol_cache = "bytes \<rightharpoonup> process_instruction"

definition with_names ::
  "keyed_account list \<Rightarrow> keyed_account list ix_result \<Rightarrow> keyed_account list ix_result" where
  "with_names names r = res_bind r (\<lambda>params. Ok (names @ params))"

definition native_loader_entrypoint ::
  "library \<Rightarrow> loader_instruction codec \<Rightarrow> pubkey \<Rightarrow> keyed_account list \<Rightarrow> bytes \<Rightarrow> u64 \<Rightarrow>
     symbol_cache \<Rightarrow> keyed_account list ix_result \<times> symbol_cache" where
  "native_loader_entrypoint open_library c program_id kas ix tick_height cache =
     (case kas of
        [] \<Rightarrow> (Panic, cache)
      | ka # params \<Rightarrow>
          if executable (account ka) then
            (let name_vec = data (account ka) in
             case cache name_vec of
               Some entrypoint \<Rightarrow> (with_names [ka] (entrypoint program_id params ix tick_height), cache)
             | None \<Rightarrow>
                 if \<not> utf8_valid name_vec then (Err GenericError, cache)
                 else case open_library name_vec of
                   None \<Rightarrow> (Err GenericError, cache)
                 | Some None \<Rightarrow> (Err GenericError, cache)
                 | Some (Some entrypoint) \<Rightarrow>
                     (case entrypoint program_id params ix tick_height of
                        Panic \<Rightarrow> (Panic, cache)
                      | ret \<Rightarrow> (with_names [ka] ret, cache(name_vec \<mapsto> entrypoint))))
          else case deserialize c ix of
            None \<Rightarrow> (Err GenericError, cache)
          | Some instruction \<Rightarrow>
              if signer_key ka = None then (Err GenericError, cache)
              else case instruction of
                Write offset bs \<Rightarrow>
                  if length (data (account ka)) < unat offset + length bs then (Err GenericError, cache)
                  else (Ok (ka\<lparr>account := (account ka)\<lparr>data := bs\<rparr>\<rparr> # params), cache)
              | Finalize \<Rightarrow>
                  (Ok (ka\<lparr>account := (account ka)\<lparr>executable := True\<rparr>\<rparr> # params), cache))"

section \<open>The message processor\<close>

definition has_duplicates :: "'a list \<Rightarrow> bool" where
  "has_duplicates xs \<longleftrightarrow> list_ex (\<lambda>i. xs ! (i - 1) \<in> set (drop i xs)) [1..<length xs]"

definition get_subset_unchecked_mut :: "'a list \<Rightarrow> u8 list \<Rightarrow> 'a list ix_result" where
  "get_subset_unchecked_mut xs indexes =
     (if has_duplicates indexes then Err DuplicateAccountIndex
      else res_map (\<lambda>i. idx xs (unat i)) indexes)"

text \<open>The subset is of mutable references: what is written through them lands in the slice.\<close>

fun put_subset :: "'a list \<Rightarrow> u8 list \<Rightarrow> 'a list \<Rightarrow> 'a list" where
  "put_subset xs (i # is) (y # ys) = put_subset (xs[unat i := y]) is ys"
| "put_subset xs _ _ = xs"

definition verify_instruction ::
  "pubkey \<Rightarrow> pubkey \<Rightarrow> u64 \<Rightarrow> bytes \<Rightarrow> account \<Rightarrow> unit ix_result" where
  "verify_instruction program_id pre_program_id pre_difs pre_data post =
     (if pre_program_id \<noteq> owner post \<and> \<not> system_check_id program_id then Err ModifiedProgramId
      else if program_id \<noteq> owner post \<and> pre_difs > difs post then Err ExternalAccountDifSpend
      else if program_id \<noteq> owner post \<and> \<not> system_check_id program_id \<and> pre_data \<noteq> data post
      then Err ExternalAccountDataModified
      else Ok ())"

record message_processor =
  instruction_processors :: "(pubkey \<times> process_instruction) list"

definition default_message_processor :: "system_instruction codec \<Rightarrow> message_processor" where
  "default_message_processor c =
     \<lparr>instruction_processors = [(system_program_id, system_process_instruction c)]\<rparr>"

definition add_instruction_processor ::
  "pubkey \<Rightarrow> process_instruction \<Rightarrow> message_processor \<Rightarrow> message_processor" where
  "add_instruction_processor program_id p mp =
     mp\<lparr>instruction_processors := instruction_processors mp @ [(program_id, p)]\<rparr>"

record runtime_env =
  env_library :: library
  env_loader_codec :: "loader_instruction codec"
  env_processor :: message_processor

text \<open>The keyed accounts of an instruction: the executable accounts, then its own.\<close>

definition instruction_keyed_accounts ::
  "message \<Rightarrow> compiled_instruction \<Rightarrow> (pubkey \<times> account) list \<Rightarrow> account list \<Rightarrow>
     keyed_account list ix_result" where
  "instruction_keyed_accounts m ci executable_accounts program_accounts =
     res_bind (res_map (\<lambda>i. res_bind (idx (account_keys m) (unat i)) (\<lambda>k.
                 Ok (k, unat i < unat (num_required_signatures (header m))))) (ci_accounts ci))
       (\<lambda>ks. Ok (create_keyed_accounts executable_accounts @
                 map (\<lambda>((k, s), a). keyed_account_new k s a) (zip ks program_accounts)))"

definition split_keyed_accounts ::
  "(pubkey \<times> account) list \<Rightarrow> keyed_account list \<Rightarrow> (pubkey \<times> account) list \<times> account list" where
  "split_keyed_accounts executable_accounts kas =
     (let n = length executable_accounts
      in (zip (map fst executable_accounts) (map account (take n kas)), map account (drop n kas)))"

definition mp_process_instruction ::
  "runtime_env \<Rightarrow> message \<Rightarrow> compiled_instruction \<Rightarrow> (pubkey \<times> account) list \<Rightarrow> account list \<Rightarrow> u64 \<Rightarrow>
     symbol_cache \<Rightarrow> ((pubkey \<times> account) list \<times> account list) ix_result \<times> symbol_cache" where
  "mp_process_instruction env m ci executable_accounts program_accounts tick_height cache =
     (case ci_program_id ci (account_keys m) of
        Err e \<Rightarrow> (Err e, cache) | Panic \<Rightarrow> (Panic, cache)
      | Ok program_id \<Rightarrow>
     (case instruction_keyed_accounts m ci executable_accounts program_accounts of
        Err e \<Rightarrow> (Err e, cache) | Panic \<Rightarrow> (Panic, cache)
      | Ok kas \<Rightarrow>
          (let (r, cache') =
             (case map_of (instruction_processors (env_processor env)) program_id of
                Some process \<Rightarrow>
                  (if kas = [] then Panic
                   else with_names [hd kas] (process program_id (tl kas) (ci_data ci) tick_height), cache)
              | None \<Rightarrow> native_loader_entrypoint (env_library env) (env_loader_codec env)
                          program_id kas (ci_data ci) tick_height cache)
           in (res_bind r (\<lambda>kas'. Ok (split_keyed_accounts executable_accounts kas')), cache'))))"

fun verify_accounts :: "pubkey \<Rightarrow> account list \<Rightarrow> account list \<Rightarrow> unit ix_result" where
  "verify_accounts program_id (pre # pres) (post # posts) =
     res_bind (verify_instruction program_id (owner pre) (difs pre) (data pre) post)
       (\<lambda>_. verify_accounts program_id pres posts)"
| "verify_accounts program_id _ _ = Ok ()"

abbreviation sum_difs :: "account list \<Rightarrow> u64" where
  "sum_difs as \<equiv> sum_list (map difs as)"

definition check_instruction ::
  "pubkey \<Rightarrow> account list \<Rightarrow> account list \<Rightarrow> unit ix_result" where
  "check_instruction program_id pres posts =
     res_bind (verify_accounts program_id pres posts) (\<lambda>_.
       if sum_difs pres \<noteq> sum_difs posts then Err UnbalancedInstruction else Ok ())"

definition execute_instruction ::
  "runtime_env \<Rightarrow> message \<Rightarrow> compiled_instruction \<Rightarrow> (pubkey \<times> account) list \<Rightarrow> account list \<Rightarrow> u64 \<Rightarrow>
     symbol_cache \<Rightarrow> ((pubkey \<times> account) list \<times> account list) ix_result \<times> symbol_cache" where
  "execute_instruction env m ci executable_accounts program_accounts tick_height cache =
     (case ci_program_id ci (account_keys m) of
        Err e \<Rightarrow> (Err e, cache) | Panic \<Rightarrow> (Panic, cache)
      | Ok program_id \<Rightarrow>
          (let (r, cache') =
             mp_process_instruction env m ci executable_accounts program_accounts tick_height cache
           in (res_bind r (\<lambda>(execs, posts).
                 res_bind (check_instruction program_id program_accounts posts) (\<lambda>_.
                   Ok (execs, posts))), cache')))"

type_synonym loaders = "(pubkey \<times> account) list list"

text \<open>One turn of the loop of \<open>process_message\<close>: the instruction with its index.\<close>

definition process_message_step ::
  "runtime_env \<Rightarrow> message \<Rightarrow> u64 \<Rightarrow> nat \<Rightarrow> compiled_instruction \<Rightarrow> loaders \<Rightarrow> account list \<Rightarrow>
     symbol_cache \<Rightarrow> (transaction_error, loaders \<times> account list) res \<times> symbol_cache" where
  "process_message_step env m tick_height n ci ls accounts cache =
     (case res_bind (program_position m (unat (program_ids_index ci))) (ok_or InvalidAccountIndex) of
        Err e \<Rightarrow> (Err e, cache) | Panic \<Rightarrow> (Panic, cache)
      | Ok executable_index \<Rightarrow>
     (case res_bind (idx ls executable_index) (\<lambda>execs.
             map_err (InstructionError (of_nat n))
               (res_bind (get_subset_unchecked_mut accounts (ci_accounts ci)) (\<lambda>program_accounts.
                  Ok (execs, program_accounts)))) of
        Err e \<Rightarrow> (Err e, cache) | Panic \<Rightarrow> (Panic, cache)
      | Ok (execs, program_accounts) \<Rightarrow>
          (let (r, cache') = execute_instruction env m ci execs program_accounts tick_height cache
           in (res_bind (map_err (InstructionError (of_nat n)) r) (\<lambda>(execs', posts).
                 Ok (ls[executable_index := execs'], put_subset accounts (ci_accounts ci) posts)),
               cache'))))"

fun process_message_loop ::
  "runtime_env \<Rightarrow> message \<Rightarrow> u64 \<Rightarrow> nat \<Rightarrow> compiled_instruction list \<Rightarrow> loaders \<Rightarrow> account list \<Rightarrow>
     symbol_cache \<Rightarrow> (transaction_error, loaders \<times> account list) res \<times> symbol_cache" where
  "process_message_loop env m tick_height n [] ls accounts cache = (Ok (ls, accounts), cache)"
| "process_message_loop env m tick_height n (ci # cis) ls accounts cache =
     (case process_message_step env m tick_height n ci ls accounts cache of
        (Ok (ls', accounts'), cache') \<Rightarrow>
          process_message_loop env m tick_height (Suc n) cis ls' accounts' cache'
      | (Err e, cache') \<Rightarrow> (Err e, cache')
      | (Panic, cache') \<Rightarrow> (Panic, cache'))"

definition process_message ::
  "runtime_env \<Rightarrow> message \<Rightarrow> loaders \<Rightarrow> account list \<Rightarrow> u64 \<Rightarrow> symbol_cache \<Rightarrow>
     (transaction_error, loaders \<times> account list) res \<times> symbol_cache" where
  "process_message env m ls accounts tick_height cache =
     process_message_loop env m tick_height 0 (instructions m) ls accounts cache"

section \<open>Duplicates and subsets\<close>

lemma distinct_iff_drop: "distinct xs \<longleftrightarrow> (\<forall>i < length xs. xs ! i \<notin> set (drop (Suc i) xs))"
  by (induction xs) (auto simp: less_Suc_eq_0_disj)

lemma has_duplicates_iff: "has_duplicates xs \<longleftrightarrow> \<not> distinct xs"
proof -
  have "has_duplicates xs \<longleftrightarrow> (\<exists>i. Suc i < length xs \<and> xs ! i \<in> set (drop (Suc i) xs))"
  proof
    assume "has_duplicates xs"
    then obtain i where "1 \<le> i" "i < length xs" "xs ! (i - 1) \<in> set (drop i xs)"
      by (auto simp: has_duplicates_def list_ex_iff)
    then show "\<exists>i. Suc i < length xs \<and> xs ! i \<in> set (drop (Suc i) xs)"
      by (intro exI [of _ "i - 1"]) simp
  qed (force simp: has_duplicates_def list_ex_iff)
  also have "\<dots> \<longleftrightarrow> \<not> distinct xs"
  proof -
    have "Suc i < length xs" if "xs ! i \<in> set (drop (Suc i) xs)" for i
      using that by (rule_tac ccontr) simp
    then show ?thesis by (auto simp: distinct_iff_drop dest: Suc_lessD)
  qed
  finally show ?thesis .
qed

lemma get_subset_Ok:
  "get_subset_unchecked_mut xs is = Ok ys \<Longrightarrow>
     distinct is \<and> (\<forall>i \<in> set is. unat i < length xs) \<and> ys = map (\<lambda>i. xs ! unat i) is"
  by (auto simp: get_subset_unchecked_mut_def has_duplicates_iff res_map_Ok_iff
      list_all2_conv_all_nth in_set_conv_nth intro!: nth_equalityI split: if_splits)

lemma put_subset_length [simp]: "length (put_subset xs is ys) = length xs"
  by (induction xs "is" ys rule: put_subset.induct) simp_all

lemma put_subset_other: "j \<notin> unat ` set is \<Longrightarrow> put_subset xs is ys ! j = xs ! j"
  by (induction xs "is" ys rule: put_subset.induct) auto

lemma put_subset_nth:
  "distinct is \<Longrightarrow> \<forall>i \<in> set is. unat i < length xs \<Longrightarrow> length ys = length is \<Longrightarrow> k < length is \<Longrightarrow>
     put_subset xs is ys ! unat (is ! k) = ys ! k"
proof (induction xs "is" ys arbitrary: k rule: put_subset.induct)
  case (1 xs i "is" y ys)
  show ?case
  proof (cases k)
    case 0
    have "unat i \<notin> unat ` set is" using 1 by auto
    then show ?thesis using 0 1 by (simp add: put_subset_other)
  qed (use 1 in simp)
qed simp_all

lemma put_subset_sum:
  "distinct is \<Longrightarrow> \<forall>i \<in> set is. unat i < length xs \<Longrightarrow> length ys = length is \<Longrightarrow>
     sum_difs (put_subset xs is ys) =
     sum_difs xs - sum_difs (map (\<lambda>i. xs ! unat i) is) + sum_difs ys"
proof (induction xs "is" ys rule: put_subset.induct)
  case (1 xs i "is" y ys)
  have "(\<Sum>j\<leftarrow>is. difs (xs[unat i := y] ! unat j)) = (\<Sum>j\<leftarrow>is. difs (xs ! unat j))"
    using 1 by (intro arg_cong [where f = sum_list]) (auto simp: nth_list_update)
  then show ?case
    using 1 by (simp add: sum_list_list_update o_def)
qed simp_all

section \<open>What a program may rely on\<close>

definition env_ok :: "runtime_env \<Rightarrow> bool" where
  "env_ok env \<longleftrightarrow>
     (\<forall>(k, p) \<in> set (instruction_processors (env_processor env)). slice_program p) \<and>
     (\<forall>name p. env_library env name = Some (Some p) \<longrightarrow> slice_program p)"

definition cache_ok :: "runtime_env \<Rightarrow> symbol_cache \<Rightarrow> bool" where
  "cache_ok env cache \<longleftrightarrow>
     (\<forall>name p. cache name = Some p \<longrightarrow> utf8_valid name \<and> env_library env name = Some (Some p))"

lemma cache_ok_empty [simp]: "cache_ok env Map.empty"
  by (simp add: cache_ok_def)

lemma with_names_Ok_iff [simp]:
  "with_names names r = Ok kas \<longleftrightarrow> (\<exists>params. r = Ok params \<and> kas = names @ params)"
  by (auto simp: with_names_def)

lemma native_loader_same_keys:
  assumes "env_ok env" "cache_ok env cache"
    "native_loader_entrypoint (env_library env) c pid kas ix tick cache = (Ok kas', cache')"
  shows "same_keys kas kas'"
proof -
  have slice: "slice_program p" if "cache name = Some p \<or> env_library env name = Some (Some p)" for name p
    using that assms(1,2) unfolding env_ok_def cache_ok_def by metis
  show ?thesis
    using assms(3)
    by (auto simp: native_loader_entrypoint_def same_keys_def Let_def
        split: list.splits if_splits option.splits res.splits loader_instruction.splits
        dest!: slice_program.process_keys [OF slice, rotated])
qed

lemma native_loader_cache_ok:
  assumes "cache_ok env cache"
    "native_loader_entrypoint (env_library env) c pid kas ix tick cache = (r, cache')"
  shows "cache_ok env cache'"
  using assms
  by (auto simp: native_loader_entrypoint_def cache_ok_def Let_def
      split: list.splits if_splits option.splits res.splits loader_instruction.splits)

text \<open>A correct cache does not change the outcome of a call.\<close>

lemma native_loader_cache_transparent:
  assumes "cache_ok env cache"
  shows "fst (native_loader_entrypoint (env_library env) c pid kas ix tick cache) =
         fst (native_loader_entrypoint (env_library env) c pid kas ix tick Map.empty)"
  using assms
  by (auto simp: native_loader_entrypoint_def cache_ok_def Let_def with_names_def
      split: list.splits if_splits option.splits res.splits loader_instruction.splits)

section \<open>One instruction\<close>

lemma instruction_keyed_accounts_Ok:
  assumes "instruction_keyed_accounts m ci execs prog = Ok kas" "length prog = length (ci_accounts ci)"
  shows "length kas = length execs + length prog \<and> map account (drop (length execs) kas) = prog"
  using assms
  by (auto simp: instruction_keyed_accounts_def create_keyed_accounts_def keyed_account_new_def
      res_map_Ok_iff list_all2_lengthD split_def o_def dest!: list_all2_lengthD)

lemma mp_process_Ok_length:
  assumes "env_ok env" "cache_ok env cache" "length prog = length (ci_accounts ci)"
    "mp_process_instruction env m ci execs prog tick cache = (Ok (execs', posts), cache')"
  shows "length posts = length prog"
proof -
  from assms(4) obtain pid kas where
    pid: "ci_program_id ci (account_keys m) = (Ok pid :: pubkey ix_result)"
    and kas: "instruction_keyed_accounts m ci execs prog = Ok kas"
    by (auto simp: mp_process_instruction_def split: res.splits)
  obtain kas' where posts: "posts = map account (drop (length execs) kas')" and "same_keys kas kas'"
  proof (cases "map_of (instruction_processors (env_processor env)) pid")
    case None
    with assms(4) pid kas obtain kas' where
      "native_loader_entrypoint (env_library env) (env_loader_codec env) pid kas (ci_data ci) tick
         cache = (Ok kas', cache')" "posts = map account (drop (length execs) kas')"
      by (auto simp: mp_process_instruction_def split_keyed_accounts_def Let_def split: prod.splits)
    with native_loader_same_keys [OF assms(1,2)] that show ?thesis by blast
  next
    case (Some p)
    with assms(4) pid kas obtain ps where
      p: "kas \<noteq> []" "p pid (tl kas) (ci_data ci) tick = Ok ps"
      "posts = map account (drop (length execs) (hd kas # ps))"
      by (auto simp: mp_process_instruction_def split_keyed_accounts_def Let_def split: if_splits)
    have "slice_program p" using map_of_SomeD [OF Some] assms(1) by (auto simp: env_ok_def)
    with p(1,2) have "same_keys kas (hd kas # ps)"
      by (cases kas) (auto simp: same_keys_def dest: slice_program.process_keys)
    with p(3) that show ?thesis by blast
  qed
  with instruction_keyed_accounts_Ok [OF kas assms(3)] show ?thesis
    by (simp add: posts same_keys_length)
qed

lemma mp_process_cache_ok:
  assumes "cache_ok env cache" "mp_process_instruction env m ci execs prog tick cache = (r, cache')"
  shows "cache_ok env cache'"
  using assms
  by (auto simp: mp_process_instruction_def Let_def split: res.splits option.splits prod.splits
      dest: native_loader_cache_ok)

lemma mp_process_cache_transparent:
  assumes "cache_ok env cache"
  shows "fst (mp_process_instruction env m ci execs prog tick cache) =
         fst (mp_process_instruction env m ci execs prog tick Map.empty)"
  using native_loader_cache_transparent [OF assms]
  by (auto simp: mp_process_instruction_def split_def Let_def split: res.splits option.splits)

lemma execute_instruction_cache_ok:
  assumes "cache_ok env cache" "execute_instruction env m ci execs prog tick cache = (r, cache')"
  shows "cache_ok env cache'"
  using assms
  by (auto simp: execute_instruction_def split: res.splits prod.splits dest: mp_process_cache_ok)

lemma execute_instruction_cache_transparent:
  assumes "cache_ok env cache"
  shows "fst (execute_instruction env m ci execs prog tick cache) =
         fst (execute_instruction env m ci execs prog tick Map.empty)"
  using mp_process_cache_transparent [OF assms]
  by (auto simp: execute_instruction_def split_def Let_def split: res.splits)

lemma execute_instruction_Ok:
  assumes "execute_instruction env m ci execs prog tick cache = (Ok (execs', posts), cache')"
  shows "\<exists>pid. ci_program_id ci (account_keys m) = (Ok pid :: pubkey ix_result) \<and>
           mp_process_instruction env m ci execs prog tick cache = (Ok (execs', posts), cache') \<and>
           check_instruction pid prog posts = Ok ()"
  using assms by (auto simp: execute_instruction_def split: res.splits prod.splits)

text \<open>The checks made after an instruction, as what they establish.\<close>

definition instruction_allowed :: "pubkey \<Rightarrow> account \<Rightarrow> account \<Rightarrow> bool" where
  "instruction_allowed pid pre post \<longleftrightarrow>
     (owner post \<noteq> owner pre \<longrightarrow> pid = system_program_id) \<and>
     (difs post < difs pre \<longrightarrow> pid = owner post) \<and>
     (data post \<noteq> data pre \<longrightarrow> pid = owner post \<or> pid = system_program_id)"

lemma verify_instruction_Ok_iff:
  "verify_instruction pid (owner pre) (difs pre) (data pre) post = Ok () \<longleftrightarrow>
     instruction_allowed pid pre post"
  by (auto simp: verify_instruction_def instruction_allowed_def system_check_id_def)

lemma verify_accounts_Ok:
  "verify_accounts pid pres posts = Ok () \<Longrightarrow> length posts = length pres \<Longrightarrow>
     list_all2 (instruction_allowed pid) pres posts"
  by (induction pid pres posts rule: verify_accounts.induct) (auto simp: verify_instruction_Ok_iff)

lemma check_instruction_Ok:
  "check_instruction pid pres posts = Ok () \<Longrightarrow> length posts = length pres \<Longrightarrow>
     sum_difs posts = sum_difs pres \<and> list_all2 (instruction_allowed pid) pres posts"
  by (auto simp: check_instruction_def dest: verify_accounts_Ok split: if_splits)

section \<open>One turn of the loop\<close>

lemma process_message_step_Ok:
  assumes "env_ok env" "cache_ok env cache"
    "process_message_step env m tick n ci ls accounts cache = (Ok (ls', accounts'), cache')"
  shows "\<exists>pid posts.
     ci_program_id ci (account_keys m) = (Ok pid :: pubkey ix_result) \<and>
     distinct (ci_accounts ci) \<and> (\<forall>i \<in> set (ci_accounts ci). unat i < length accounts) \<and>
     length posts = length (ci_accounts ci) \<and>
     sum_difs posts = sum_difs (map (\<lambda>i. accounts ! unat i) (ci_accounts ci)) \<and>
     list_all2 (instruction_allowed pid) (map (\<lambda>i. accounts ! unat i) (ci_accounts ci)) posts \<and>
     accounts' = put_subset accounts (ci_accounts ci) posts"
proof -
  from assms(3) obtain execs prog execs' posts where
    sub: "get_subset_unchecked_mut accounts (ci_accounts ci) = Ok prog"
    and ex: "execute_instruction env m ci execs prog tick cache = (Ok (execs', posts), cache')"
    and a': "accounts' = put_subset accounts (ci_accounts ci) posts"
    by (auto simp: process_message_step_def split: res.splits prod.splits)
  note sub = get_subset_Ok [OF sub]
  from execute_instruction_Ok [OF ex] obtain pid where
    pid: "ci_program_id ci (account_keys m) = (Ok pid :: pubkey ix_result)"
    and mp: "mp_process_instruction env m ci execs prog tick cache = (Ok (execs', posts), cache')"
    and ck: "check_instruction pid prog posts = Ok ()" by blast
  have len: "length posts = length prog"
    using mp_process_Ok_length [OF assms(1,2) _ mp] sub by simp
  show ?thesis
    using pid sub len check_instruction_Ok [OF ck len] a' by auto
qed

lemma process_message_step_cache_ok:
  assumes "cache_ok env cache"
    "process_message_step env m tick n ci ls accounts cache = (r, cache')"
  shows "cache_ok env cache'"
  using assms
  by (auto simp: process_message_step_def split: res.splits prod.splits
      dest: execute_instruction_cache_ok)

lemma process_message_step_cache_transparent:
  assumes "cache_ok env cache"
  shows "fst (process_message_step env m tick n ci ls accounts cache) =
         fst (process_message_step env m tick n ci ls accounts Map.empty)"
  using execute_instruction_cache_transparent [OF assms]
  by (auto simp: process_message_step_def split_def Let_def split: res.splits)

section \<open>The whole message\<close>

lemma process_message_loop_invariant:
  assumes "process_message_loop env m tick n cis ls accounts cache = (Ok (ls', accounts'), cache')"
    "env_ok env" "cache_ok env cache" "P accounts"
    and step: "\<And>ci pid accounts posts.
       ci \<in> set cis \<Longrightarrow> P accounts \<Longrightarrow>
       ci_program_id ci (account_keys m) = (Ok pid :: pubkey ix_result) \<Longrightarrow>
       distinct (ci_accounts ci) \<Longrightarrow> \<forall>i \<in> set (ci_accounts ci). unat i < length accounts \<Longrightarrow>
       length posts = length (ci_accounts ci) \<Longrightarrow>
       sum_difs posts = sum_difs (map (\<lambda>i. accounts ! unat i) (ci_accounts ci)) \<Longrightarrow>
       list_all2 (instruction_allowed pid) (map (\<lambda>i. accounts ! unat i) (ci_accounts ci)) posts \<Longrightarrow>
       P (put_subset accounts (ci_accounts ci) posts)"
  shows "P accounts'"
  using assms(1-4) step
proof (induction cis arbitrary: n ls accounts cache)
  case (Cons ci cis)
  from Cons.prems(1) obtain ls1 accounts1 cache1 where
    s: "process_message_step env m tick n ci ls accounts cache = (Ok (ls1, accounts1), cache1)"
    and l: "process_message_loop env m tick (Suc n) cis ls1 accounts1 cache1 =
              (Ok (ls', accounts'), cache')"
    by (auto split: prod.splits res.splits)
  have "P accounts1"
    using process_message_step_Ok [OF Cons.prems(2,3) s] Cons.prems(4,5) by auto
  with l show ?case
    using Cons.prems(2,5) process_message_step_cache_ok [OF Cons.prems(3) s]
    by (intro Cons.IH [of "Suc n" ls1 accounts1 cache1]) auto
qed simp

definition invokes :: "message \<Rightarrow> pubkey \<Rightarrow> bool" where
  "invokes m p \<longleftrightarrow>
     list_ex (\<lambda>ci. nth_opt (account_keys m) (unat (program_ids_index ci)) = Some p) (instructions m)"

text \<open>What holds of an account whose owner and the system program are not invoked.\<close>

definition untouched :: "account \<Rightarrow> account \<Rightarrow> bool" where
  "untouched pre post \<longleftrightarrow> owner post = owner pre \<and> data post = data pre \<and> difs pre \<le> difs post"

lemma untouched_allowed:
  "untouched a pre \<Longrightarrow> instruction_allowed pid pre post \<Longrightarrow> pid \<noteq> system_program_id \<Longrightarrow>
     pid \<noteq> owner a \<Longrightarrow> untouched a post"
  by (auto simp: untouched_def instruction_allowed_def not_less intro: order.trans)

lemma put_subset_untouched:
  assumes "untouched a (accounts ! j)" "distinct is" "\<forall>i \<in> set is. unat i < length accounts"
    "length posts = length is"
    "list_all2 (instruction_allowed pid) (map (\<lambda>i. accounts ! unat i) is) posts"
    "pid \<noteq> system_program_id" "pid \<noteq> owner a"
  shows "untouched a (put_subset accounts is posts ! j)"
proof (cases "j \<in> unat ` set is")
  case True
  then obtain k where k: "k < length is" "j = unat (is ! k)"
    by (auto simp: in_set_conv_nth)
  with assms(4,5) have "instruction_allowed pid (accounts ! j) (posts ! k)"
    by (auto simp: list_all2_conv_all_nth)
  with assms(1,6,7) have "untouched a (posts ! k)" by (blast intro: untouched_allowed)
  then show ?thesis using assms(2-4) k by (simp add: put_subset_nth)
qed (use assms(1) in \<open>simp add: put_subset_other\<close>)

lemma process_message_sums:
  assumes "env_ok env" "cache_ok env cache"
    "process_message env m ls accounts tick cache = (Ok (ls', accounts'), cache')"
  shows "sum_difs accounts' = sum_difs accounts" "length accounts' = length accounts"
proof -
  let ?P = "\<lambda>as. sum_difs as = sum_difs accounts \<and> length as = length accounts"
  have "?P accounts'"
    by (rule process_message_loop_invariant
        [OF assms(3) [unfolded process_message_def] assms(1,2), where P = ?P])
      (simp_all add: put_subset_sum)
  then show "sum_difs accounts' = sum_difs accounts" "length accounts' = length accounts" by simp_all
qed

lemma process_message_loop_cache_ok:
  assumes "cache_ok env cache" "process_message_loop env m tick n cis ls accounts cache = (r, cache')"
  shows "cache_ok env cache'"
  using assms
proof (induction cis arbitrary: n ls accounts cache)
  case (Cons ci cis)
  obtain r1 cache1 where s: "process_message_step env m tick n ci ls accounts cache = (r1, cache1)" by fastforce
  have "cache_ok env cache1" by (rule process_message_step_cache_ok [OF Cons.prems(1) s])
  then show ?case using Cons.prems(2) s by (auto split: res.splits dest: Cons.IH)
qed simp

lemma process_message_cache_ok:
  "cache_ok env cache \<Longrightarrow> process_message env m ls accounts tick cache = (r, cache') \<Longrightarrow> cache_ok env cache'"
  unfolding process_message_def by (rule process_message_loop_cache_ok)

section \<open>Properties\<close>

text \<open>
  C3: a message conserves difs. If \<open>process_message\<close> succeeds, then whatever the programs it
  ran did, the total of the difs over all loaded accounts is what it was (modulo the
  64-bit width of the amounts), and no account was added or dropped.
\<close>

theorem process_message_conserves:
  assumes "env_ok env" "cache_ok env cache"
    "process_message env m ls accounts tick cache = (Ok (ls', accounts'), cache')"
  shows "sum_difs accounts' = sum_difs accounts \<and> length accounts' = length accounts"
  using process_message_sums [OF assms] by simp

text \<open>
  C4: an account is safe from programs that do not own it. If a message that succeeds invokes
  neither the owner of an account nor the system program, then the account has kept its
  owner and its data, and its difs have not decreased.
\<close>

theorem process_message_external_safe:
  assumes "env_ok env" "cache_ok env cache"
    "process_message env m ls accounts tick cache = (Ok (ls', accounts'), cache')"
    "\<not> invokes m (owner (accounts ! j))" "\<not> invokes m system_program_id"
  shows "owner (accounts' ! j) = owner (accounts ! j) \<and> data (accounts' ! j) = data (accounts ! j) \<and>
         difs (accounts ! j) \<le> difs (accounts' ! j)"
proof -
  have "untouched (accounts ! j) (accounts' ! j)"
  proof (rule process_message_loop_invariant
      [OF assms(3) [unfolded process_message_def] assms(1,2), where P = "\<lambda>as. untouched (accounts ! j) (as ! j)"])
    fix ci pid as posts
    assume "ci \<in> set (instructions m)" "ci_program_id ci (account_keys m) = (Ok pid :: pubkey ix_result)"
    then have "invokes m pid" by (auto simp: invokes_def list_ex_iff ci_program_id_def)
    then have "pid \<noteq> system_program_id" "pid \<noteq> owner (accounts ! j)" using assms(4,5) by auto
    moreover assume "untouched (accounts ! j) (as ! j)" "distinct (ci_accounts ci)"
      "\<forall>i \<in> set (ci_accounts ci). unat i < length as" "length posts = length (ci_accounts ci)"
      "list_all2 (instruction_allowed pid) (map (\<lambda>i. as ! unat i) (ci_accounts ci)) posts"
    ultimately show "untouched (accounts ! j) (put_subset as (ci_accounts ci) posts ! j)"
      by (blast intro: put_subset_untouched)
  qed (simp add: untouched_def)
  then show ?thesis by (simp add: untouched_def)
qed

text \<open>A concrete message: key 1 transfers 3 difs to key 2 through the system program.\<close>

definition demo_env :: runtime_env where
  "demo_env = \<lparr>env_library = (\<lambda>_. None), env_loader_codec = table_codec [],
     env_processor = default_message_processor (table_codec [Transfer 3])\<rparr>"

definition demo_transfer_message :: message where
  "demo_transfer_message = message_new_with_compiled_instructions 1 0 1
     [demo_key 1, demo_key 2, system_program_id] default_hash
     [\<lparr>program_ids_index = 2, ci_accounts = [0, 1], ci_data = [0]\<rparr>]"

definition demo_loaders :: loaders where
  "demo_loaders = [[(system_program_id, create_loadable_account [115])]]"

definition demo_balance :: "u64 \<Rightarrow> account" where
  "demo_balance d = account_new d 0 0 system_program_id"

lemma slice_program_system: "slice_program (system_process_instruction c)"
  using system.slice_program_axioms .

lemma demo_env_ok: "env_ok demo_env"
  by (simp add: env_ok_def demo_env_def default_message_processor_def slice_program_system)

lemmas message_processor_defs =
  process_message_def process_message_step_def program_position_def program_ids_def
  get_subset_unchecked_mut_def has_duplicates_def execute_instruction_def ci_program_id_def
  mp_process_instruction_def instruction_keyed_accounts_def split_keyed_accounts_def
  check_instruction_def verify_instruction_def create_keyed_accounts_def keyed_account_from_def
  keyed_account_new_def with_names_def message_new_with_compiled_instructions_def

lemma demo_transfer_message_Ok:
  "process_message demo_env demo_transfer_message demo_loaders [demo_balance 10, demo_balance 5] 0
     Map.empty = (Ok (demo_loaders, [demo_balance 7, demo_balance 8]), Map.empty)"
  by (simp add: message_processor_defs demo_env_def default_message_processor_def
      demo_transfer_message_def demo_loaders_def demo_balance_def system_process_instruction_def
      transfer_difs_def account_new_def add_difs_def sub_difs_def signer_key_def
      upt_rec [of _ "Suc (Suc 0)"])

theorem process_message_conserves_witness:
  "sum_difs [demo_balance 7, demo_balance 8] = sum_difs [demo_balance 10, demo_balance 5]"
  using process_message_conserves [OF demo_env_ok cache_ok_empty demo_transfer_message_Ok] by simp

text \<open>A message that invokes a library program, with an account of another program.\<close>

definition demo_library_env :: runtime_env where
  "demo_library_env =
     demo_env\<lparr>env_library := (\<lambda>name. if name = [98] then Some (Some (\<lambda>pid kas ix tick. Ok kas)) else None)\<rparr>"

definition demo_library_message :: message where
  "demo_library_message = message_new_with_compiled_instructions 1 0 1
     [demo_key 1, demo_key 9] default_hash
     [\<lparr>program_ids_index = 1, ci_accounts = [0], ci_data = [0]\<rparr>]"

definition demo_library_loaders :: loaders where
  "demo_library_loaders = [[(demo_key 9, create_loadable_account [98])]]"

lemma demo_library_env_ok: "env_ok demo_library_env"
  using demo_env_ok
  by (auto simp: env_ok_def demo_library_env_def slice_program_def split: if_splits)

lemma system_program_id_demo: "system_program_id = demo_key 0"
  by (simp add: system_program_id_default default_pubkey_def demo_key_def)

lemma demo_library_message_Ok:
  "process_message demo_library_env demo_library_message demo_library_loaders [demo_balance 10] 0
     Map.empty =
   (Ok (demo_library_loaders, [demo_balance 10]), Map.empty([98] \<mapsto> (\<lambda>pid kas ix tick. Ok kas)))"
  by (simp add: message_processor_defs demo_env_def default_message_processor_def
      demo_library_env_def demo_library_message_def demo_library_loaders_def demo_balance_def
      native_loader_entrypoint_def create_loadable_account_def system_program_id_demo Let_def)

theorem process_message_external_safe_witness:
  "owner (demo_balance 10) = system_program_id \<and> \<not> invokes demo_library_message system_program_id \<and>
   difs ([demo_balance 10] ! 0) \<le> difs ([demo_balance 10] ! 0)"
proof -
  have "owner (demo_balance 10) = system_program_id \<and> \<not> invokes demo_library_message system_program_id"
    by (simp add: invokes_def demo_library_message_def demo_balance_def account_new_def
        message_new_with_compiled_instructions_def system_program_id_demo)
  then show ?thesis
    using process_message_external_safe [OF demo_library_env_ok cache_ok_empty
        demo_library_message_Ok, of 0] by simp
qed

lemma process_message_loop_transparent:
  "cache_ok env cache1 \<Longrightarrow> cache_ok env cache2 \<Longrightarrow>
   fst (process_message_loop env m tick n cis ls accounts cache1) =
   fst (process_message_loop env m tick n cis ls accounts cache2) \<and>
   cache_ok env (snd (process_message_loop env m tick n cis ls accounts cache1))"
proof (induction cis arbitrary: n ls accounts cache1 cache2)
  case (Cons ci cis)
  have eq: "fst (process_message_step env m tick n ci ls accounts cache1) =
            fst (process_message_step env m tick n ci ls accounts cache2)"
    using Cons.prems [THEN process_message_step_cache_transparent] by simp
  obtain r c1 where s1: "process_message_step env m tick n ci ls accounts cache1 = (r, c1)"
    by (rule prod.exhaust)
  with eq obtain c2 where s2: "process_message_step env m tick n ci ls accounts cache2 = (r, c2)"
    by (cases "process_message_step env m tick n ci ls accounts cache2") simp
  note s = s1 s2
  have "cache_ok env c1" "cache_ok env c2"
    using process_message_step_cache_ok [OF Cons.prems(1) s1]
      process_message_step_cache_ok [OF Cons.prems(2) s2] .
  with Cons.IH [of c1 c2] show ?case by (simp add: s split: res.split prod.split)
qed simp

text \<open>
  C17: the symbol cache is invisible. With a cache whose entries agree with the libraries, a
  message has the outcome it has with an empty cache, and the cache it leaves agrees with the
  libraries again.
\<close>

theorem process_message_cache_transparent:
  assumes "cache_ok env cache"
  shows "fst (process_message env m ls accounts tick cache) =
         fst (process_message env m ls accounts tick Map.empty) \<and>
         cache_ok env (snd (process_message env m ls accounts tick cache))"
  using process_message_loop_transparent [OF assms cache_ok_empty]
  by (simp add: process_message_def)

theorem process_message_cache_transparent_witness:
  "fst (process_message demo_library_env demo_library_message demo_library_loaders [demo_balance 10] 0
     (Map.empty([98] \<mapsto> (\<lambda>pid kas ix tick. Ok kas)))) =
   Ok (demo_library_loaders, [demo_balance 10])"
proof -
  have "cache_ok demo_library_env (Map.empty([98] \<mapsto> (\<lambda>pid kas ix tick. Ok kas)))"
    by (simp add: cache_ok_def demo_library_env_def)
  from process_message_cache_transparent [OF this] show ?thesis
    by (simp add: demo_library_message_Ok)
qed

text \<open>
  The quadratic search for duplicates is right: it reports exactly the lists that have two
  equal elements.
\<close>

theorem has_duplicates_correct:
  "has_duplicates xs \<longleftrightarrow> (\<exists>i j. i < j \<and> j < length xs \<and> xs ! i = xs ! j)"
proof
  assume "has_duplicates xs"
  then obtain i j where ij: "i < length xs" "j < length xs" "i \<noteq> j" "xs ! i = xs ! j"
    unfolding has_duplicates_iff distinct_conv_nth by blast
  then show "\<exists>i j. i < j \<and> j < length xs \<and> xs ! i = xs ! j"
    by (cases i j rule: linorder_cases) (blast, simp, metis)
next
  assume "\<exists>i j. i < j \<and> j < length xs \<and> xs ! i = xs ! j"
  then obtain i j where ij: "i < j" "j < length xs" "xs ! i = xs ! j" by blast
  then have "i < length xs" "i \<noteq> j" by simp_all
  with ij show "has_duplicates xs"
    unfolding has_duplicates_iff distinct_conv_nth by blast
qed

end
