(* ===== verification/Budget_Program.thy ===== *)
theory Budget_Program
  imports Message_Processor
begin

text \<open>
  The budget program, \<^verbatim>\<open>src/controllers/budget_api/src\<close>: the payment-plan language and its
  reduction by witnesses (\<^verbatim>\<open>budget_expr.rs\<close>), the stored state (\<^verbatim>\<open>budget_state.rs\<close>), the instruction
  builders (\<^verbatim>\<open>budget_instruction.rs\<close>) and the processor (\<^verbatim>\<open>budget_processor.rs\<close>). A \<open>DateTime<Utc>\<close> of
  the chrono crate is only compared, so it is an integer instant.
\<close>

section \<open>Payment plans\<close>

definition budget_program_id :: pubkey where
  "budget_program_id = Pubkey
     [2, 203, 81, 223, 225, 24, 34, 35, 203, 214, 138, 130, 144, 208, 35, 77, 63, 16, 87, 51, 47,
      198, 115, 123, 98, 188, 19, 160, 0, 0, 0, 0]"

type_synonym date_time = int

datatype witness = WTimestamp date_time | WSignature

record payment =
  pay_difs :: u64
  pay_to :: pubkey

datatype condition = CTimestamp date_time pubkey | CSignature pubkey

fun is_satisfied :: "condition \<Rightarrow> witness \<Rightarrow> pubkey \<Rightarrow> bool" where
  "is_satisfied (CSignature k) WSignature from \<longleftrightarrow> k = from"
| "is_satisfied (CTimestamp dt k) (WTimestamp last_time) from \<longleftrightarrow> k = from \<and> dt \<le> last_time"
| "is_satisfied _ _ _ \<longleftrightarrow> False"

datatype budget_expr =
    Pay payment
  | After condition budget_expr
  | Or "condition \<times> budget_expr" "condition \<times> budget_expr"
  | And condition condition budget_expr

definition new_payment :: "u64 \<Rightarrow> pubkey \<Rightarrow> budget_expr" where
  "new_payment d to = Pay \<lparr>pay_difs = d, pay_to = to\<rparr>"

definition new_authorized_payment :: "pubkey \<Rightarrow> u64 \<Rightarrow> pubkey \<Rightarrow> budget_expr" where
  "new_authorized_payment from d to = After (CSignature from) (new_payment d to)"

definition new_cancelable_authorized_payment ::
  "pubkey \<Rightarrow> u64 \<Rightarrow> pubkey \<Rightarrow> pubkey option \<Rightarrow> budget_expr" where
  "new_cancelable_authorized_payment w d to from =
     (case from of
        None \<Rightarrow> new_authorized_payment w d to
      | Some from \<Rightarrow> Or (CSignature w, new_payment d to) (CSignature from, new_payment d from))"

definition new_2_2_multisig_payment :: "pubkey \<Rightarrow> pubkey \<Rightarrow> u64 \<Rightarrow> pubkey \<Rightarrow> budget_expr" where
  "new_2_2_multisig_payment from0 from1 d to =
     And (CSignature from0) (CSignature from1) (new_payment d to)"

definition new_future_payment :: "date_time \<Rightarrow> pubkey \<Rightarrow> u64 \<Rightarrow> pubkey \<Rightarrow> budget_expr" where
  "new_future_payment dt dt_pubkey d to = After (CTimestamp dt dt_pubkey) (new_payment d to)"

definition new_cancelable_future_payment ::
  "date_time \<Rightarrow> pubkey \<Rightarrow> u64 \<Rightarrow> pubkey \<Rightarrow> pubkey option \<Rightarrow> budget_expr" where
  "new_cancelable_future_payment dt dt_pubkey d to from =
     (case from of
        None \<Rightarrow> new_future_payment dt dt_pubkey d to
      | Some from \<Rightarrow> Or (CTimestamp dt dt_pubkey, new_payment d to) (CSignature from, new_payment d from))"

fun final_payment :: "budget_expr \<Rightarrow> payment option" where
  "final_payment (Pay p) = Some p"
| "final_payment _ = None"

fun budget_verify :: "budget_expr \<Rightarrow> u64 \<Rightarrow> bool" where
  "budget_verify (Pay p) d \<longleftrightarrow> pay_difs p = d"
| "budget_verify (After _ e) d \<longleftrightarrow> budget_verify e d"
| "budget_verify (And _ _ e) d \<longleftrightarrow> budget_verify e d"
| "budget_verify (Or (_, a) (_, b)) d \<longleftrightarrow> budget_verify a d \<and> budget_verify b d"

fun apply_witness :: "witness \<Rightarrow> pubkey \<Rightarrow> budget_expr \<Rightarrow> budget_expr" where
  "apply_witness w from (After c e) = (if is_satisfied c w from then e else After c e)"
| "apply_witness w from (Or (c0, e0) (c1, e1)) =
     (if is_satisfied c0 w from then e0
      else if is_satisfied c1 w from then e1
      else Or (c0, e0) (c1, e1))"
| "apply_witness w from (And c0 c1 e) =
     (if is_satisfied c0 w from then After c1 e
      else if is_satisfied c1 w from then After c0 e
      else And c0 c1 e)"
| "apply_witness w from (Pay p) = Pay p"

section \<open>State\<close>

datatype budget_error = DestinationMissing

fun budget_error_code :: "budget_error \<Rightarrow> u32" where
  "budget_error_code DestinationMissing = 0"

record budget_state =
  initialized :: bool
  pending_budget :: "budget_expr option"

definition default_budget_state :: budget_state where
  "default_budget_state = \<lparr>initialized = False, pending_budget = None\<rparr>"

definition budget_state_new :: "budget_expr \<Rightarrow> budget_state" where
  "budget_state_new e = \<lparr>initialized = True, pending_budget = Some e\<rparr>"

definition is_pending :: "budget_state \<Rightarrow> bool" where
  "is_pending st \<longleftrightarrow> pending_budget st \<noteq> None"

definition budget_serialize :: "budget_state codec \<Rightarrow> budget_state \<Rightarrow> bytes \<Rightarrow> bytes ix_result" where
  "budget_serialize c st b = (case serialize_into c st b of Inr d \<Rightarrow> Ok d | Inl _ \<Rightarrow> Err AccountDataTooSmall)"

definition budget_deserialize :: "budget_state codec \<Rightarrow> bytes \<Rightarrow> budget_state ix_result" where
  "budget_deserialize c b = ok_or InvalidAccountData (deserialize c b)"

section \<open>Instructions\<close>

datatype budget_instruction =
    BudgetInitializeAccount budget_expr
  | ApplyTimestamp date_time
  | ApplySignature

definition budget_initialize_account_ix ::
  "budget_instruction codec \<Rightarrow> pubkey \<Rightarrow> budget_expr \<Rightarrow> ('e, instruction) res" where
  "budget_initialize_account_ix c contract e =
     instruction_new c budget_program_id (BudgetInitializeAccount e)
       ((case e of Pay p \<Rightarrow> [account_meta_new (pay_to p) False] | _ \<Rightarrow> []) @
        [account_meta_new contract False])"

definition budget_create_account ::
  "budget_state codec \<Rightarrow> system_instruction codec \<Rightarrow> budget_instruction codec \<Rightarrow> pubkey \<Rightarrow> pubkey \<Rightarrow>
     u64 \<Rightarrow> budget_expr \<Rightarrow> ('e, instruction list) res" where
  "budget_create_account bc sc c from contract d e =
     (if \<not> budget_verify e d then Panic
      else res_bind (size_of_value bc (budget_state_new e)) (\<lambda>space.
           res_bind (system_create_account sc from contract d (of_nat space) budget_program_id) (\<lambda>a.
           res_bind (budget_initialize_account_ix c contract e) (\<lambda>b. Ok [a, b]))))"

text \<open>\<open>payment\<close> draws the contract's key at random: it is an argument here.\<close>

definition budget_payment ::
  "budget_state codec \<Rightarrow> system_instruction codec \<Rightarrow> budget_instruction codec \<Rightarrow> pubkey \<Rightarrow> pubkey \<Rightarrow>
     pubkey \<Rightarrow> u64 \<Rightarrow> ('e, instruction list) res" where
  "budget_payment bc sc c contract from to d = budget_create_account bc sc c from contract d (new_payment d to)"

definition on_date ::
  "budget_state codec \<Rightarrow> system_instruction codec \<Rightarrow> budget_instruction codec \<Rightarrow> pubkey \<Rightarrow> pubkey \<Rightarrow>
     pubkey \<Rightarrow> date_time \<Rightarrow> pubkey \<Rightarrow> pubkey option \<Rightarrow> u64 \<Rightarrow> ('e, instruction list) res" where
  "on_date bc sc c from to contract dt dt_pubkey cancelable d =
     budget_create_account bc sc c from contract d
       (new_cancelable_future_payment dt dt_pubkey d to cancelable)"

definition when_signed ::
  "budget_state codec \<Rightarrow> system_instruction codec \<Rightarrow> budget_instruction codec \<Rightarrow> pubkey \<Rightarrow> pubkey \<Rightarrow>
     pubkey \<Rightarrow> pubkey \<Rightarrow> pubkey option \<Rightarrow> u64 \<Rightarrow> ('e, instruction list) res" where
  "when_signed bc sc c from to contract w cancelable d =
     budget_create_account bc sc c from contract d
       (new_cancelable_authorized_payment w d to cancelable)"

definition apply_metas :: "pubkey \<Rightarrow> pubkey \<Rightarrow> pubkey \<Rightarrow> account_meta list" where
  "apply_metas from contract to =
     [account_meta_new from True, account_meta_new contract False] @
     (if from \<noteq> to then [account_meta_new to False] else [])"

definition apply_timestamp_ix ::
  "budget_instruction codec \<Rightarrow> pubkey \<Rightarrow> pubkey \<Rightarrow> pubkey \<Rightarrow> date_time \<Rightarrow> ('e, instruction) res" where
  "apply_timestamp_ix c from contract to dt =
     instruction_new c budget_program_id (ApplyTimestamp dt) (apply_metas from contract to)"

definition apply_signature_ix ::
  "budget_instruction codec \<Rightarrow> pubkey \<Rightarrow> pubkey \<Rightarrow> pubkey \<Rightarrow> ('e, instruction) res" where
  "apply_signature_ix c from contract to =
     instruction_new c budget_program_id ApplySignature (apply_metas from contract to)"

section \<open>The processor\<close>

text \<open>The witness from the first account, and the payment the plan is then reduced to, if any.\<close>

definition reduce_pending ::
  "witness \<Rightarrow> budget_state \<Rightarrow> keyed_account list \<Rightarrow> ('e, budget_state \<times> payment option) res" where
  "reduce_pending w st kas =
     (case pending_budget st of
        None \<Rightarrow> Ok (st, None)
      | Some e \<Rightarrow>
          res_bind (idx kas 0) (\<lambda>ka.
          res_bind (unwrap (signer_key ka)) (\<lambda>k.
            let e = apply_witness w k e in Ok (st\<lparr>pending_budget := Some e\<rparr>, final_payment e))))"

text \<open>The payment to the third account.\<close>

definition pay_destination ::
  "payment \<Rightarrow> budget_state \<Rightarrow> keyed_account list \<Rightarrow> (budget_error, budget_state \<times> keyed_account list) res" where
  "pay_destination p st kas =
     res_bind (idx kas 2) (\<lambda>dest.
       if pay_to p \<noteq> unsigned_key dest then Err DestinationMissing
       else
         res_bind (modify_account 1 (sub_difs (pay_difs p)) kas) (\<lambda>kas.
         res_bind (modify_account 2 (add_difs (pay_difs p)) kas) (\<lambda>kas.
           Ok (st\<lparr>pending_budget := None\<rparr>, kas))))"

definition apply_signature ::
  "budget_state \<Rightarrow> keyed_account list \<Rightarrow> (budget_error, budget_state \<times> keyed_account list) res" where
  "apply_signature st kas =
     res_bind (reduce_pending WSignature st kas) (\<lambda>(st, fp).
       case fp of
         None \<Rightarrow> Ok (st, kas)
       | Some p \<Rightarrow>
           res_bind (idx kas 0) (\<lambda>ka.
             if signer_key ka = Some (pay_to p) then
               res_bind (modify_account 1 (sub_difs (pay_difs p)) kas) (\<lambda>kas.
               res_bind (modify_account 0 (add_difs (pay_difs p)) kas) (\<lambda>kas.
                 Ok (st\<lparr>pending_budget := None\<rparr>, kas)))
             else pay_destination p st kas))"

definition apply_timestamp ::
  "budget_state \<Rightarrow> keyed_account list \<Rightarrow> date_time \<Rightarrow>
     (budget_error, budget_state \<times> keyed_account list) res" where
  "apply_timestamp st kas dt =
     res_bind (reduce_pending (WTimestamp dt) st kas) (\<lambda>(st, fp).
       case fp of None \<Rightarrow> Ok (st, kas) | Some p \<Rightarrow> pay_destination p st kas)"

text \<open>The common frame of \<open>ApplyTimestamp\<close> and \<open>ApplySignature\<close> around the step \<open>f\<close>.\<close>

definition budget_apply ::
  "budget_state codec \<Rightarrow>
     (budget_state \<Rightarrow> keyed_account list \<Rightarrow> (budget_error, budget_state \<times> keyed_account list) res) \<Rightarrow>
     keyed_account list \<Rightarrow> keyed_account list ix_result" where
  "budget_apply c f kas =
     res_bind (idx kas 1) (\<lambda>contract.
     res_bind (budget_deserialize c (data (account contract))) (\<lambda>st.
       if \<not> is_pending st then Ok kas
       else if \<not> initialized st then Err UninitializedAccount
       else
         res_bind (idx kas 0) (\<lambda>ka.
           if signer_key ka = None then Err MissingRequiredSignature
           else
             res_bind (map_err (\<lambda>e. CustomError (budget_error_code e)) (f st kas)) (\<lambda>(st, kas).
             res_bind (idx kas 1) (\<lambda>contract.
             res_bind (budget_serialize c st (data (account contract))) (\<lambda>d.
               modify_account 1 (\<lambda>a. a\<lparr>data := d\<rparr>) kas))))))"

definition budget_initialize ::
  "budget_state codec \<Rightarrow> budget_expr \<Rightarrow> keyed_account list \<Rightarrow> keyed_account list ix_result" where
  "budget_initialize c e kas =
     (case final_payment e of
        Some p \<Rightarrow>
          res_bind (modify_account 1 (\<lambda>a. a\<lparr>difs := 0\<rparr>) kas) (modify_account 0 (add_difs (pay_difs p)))
      | None \<Rightarrow>
          res_bind (idx kas 0) (\<lambda>contract.
            if map_option initialized (deserialize c (data (account contract))) = Some True
            then Err AccountAlreadyInitialized
            else
              res_bind (budget_serialize c (default_budget_state\<lparr>pending_budget := Some e, initialized := True\<rparr>)
                          (data (account contract))) (\<lambda>d.
                modify_account 0 (\<lambda>a. a\<lparr>data := d\<rparr>) kas)))"

definition budget_process_instruction ::
  "budget_state codec \<Rightarrow> budget_instruction codec \<Rightarrow> process_instruction" where
  "budget_process_instruction bc c program_id kas ix tick_height =
     (case deserialize c ix of
        None \<Rightarrow> Err InvalidInstructionData
      | Some (BudgetInitializeAccount e) \<Rightarrow> budget_initialize bc e kas
      | Some (ApplyTimestamp dt) \<Rightarrow> budget_apply bc (\<lambda>st kas. apply_timestamp st kas dt) kas
      | Some ApplySignature \<Rightarrow> budget_apply bc apply_signature kas)"

section \<open>Reduction of a plan\<close>

definition run_plan :: "(witness \<times> pubkey) list \<Rightarrow> budget_expr \<Rightarrow> budget_expr" where
  "run_plan ws e = fold (\<lambda>(w, k). apply_witness w k) ws e"

lemma run_plan_simps [simp]:
  "run_plan [] e = e"
  "run_plan ((w, k) # ws) e = run_plan ws (apply_witness w k e)"
  "run_plan (ws @ ws') e = run_plan ws' (run_plan ws e)"
  by (simp_all add: run_plan_def)

lemma run_plan_Pay [simp]: "run_plan ws (Pay p) = Pay p"
  by (induction ws) (auto simp: run_plan_def)

lemma apply_witness_verify: "budget_verify e d \<Longrightarrow> budget_verify (apply_witness w k e) d"
  by (cases "(w, k, e)" rule: apply_witness.cases) auto

lemma run_plan_verify: "budget_verify e d \<Longrightarrow> budget_verify (run_plan ws e) d"
  by (induction ws arbitrary: e) (auto simp: apply_witness_verify)

text \<open>The most witnesses a plan can still need.\<close>

fun plan_conditions :: "budget_expr \<Rightarrow> nat" where
  "plan_conditions (Pay _) = 0"
| "plan_conditions (After _ e) = Suc (plan_conditions e)"
| "plan_conditions (Or (_, a) (_, b)) = Suc (max (plan_conditions a) (plan_conditions b))"
| "plan_conditions (And _ _ e) = Suc (Suc (plan_conditions e))"

lemma apply_witness_decreases:
  "apply_witness w k e \<noteq> e \<Longrightarrow> plan_conditions (apply_witness w k e) < plan_conditions e"
  by (cases "(w, k, e)" rule: apply_witness.cases) (auto split: if_splits)

fun condition_witness :: "condition \<Rightarrow> witness \<times> pubkey" where
  "condition_witness (CTimestamp dt k) = (WTimestamp dt, k)"
| "condition_witness (CSignature k) = (WSignature, k)"

lemma condition_witness_satisfies:
  "condition_witness c = (w, k) \<Longrightarrow> is_satisfied c w k"
  by (cases c) auto

fun changes :: "(witness \<times> pubkey) list \<Rightarrow> budget_expr \<Rightarrow> nat" where
  "changes [] e = 0"
| "changes ((w, k) # ws) e = (if apply_witness w k e \<noteq> e then 1 else 0) + changes ws (apply_witness w k e)"

lemma changes_bound: "changes ws e \<le> plan_conditions e"
proof (induction ws e rule: changes.induct)
  case (2 w k ws e)
  then show ?case using apply_witness_decreases [of w k e] by fastforce
qed simp

lemma plan_completes: "\<exists>ws. length ws \<le> plan_conditions e \<and> final_payment (run_plan ws e) \<noteq> None"
proof (induction e rule: plan_conditions.induct)
  case (1 p)
  then show ?case by simp
next
  case (2 c e)
  then obtain ws where "length ws \<le> plan_conditions e" "final_payment (run_plan ws e) \<noteq> None" by blast
  then show ?case
    using condition_witness_satisfies [of c]
    by (intro exI [of _ "condition_witness c # ws"]) (cases "condition_witness c"; simp)
next
  case (3 c a c' b)
  then obtain ws where "length ws \<le> plan_conditions a" "final_payment (run_plan ws a) \<noteq> None" by blast
  then show ?case
    using condition_witness_satisfies [of c]
    by (intro exI [of _ "condition_witness c # ws"]) (cases "condition_witness c"; simp)
next
  case (4 c c' e)
  then obtain ws where "length ws \<le> plan_conditions e" "final_payment (run_plan ws e) \<noteq> None" by blast
  then show ?case
    using condition_witness_satisfies [of c] condition_witness_satisfies [of c']
    by (intro exI [of _ "condition_witness c # condition_witness c' # ws"])
      (cases "condition_witness c"; cases "condition_witness c'"; simp)
qed

lemma run_after_signatures:
  "run_plan (map (\<lambda>k. (WSignature, k)) ks) (After (CSignature a) (Pay p)) =
     (if a \<in> set ks then Pay p else After (CSignature a) (Pay p))"
  by (induction ks) auto

section \<open>The processor\<close>

lemma pay_destination_Ok_iff:
  "pay_destination p st kas = Ok (st', kas') \<longleftrightarrow>
     2 < length kas \<and> pay_to p = key (kas ! 2) \<and> st' = st\<lparr>pending_budget := None\<rparr> \<and>
     kas' = kas[1 := (kas ! 1)\<lparr>account := sub_difs (pay_difs p) (account (kas ! 1))\<rparr>,
                2 := (kas ! 2)\<lparr>account := add_difs (pay_difs p) (account (kas ! 2))\<rparr>]"
  by (auto simp: pay_destination_def unsigned_key_def split: if_splits)

lemma reduce_pending_Ok:
  "reduce_pending w st kas = Ok (st', fp) \<Longrightarrow> pending_budget st = Some e \<Longrightarrow>
     kas \<noteq> [] \<and> is_signer (kas ! 0) \<and>
     st' = st\<lparr>pending_budget := Some (apply_witness w (key (kas ! 0)) e)\<rparr> \<and>
     fp = final_payment (apply_witness w (key (kas ! 0)) e)"
  by (auto simp: reduce_pending_def Let_def)

text \<open>The accounts after one witness: unchanged, or one payment from the contract.\<close>

definition paid :: "payment \<Rightarrow> keyed_account list \<Rightarrow> keyed_account list \<Rightarrow> bool" where
  "paid p kas kas' \<longleftrightarrow>
     (\<exists>j < length kas. j \<noteq> 1 \<and> 1 < length kas \<and> key (kas ! j) = pay_to p \<and>
        kas' = kas[1 := (kas ! 1)\<lparr>account := sub_difs (pay_difs p) (account (kas ! 1))\<rparr>,
                   j := (kas ! j)\<lparr>account := add_difs (pay_difs p) (account (kas ! j))\<rparr>])"

definition budget_stepped ::
  "witness \<Rightarrow> budget_expr \<Rightarrow> budget_state \<Rightarrow> keyed_account list \<Rightarrow> budget_state \<Rightarrow> keyed_account list \<Rightarrow> bool" where
  "budget_stepped w e st kas st' kas' \<longleftrightarrow>
     (let e' = apply_witness w (key (kas ! 0)) e in
      case final_payment e' of
        None \<Rightarrow> st' = st\<lparr>pending_budget := Some e'\<rparr> \<and> kas' = kas
      | Some p \<Rightarrow> st' = st\<lparr>pending_budget := None\<rparr> \<and> paid p kas kas')"

lemma apply_timestamp_Ok:
  assumes "apply_timestamp st kas dt = Ok (st', kas')" "pending_budget st = Some e"
  shows "budget_stepped (WTimestamp dt) e st kas st' kas'"
  using assms
  by (auto simp: apply_timestamp_def budget_stepped_def paid_def pay_destination_Ok_iff Let_def
      dest!: reduce_pending_Ok split: option.splits prod.splits intro!: exI [of _ 2])

lemma apply_signature_Ok:
  assumes "apply_signature st kas = Ok (st', kas')" "pending_budget st = Some e"
  shows "budget_stepped WSignature e st kas st' kas'"
proof -
  from assms(1) obtain st1 fp where
    r: "reduce_pending WSignature st kas = (Ok (st1, fp) :: (budget_error, budget_state \<times> payment option) res)"
    by (auto simp: apply_signature_def)
  note rr = reduce_pending_Ok [OF r assms(2)]
  show ?thesis
  proof (cases fp)
    case None
    then show ?thesis using assms(1) r rr by (auto simp: apply_signature_def budget_stepped_def)
  next
    case (Some p)
    have fp: "final_payment (apply_witness WSignature (key (kas ! 0)) e) = Some p"
      using rr Some by simp
    note q = assms(1) [unfolded apply_signature_def r Some, simplified]
    show ?thesis
    proof (cases "key (kas ! 0) = pay_to p")
      case True
      then show ?thesis
        using q rr fp by (auto simp: budget_stepped_def paid_def intro!: exI [of _ 0])
    next
      case False
      then have "pay_destination p st1 kas = Ok (st', kas')"
        using q rr by simp
      then show ?thesis using rr fp
        by (auto simp: pay_destination_Ok_iff budget_stepped_def paid_def intro!: exI [of _ 2])
    qed
  qed
qed

lemma budget_serialize_Ok_iff: "budget_serialize c st b = Ok d \<longleftrightarrow> serialize_into c st b = Inr d"
  by (auto simp: budget_serialize_def split: sum.splits)

lemma paid_same_keys: "paid p kas kas' \<Longrightarrow> same_keys kas kas'"
  by (auto simp: paid_def intro!: same_keys_trans [OF same_keys_update same_keys_update])

lemma paid_total: "paid p kas kas' \<Longrightarrow> total_difs kas' = total_difs kas"
  by (auto simp: paid_def intro!: sum_list_map_move [where d = "pay_difs p"])

lemma budget_stepped_same_keys: "budget_stepped w e st kas st' kas' \<Longrightarrow> same_keys kas kas'"
  by (auto simp: budget_stepped_def Let_def split: option.splits intro: paid_same_keys)

lemma budget_stepped_total: "budget_stepped w e st kas st' kas' \<Longrightarrow> total_difs kas' = total_difs kas"
  by (auto simp: budget_stepped_def Let_def split: option.splits intro: paid_total)

text \<open>The step that a witness instruction takes.\<close>

fun budget_step ::
  "witness \<Rightarrow> budget_state \<Rightarrow> keyed_account list \<Rightarrow> (budget_error, budget_state \<times> keyed_account list) res" where
  "budget_step WSignature st kas = apply_signature st kas"
| "budget_step (WTimestamp dt) st kas = apply_timestamp st kas dt"

lemma budget_step_fun:
  "budget_step WSignature = apply_signature"
  "budget_step (WTimestamp dt) = (\<lambda>st kas. apply_timestamp st kas dt)"
  by (simp_all add: fun_eq_iff)

lemma budget_step_Ok:
  "budget_step w st kas = Ok (st', kas') \<Longrightarrow> pending_budget st = Some e \<Longrightarrow>
     budget_stepped w e st kas st' kas'"
  by (cases w) (auto intro: apply_signature_Ok apply_timestamp_Ok)

lemma budget_apply_Ok:
  assumes "budget_apply bc (budget_step w) kas = Ok kas'"
  shows "1 < length kas \<and> (\<exists>st. deserialize bc (data (account (kas ! 1))) = Some st \<and>
    (pending_budget st = None \<and> kas' = kas \<or>
     (\<exists>e st' kas1 d. pending_budget st = Some e \<and> initialized st \<and> is_signer (kas ! 0) \<and>
        budget_stepped w e st kas st' kas1 \<and>
        serialize_into bc st' (data (account (kas1 ! 1))) = Inr d \<and>
        kas' = kas1[1 := (kas1 ! 1)\<lparr>account := (account (kas1 ! 1))\<lparr>data := d\<rparr>\<rparr>])))"
proof -
  from assms obtain st where st: "1 < length kas" "deserialize bc (data (account (kas ! 1))) = Some st"
    by (auto simp: budget_apply_def budget_deserialize_def)
  show ?thesis
  proof (cases "pending_budget st")
    case None
    then show ?thesis using assms st by (simp add: budget_apply_def budget_deserialize_def is_pending_def)
  next
    case (Some e)
    with assms st obtain st' kas1 d where
      "initialized st" "is_signer (kas ! 0)" "budget_step w st kas = Ok (st', kas1)"
      "serialize_into bc st' (data (account (kas1 ! 1))) = Inr d"
      "kas' = kas1[1 := (kas1 ! 1)\<lparr>account := (account (kas1 ! 1))\<lparr>data := d\<rparr>\<rparr>]"
      by (auto simp: budget_apply_def budget_deserialize_def is_pending_def budget_serialize_Ok_iff
          split: if_splits)
    with budget_step_Ok [OF this(3) Some] st Some show ?thesis by blast
  qed
qed

fun witness_instruction :: "witness \<Rightarrow> budget_instruction" where
  "witness_instruction WSignature = ApplySignature"
| "witness_instruction (WTimestamp dt) = ApplyTimestamp dt"

lemma budget_process_witness:
  "deserialize c ix = Some (witness_instruction w) \<Longrightarrow>
     budget_process_instruction bc c pid kas ix tick = budget_apply bc (budget_step w) kas"
  by (cases w) (simp_all add: budget_process_instruction_def budget_step_fun)

lemma budget_process_cases:
  assumes "budget_process_instruction bc c pid kas ix tick = Ok kas'"
  shows "(\<exists>e. budget_initialize bc e kas = Ok kas') \<or> (\<exists>w. budget_apply bc (budget_step w) kas = Ok kas')"
proof -
  from assms obtain i where i: "deserialize c ix = Some i"
    by (auto simp: budget_process_instruction_def split: option.splits)
  show ?thesis
  proof (cases i)
    case (BudgetInitializeAccount e)
    then show ?thesis using assms i by (auto simp: budget_process_instruction_def)
  next
    case (ApplyTimestamp dt)
    then show ?thesis using assms i budget_process_witness [of c ix "WTimestamp dt"] by auto
  next
    case ApplySignature
    then show ?thesis using assms i budget_process_witness [of c ix WSignature] by auto
  qed
qed

lemma same_keys_update_data:
  "same_keys kas (kas[i := (kas ! i)\<lparr>account := a\<rparr>])"
  by (cases "i < length kas") (simp_all add: list_update_beyond not_less)

lemma budget_initialize_same_keys: "budget_initialize bc e kas = Ok kas' \<Longrightarrow> same_keys kas kas'"
  by (auto simp: budget_initialize_def split: option.splits if_splits
      intro!: same_keys_trans [OF same_keys_update same_keys_update] same_keys_update_data)

interpretation budget: slice_program "budget_process_instruction bc c"
proof unfold_locales
  fix pid kas ix tick kas'
  assume "budget_process_instruction bc c pid kas ix tick = Ok kas'"
  from budget_process_cases [OF this] show "same_keys kas kas'"
    by (auto intro: budget_initialize_same_keys
        dest!: budget_apply_Ok intro!: same_keys_trans [OF budget_stepped_same_keys same_keys_update_data])
qed

section \<open>Properties\<close>

text \<open>
  The meaning of a plan over a sequence of witnesses, by recursion on the plan. A signature condition is met by the signature of
  its key, a timestamp condition by a date of its key that is not before its own. After a condition the plan goes on with the witnesses
  behind the first that meets it; an alternative is decided by the first witness that meets one of its conditions, the first of the two
  counting when it meets both; and a conjunction needs one witness for either condition and a later one for the other.
\<close>

definition meets :: "condition \<Rightarrow> witness \<times> pubkey \<Rightarrow> bool" where
  "meets c wk \<longleftrightarrow>
     (case c of
        CSignature k \<Rightarrow> wk = (WSignature, k)
      | CTimestamp dt k \<Rightarrow> (case wk of (WTimestamp t, k') \<Rightarrow> k' = k \<and> dt \<le> t | _ \<Rightarrow> False))"

definition after_first :: "('w \<Rightarrow> bool) \<Rightarrow> 'w list \<Rightarrow> ('w \<times> 'w list) option" where
  "after_first P ws = (case dropWhile (\<lambda>w. \<not> P w) ws of [] \<Rightarrow> None | w # rest \<Rightarrow> Some (w, rest))"

fun plan_outcome :: "budget_expr \<Rightarrow> (witness \<times> pubkey) list \<Rightarrow> payment option" where
  "plan_outcome (Pay p) ws = Some p"
| "plan_outcome (After c e) ws = (case after_first (meets c) ws of None \<Rightarrow> None | Some (_, rest) \<Rightarrow> plan_outcome e rest)"
| "plan_outcome (Or (c0, e0) (c1, e1)) ws =
     (case after_first (\<lambda>w. meets c0 w \<or> meets c1 w) ws of
        None \<Rightarrow> None
      | Some (w, rest) \<Rightarrow> if meets c0 w then plan_outcome e0 rest else plan_outcome e1 rest)"
| "plan_outcome (And c0 c1 e) ws =
     (case after_first (\<lambda>w. meets c0 w \<or> meets c1 w) ws of
        None \<Rightarrow> None
      | Some (w, rest) \<Rightarrow>
          (case after_first (meets (if meets c0 w then c1 else c0)) rest of
             None \<Rightarrow> None
           | Some (_, rest') \<Rightarrow> plan_outcome e rest'))"

lemma after_first_simps [simp]:
  "after_first P [] = None"
  "after_first P (w # ws) = (if P w then Some (w, ws) else after_first P ws)"
  by (simp_all add: after_first_def)

lemma is_satisfied_meets: "is_satisfied c w k \<longleftrightarrow> meets c (w, k)"
  by (cases "(c, w, k)" rule: is_satisfied.cases) (auto simp: meets_def)

lemma run_plan_After:
  "run_plan ws (After c e) = (case after_first (meets c) ws of None \<Rightarrow> After c e | Some (_, rest) \<Rightarrow> run_plan rest e)"
  by (induction ws) (auto simp: is_satisfied_meets)

lemma run_plan_Or:
  "run_plan ws (Or (c0, e0) (c1, e1)) =
     (case after_first (\<lambda>w. meets c0 w \<or> meets c1 w) ws of
        None \<Rightarrow> Or (c0, e0) (c1, e1)
      | Some (w, rest) \<Rightarrow> run_plan rest (if meets c0 w then e0 else e1))"
  by (induction ws) (auto simp: is_satisfied_meets)

lemma run_plan_And:
  "run_plan ws (And c0 c1 e) =
     (case after_first (\<lambda>w. meets c0 w \<or> meets c1 w) ws of
        None \<Rightarrow> And c0 c1 e
      | Some (w, rest) \<Rightarrow> run_plan rest (After (if meets c0 w then c1 else c0) e))"
  by (induction ws) (auto simp: is_satisfied_meets)

lemma run_plan_outcome: "final_payment (run_plan ws e) = plan_outcome e ws"
  by (induction e ws rule: plan_outcome.induct)
    (auto simp: run_plan_After run_plan_Or run_plan_And split: option.split)

text \<open>
  C23: a plan does what it means and spends what it was verified for. Whatever witnesses arrive in whatever order, reducing the
  plan by them one after the other ends in a payment exactly when the meaning of the plan says so, and in that payment; and when the plan
  passed \<open>verify\<close> for an amount, the payment is of that amount.
\<close>

theorem budget_pays_verified:
  assumes "budget_verify e d"
  shows "final_payment (run_plan ws e) = plan_outcome e ws \<and>
    (\<forall>p. final_payment (run_plan ws e) = Some p \<longrightarrow> pay_difs p = d)"
proof -
  have "pay_difs p = d" if "final_payment (run_plan ws e) = Some p" for p
    using run_plan_verify [OF assms, of ws] that by (cases "run_plan ws e") auto
  then show ?thesis by (simp add: run_plan_outcome)
qed

theorem budget_pays_verified_witness:
  "final_payment (run_plan [(WSignature, demo_key 2), (WTimestamp 5, demo_key 1), (WSignature, demo_key 1)]
     (new_2_2_multisig_payment (demo_key 1) (demo_key 2) 42 (demo_key 3))) = Some \<lparr>pay_difs = 42, pay_to = demo_key 3\<rparr> \<and>
   final_payment (run_plan [(WSignature, demo_key 2), (WTimestamp 5, demo_key 1)]
     (new_2_2_multisig_payment (demo_key 1) (demo_key 2) 42 (demo_key 3))) = None"
proof -
  have v: "budget_verify (new_2_2_multisig_payment (demo_key 1) (demo_key 2) 42 (demo_key 3)) 42"
    by (simp add: new_2_2_multisig_payment_def new_payment_def)
  show ?thesis
    using budget_pays_verified [OF v, of "[(WSignature, demo_key 2), (WTimestamp 5, demo_key 1), (WSignature, demo_key 1)]"]
      budget_pays_verified [OF v, of "[(WSignature, demo_key 2), (WTimestamp 5, demo_key 1)]"]
    by (simp add: new_2_2_multisig_payment_def new_payment_def meets_def demo_key_def)
qed

text \<open>
  A plan makes progress and ends. Its own parties can always bring it to a payment, with at most
  as many witnesses as its longest chain of conditions; and no sequence of witnesses changes
  the plan more often than that.
\<close>

theorem budget_plan_terminates:
  "(\<exists>ws. length ws \<le> plan_conditions e \<and> final_payment (run_plan ws e) \<noteq> None) \<and>
   changes ws' e \<le> plan_conditions e"
  using plan_completes changes_bound by blast

text \<open>
  A two-of-two multisig plan pays exactly when both parties have signed, in any order and
  however many other signatures arrive.
\<close>

theorem budget_multisig_needs_both:
  assumes "a \<noteq> b"
  shows "final_payment (run_plan (map (\<lambda>k. (WSignature, k)) ks) (new_2_2_multisig_payment a b d to)) =
    (if a \<in> set ks \<and> b \<in> set ks then Some \<lparr>pay_difs = d, pay_to = to\<rparr> else None)"
  unfolding new_2_2_multisig_payment_def new_payment_def
  by (induction ks) (use assms in \<open>auto simp: run_after_signatures\<close>)

theorem budget_multisig_needs_both_witness:
  "final_payment (run_plan (map (\<lambda>k. (WSignature, k)) [demo_key 1, demo_key 1])
     (new_2_2_multisig_payment (demo_key 1) (demo_key 2) 42 (demo_key 3))) = None"
  using budget_multisig_needs_both [of "demo_key 1" "demo_key 2" "[demo_key 1, demo_key 1]" 42 "demo_key 3"]
  by simp

text \<open>
  What a witness does to a pending contract. If it succeeds, the first account signed; the plan
  is reduced by its witness; if that leaves a payment, the contract is closed and the amount
  moves from the contract to an account with the payee's key, and otherwise the reduced plan is
  stored and no difs move. The total is conserved modulo the width of the amounts.
\<close>

theorem budget_apply_spec:
  assumes "codec_ok bc" "deserialize c ix = Some (witness_instruction w)"
    "deserialize bc (data (account (kas ! 1))) = Some st" "pending_budget st = Some e"
    "budget_process_instruction bc c pid kas ix tick = Ok kas'"
  shows "is_signer (kas ! 0) \<and> total_difs kas' = total_difs kas \<and>
    (let e' = apply_witness w (key (kas ! 0)) e; st' = deserialize bc (data (account (kas' ! 1))) in
     case final_payment e' of
       None \<Rightarrow> st' = Some (st\<lparr>pending_budget := Some e'\<rparr>) \<and>
               map (\<lambda>ka. difs (account ka)) kas' = map (\<lambda>ka. difs (account ka)) kas
     | Some p \<Rightarrow> st' = Some (st\<lparr>pending_budget := None\<rparr>) \<and>
          difs (account (kas' ! 1)) = difs (account (kas ! 1)) - pay_difs p \<and>
          (\<exists>j < length kas. j \<noteq> 1 \<and> key (kas ! j) = pay_to p \<and>
             difs (account (kas' ! j)) = difs (account (kas ! j)) + pay_difs p))"
proof -
  from assms have "budget_apply bc (budget_step w) kas = Ok kas'" by (simp add: budget_process_witness)
  from budget_apply_Ok [OF this] assms(3,4) obtain st' kas1 d where
    len: "1 < length kas" and sg: "is_signer (kas ! 0)"
    and bs: "budget_stepped w e st kas st' kas1"
    and d: "serialize_into bc st' (data (account (kas1 ! 1))) = Inr d"
    and k': "kas' = kas1[1 := (kas1 ! 1)\<lparr>account := (account (kas1 ! 1))\<lparr>data := d\<rparr>\<rparr>]"
    by auto
  have len1: "1 < length kas1"
    using same_keys_length [OF budget_stepped_same_keys [OF bs]] len by simp
  have difs_eq: "map (\<lambda>ka. difs (account ka)) kas' = map (\<lambda>ka. difs (account ka)) kas1"
    unfolding k' by (rule map_list_update_same) simp
  have nth_difs: "difs (account (kas' ! j)) = difs (account (kas1 ! j))" if "j < length kas1" for j
    using arg_cong [OF difs_eq, of "\<lambda>xs. xs ! j"] that k' by simp
  have st: "deserialize bc (data (account (kas' ! 1))) = Some st'"
    using assms(1) d len1 unfolding codec_ok_def k' by simp
  have "total_difs kas' = total_difs kas"
    using budget_stepped_total [OF bs] difs_eq by simp
  moreover have "difs (account (kas' ! 1)) = difs (account (kas ! 1)) - pay_difs p \<and>
          (\<exists>j < length kas. j \<noteq> 1 \<and> key (kas ! j) = pay_to p \<and>
             difs (account (kas' ! j)) = difs (account (kas ! j)) + pay_difs p)" if "paid p kas kas1" for p
    using that nth_difs [of 1] nth_difs len1 by (auto simp: paid_def nth_list_update)
  ultimately show ?thesis
    using sg bs st difs_eq by (auto simp: budget_stepped_def Let_def split: option.splits)
qed

definition demo_contract :: budget_state where
  "demo_contract = budget_state_new (new_authorized_payment (demo_key 1) 5 (demo_key 3))"

definition demo_budget_codec :: "budget_state codec" where
  "demo_budget_codec = table_codec [demo_contract, \<lparr>initialized = True, pending_budget = None\<rparr>]"

definition demo_contract_account :: "u64 \<Rightarrow> u8 \<Rightarrow> keyed_account" where
  "demo_contract_account d b =
     keyed_account_new (demo_key 2) False ((account_new d 0 1 budget_program_id)\<lparr>data := [b]\<rparr>)"

lemma demo_budget_apply:
  "budget_process_instruction demo_budget_codec (table_codec [ApplySignature]) budget_program_id
     [demo_keyed True 1 10, demo_contract_account d 0, demo_keyed False 3 0] [0] 0 =
   Ok [demo_keyed True 1 10, demo_contract_account (d - 5) 1, demo_keyed False 3 5]"
  by (simp add: budget_process_instruction_def budget_apply_def budget_deserialize_def
      budget_serialize_def demo_budget_codec_def table_codec_def demo_contract_def demo_keyed_def
      demo_contract_account_def keyed_account_new_def account_new_def is_pending_def
      budget_state_new_def new_authorized_payment_def new_payment_def apply_signature_def
      reduce_pending_def unwrap_def signer_key_def pay_destination_def unsigned_key_def add_difs_def
      sub_difs_def Let_def)

theorem budget_apply_spec_witness:
  "is_signer (demo_keyed True 1 10) \<and>
   total_difs [demo_keyed True 1 10, demo_contract_account 2 1, demo_keyed False 3 5] =
   total_difs [demo_keyed True 1 10, demo_contract_account 7 0, demo_keyed False 3 0]"
proof -
  have "codec_ok demo_budget_codec" by (simp add: demo_budget_codec_def table_codec_ok)
  moreover have "deserialize (table_codec [ApplySignature]) [0] = Some (witness_instruction WSignature)"
    by simp
  moreover have "deserialize demo_budget_codec (data (account (demo_contract_account 7 0))) = Some demo_contract"
    by (simp add: demo_budget_codec_def demo_contract_account_def keyed_account_new_def)
  moreover have "pending_budget demo_contract = Some (new_authorized_payment (demo_key 1) 5 (demo_key 3))"
    by (simp add: demo_contract_def budget_state_new_def)
  ultimately show ?thesis
    using budget_apply_spec [OF _ _ _ _ demo_budget_apply [of 7], of WSignature demo_contract
        "new_authorized_payment (demo_key 1) 5 (demo_key 3)"] by simp
qed

text \<open>
  The balance of the contract is not checked: a contract with 2 difs pays 5, and is left with
  almost \<open>2 ^ 64\<close>. (\<open>create_account\<close> verifies the amount, the processor does not.)
\<close>

lemma budget_overdraft:
  "budget_process_instruction demo_budget_codec (table_codec [ApplySignature]) budget_program_id
     [demo_keyed True 1 10, demo_contract_account 2 0, demo_keyed False 3 0] [0] 0 =
   Ok [demo_keyed True 1 10, demo_contract_account (- 3) 1, demo_keyed False 3 5]"
  using demo_budget_apply [of 2] by simp

text \<open>
  A timestamp witness whose signer is the payee: the instruction built for it has two
  accounts, and the processor panics on the third.
\<close>

lemma apply_timestamp_payee_panics:
  assumes "final_payment (apply_witness (WTimestamp dt) (key ka) e) = Some p" "is_signer ka"
    "deserialize bc (data (account contract)) = Some st" "pending_budget st = Some e" "initialized st"
    "deserialize c ix = Some (ApplyTimestamp dt)"
  shows "budget_process_instruction bc c pid [ka, contract] ix tick = Panic"
  using assms
  by (simp add: budget_process_instruction_def budget_apply_def budget_deserialize_def is_pending_def
      apply_timestamp_def reduce_pending_def unwrap_def signer_key_def pay_destination_def idx_def Let_def)

end
