(* ===== verification/Token_Program.thy ===== *)
theory Token_Program
  imports Message_Processor
begin

text \<open>
  The token program, \<^verbatim>\<open>src/controllers/token_api/src\<close>: token and token-account states, their tagged
  serialisation, the five instructions and the processor. States are written through a
  \<open>BufWriter\<close>: bytes that fit its 8192-byte buffer reach the account when the writer is dropped, and
  what does not fit the account is then lost without an error. What happens when the buffer
  itself overflows depends on how bincode splits its writes and is a parameter.
\<close>

section \<open>State\<close>

definition token_program_id :: pubkey where
  "token_program_id = Pubkey
     [6, 221, 246, 225, 142, 57, 236, 63, 240, 189, 82, 112, 85, 219, 2, 165, 51, 122, 113, 201, 115,
      12, 217, 253, 72, 146, 220, 192, 0, 0, 0, 0]"

datatype token_error = TokenInvalidArgument | InsufficentFunds | NotOwner

fun token_error_code :: "token_error \<Rightarrow> u32" where
  "token_error_code TokenInvalidArgument = 0"
| "token_error_code InsufficentFunds = 1"
| "token_error_code NotOwner = 2"

record token_info =
  token_supply :: u64
  decimals :: u8
  token_name :: bytes
  token_symbol :: bytes

record token_account_delegate_info =
  source :: pubkey
  original_amount :: u64

record token_account_info =
  token :: pubkey
  token_owner :: pubkey
  amount :: u64
  delegate :: "token_account_delegate_info option"

datatype token_instruction =
    NewToken token_info
  | NewTokenAccount
  | TokenTransfer u64
  | Approve u64
  | SetOwner

datatype token_state =
    Unallocated
  | Token token_info
  | TokenAccount token_account_info
  | TokenInvalid

definition default_token_state :: token_state where
  "default_token_state = Unallocated"

record token_codecs =
  token_info_codec :: "token_info codec"
  token_account_codec :: "token_account_info codec"
  token_instruction_codec :: "token_instruction codec"
  overflowing_write :: "bytes \<Rightarrow> bytes \<Rightarrow> (token_error, bytes) res"

definition token_deserialize :: "token_codecs \<Rightarrow> bytes \<Rightarrow> (token_error, token_state) res" where
  "token_deserialize C input =
     (case input of
        [] \<Rightarrow> Err TokenInvalidArgument
      | tag # rest \<Rightarrow>
          if tag = 0 then Ok Unallocated
          else if tag = 1 then
            res_bind (ok_or TokenInvalidArgument (deserialize (token_info_codec C) rest)) (\<lambda>i. Ok (Token i))
          else if tag = 2 then
            res_bind (ok_or TokenInvalidArgument (deserialize (token_account_codec C) rest))
              (\<lambda>a. Ok (TokenAccount a))
          else Err TokenInvalidArgument)"

definition buf_write :: "token_codecs \<Rightarrow> bytes \<Rightarrow> bytes \<Rightarrow> (token_error, bytes) res" where
  "buf_write C bs out =
     (if length bs \<le> 8192 then Ok (take (length out) bs @ drop (length bs) out)
      else overflowing_write C bs out)"

definition token_serialize :: "token_codecs \<Rightarrow> token_state \<Rightarrow> bytes \<Rightarrow> (token_error, bytes) res" where
  "token_serialize C st output =
     (case output of
        [] \<Rightarrow> Err TokenInvalidArgument
      | _ # out \<Rightarrow>
          (case st of
             Unallocated \<Rightarrow> Err TokenInvalidArgument
           | TokenInvalid \<Rightarrow> Err TokenInvalidArgument
           | Token i \<Rightarrow>
               (case serialize (token_info_codec C) i of
                  Inl _ \<Rightarrow> Err TokenInvalidArgument
                | Inr bs \<Rightarrow> res_bind (buf_write C bs out) (\<lambda>out. Ok (1 # out)))
           | TokenAccount a \<Rightarrow>
               (case serialize (token_account_codec C) a of
                  Inl _ \<Rightarrow> Err TokenInvalidArgument
                | Inr bs \<Rightarrow> res_bind (buf_write C bs out) (\<lambda>out. Ok (2 # out)))))"

definition token_amount :: "token_state \<Rightarrow> (token_error, u64) res" where
  "token_amount st = (case st of TokenAccount a \<Rightarrow> Ok (amount a) | _ \<Rightarrow> Err TokenInvalidArgument)"

definition only_owner :: "token_state \<Rightarrow> pubkey \<Rightarrow> (token_error, unit) res" where
  "only_owner st k =
     (if k \<noteq> default_pubkey \<and> (case st of TokenAccount a \<Rightarrow> token_owner a = k | _ \<Rightarrow> False)
      then Ok () else Err NotOwner)"

section \<open>Instructions\<close>

type_synonym token_outputs = "(nat \<times> token_state) list"

abbreviation require_signer :: "keyed_account list \<Rightarrow> (pubkey \<Rightarrow> ('e, 'a) res) \<Rightarrow> ('e, 'a) res" where
  "require_signer info f \<equiv> res_bind (idx info 0) (\<lambda>ka. res_bind (unwrap (signer_key ka)) f)"

definition process_newtoken ::
  "keyed_account list \<Rightarrow> token_info \<Rightarrow> token_state list \<Rightarrow> (token_error, token_outputs) res" where
  "process_newtoken info ti ins =
     (if length ins \<noteq> 2 then Err TokenInvalidArgument
      else case ins ! 1 of
        TokenAccount dest \<Rightarrow>
          require_signer info (\<lambda>k.
            if k \<noteq> token dest then Err TokenInvalidArgument
            else if delegate dest \<noteq> None then Err TokenInvalidArgument
            else if ins ! 0 \<noteq> Unallocated then Err TokenInvalidArgument
            else Ok [(1, TokenAccount (dest\<lparr>amount := token_supply ti\<rparr>)), (0, Token ti)])
      | _ \<Rightarrow> Err TokenInvalidArgument)"

definition process_newaccount ::
  "keyed_account list \<Rightarrow> token_state list \<Rightarrow> (token_error, token_outputs) res" where
  "process_newaccount info ins =
     (if length ins < 3 then Err TokenInvalidArgument
      else if ins ! 0 \<noteq> Unallocated then Err TokenInvalidArgument
      else
        res_bind (idx info 2) (\<lambda>tok.
        res_bind (idx info 1) (\<lambda>own.
          if length ins \<ge> 4 then
            res_bind (idx info 3) (\<lambda>src.
              Ok [(0, TokenAccount \<lparr>token = unsigned_key tok, token_owner = unsigned_key own, amount = 0,
                        delegate = Some \<lparr>source = unsigned_key src, original_amount = 0\<rparr>\<rparr>)])
          else
            Ok [(0, TokenAccount \<lparr>token = unsigned_key tok, token_owner = unsigned_key own, amount = 0,
                      delegate = None\<rparr>)])))"

definition process_transfer ::
  "keyed_account list \<Rightarrow> u64 \<Rightarrow> token_state list \<Rightarrow> (token_error, token_outputs) res" where
  "process_transfer info amt ins =
     (if length ins < 3 then Err TokenInvalidArgument
      else case (ins ! 1, ins ! 2) of
        (TokenAccount src, TokenAccount dest) \<Rightarrow>
          if token src \<noteq> token dest then Err TokenInvalidArgument
          else if delegate dest \<noteq> None then Err TokenInvalidArgument
          else require_signer info (\<lambda>k.
            if k \<noteq> token_owner src then Err TokenInvalidArgument
            else if amount src < amt then Err InsufficentFunds
            else
              res_bind
                (case delegate src of
                   None \<Rightarrow> Ok []
                 | Some di \<Rightarrow>
                     if length ins \<noteq> 4 then Err TokenInvalidArgument
                     else case ins ! 3 of
                       TokenAccount real \<Rightarrow>
                         if token real \<noteq> token src then Err TokenInvalidArgument
                         else res_bind (idx info 3) (\<lambda>ka.
                           if unsigned_key ka \<noteq> source di then Err TokenInvalidArgument
                           else if amount real < amt then Err InsufficentFunds
                           else Ok [(3, TokenAccount (real\<lparr>amount := amount real - amt\<rparr>))])
                     | _ \<Rightarrow> Err TokenInvalidArgument)
                (\<lambda>outs. Ok ((1, TokenAccount (src\<lparr>amount := amount src - amt\<rparr>)) # outs @
                            [(2, TokenAccount (dest\<lparr>amount := amount dest + amt\<rparr>))])))
      | _ \<Rightarrow> Err TokenInvalidArgument)"

definition process_approve ::
  "keyed_account list \<Rightarrow> u64 \<Rightarrow> token_state list \<Rightarrow> (token_error, token_outputs) res" where
  "process_approve info amt ins =
     (if length ins \<noteq> 3 then Err TokenInvalidArgument
      else case (ins ! 1, ins ! 2) of
        (TokenAccount src, TokenAccount del) \<Rightarrow>
          if token src \<noteq> token del then Err TokenInvalidArgument
          else require_signer info (\<lambda>k.
            if k \<noteq> token_owner src then Err TokenInvalidArgument
            else if delegate src \<noteq> None then Err TokenInvalidArgument
            else case delegate del of
              None \<Rightarrow> Err TokenInvalidArgument
            | Some di \<Rightarrow>
                res_bind (idx info 1) (\<lambda>ka.
                  if unsigned_key ka \<noteq> source di then Err TokenInvalidArgument
                  else Ok [(2, TokenAccount (del\<lparr>amount := amt,
                               delegate := Some \<lparr>source = source di, original_amount = amt\<rparr>\<rparr>))]))
      | _ \<Rightarrow> Err TokenInvalidArgument)"

definition process_setowner ::
  "keyed_account list \<Rightarrow> token_state list \<Rightarrow> (token_error, token_outputs) res" where
  "process_setowner info ins =
     (if length ins < 3 then Err TokenInvalidArgument
      else case ins ! 1 of
        TokenAccount src \<Rightarrow>
          require_signer info (\<lambda>k.
            if k \<noteq> token_owner src then Err TokenInvalidArgument
            else res_bind (idx info 2) (\<lambda>ka.
              Ok [(1, TokenAccount (src\<lparr>token_owner := unsigned_key ka\<rparr>))]))
      | _ \<Rightarrow> Err TokenInvalidArgument)"

section \<open>The processor\<close>

definition token_input :: "token_codecs \<Rightarrow> pubkey \<Rightarrow> keyed_account \<Rightarrow> token_state" where
  "token_input C program_id ka =
     (if owner (account ka) = program_id
      then (case token_deserialize C (data (account ka)) of Ok st \<Rightarrow> st | _ \<Rightarrow> TokenInvalid)
      else TokenInvalid)"

fun token_write ::
  "token_codecs \<Rightarrow> token_outputs \<Rightarrow> keyed_account list \<Rightarrow> (token_error, keyed_account list) res" where
  "token_write C [] info = Ok info"
| "token_write C ((i, st) # outs) info =
     res_bind (idx info i) (\<lambda>ka.
     res_bind (token_serialize C st (data (account ka))) (\<lambda>d.
     res_bind (modify_account i (\<lambda>a. a\<lparr>data := d\<rparr>) info) (token_write C outs)))"

fun token_dispatch ::
  "token_instruction \<Rightarrow> keyed_account list \<Rightarrow> token_state list \<Rightarrow> (token_error, token_outputs) res" where
  "token_dispatch (NewToken ti) info ins = process_newtoken info ti ins"
| "token_dispatch NewTokenAccount info ins = process_newaccount info ins"
| "token_dispatch (TokenTransfer amt) info ins = process_transfer info amt ins"
| "token_dispatch (Approve amt) info ins = process_approve info amt ins"
| "token_dispatch SetOwner info ins = process_setowner info ins"

definition token_process ::
  "token_codecs \<Rightarrow> pubkey \<Rightarrow> keyed_account list \<Rightarrow> bytes \<Rightarrow> (token_error, keyed_account list) res" where
  "token_process C program_id info input =
     res_bind (ok_or TokenInvalidArgument (deserialize (token_instruction_codec C) input)) (\<lambda>command.
     res_bind (idx info 0) (\<lambda>ka.
       if signer_key ka = None then Err TokenInvalidArgument
       else
         res_bind (token_dispatch command info (map (token_input C program_id) info)) (\<lambda>outs.
           token_write C outs info)))"

definition token_process_instruction :: "token_codecs \<Rightarrow> process_instruction" where
  "token_process_instruction C program_id info input tick_height =
     map_err (\<lambda>e. CustomError (token_error_code e)) (token_process C program_id info input)"

section \<open>Serialisation\<close>

definition token_codecs_ok :: "token_codecs \<Rightarrow> bool" where
  "token_codecs_ok C \<longleftrightarrow> codec_prefix_ok (token_info_codec C) \<and> codec_prefix_ok (token_account_codec C)"

fun token_bytes :: "token_codecs \<Rightarrow> token_state \<Rightarrow> bincode_error + bytes" where
  "token_bytes C (Token i) = serialize (token_info_codec C) i"
| "token_bytes C (TokenAccount a) = serialize (token_account_codec C) a"
| "token_bytes C _ = Inl OtherBincodeError"

text \<open>The bytes of the state and its tag fit the account, and the writer's buffer.\<close>

definition token_fits :: "token_codecs \<Rightarrow> token_state \<Rightarrow> bytes \<Rightarrow> bool" where
  "token_fits C st out \<longleftrightarrow>
     (case token_bytes C st of Inl _ \<Rightarrow> False | Inr bs \<Rightarrow> length bs < length out \<and> length bs \<le> 8192)"

lemma token_deserialize_serialize:
  assumes "token_codecs_ok C" "token_serialize C st out = Ok out'" "token_fits C st out"
  shows "token_deserialize C out' = Ok st"
  using assms
  by (cases out; cases st)
    (auto simp: token_serialize_def token_deserialize_def token_fits_def token_codecs_ok_def
      codec_prefix_ok_def buf_write_def split: sum.splits)

lemma token_serialize_length:
  "token_serialize C st out = Ok out' \<Longrightarrow> token_fits C st out \<Longrightarrow> length out' = length out"
  by (cases out; cases st)
    (auto simp: token_serialize_def token_fits_def buf_write_def split: sum.splits)

section \<open>The processor\<close>

definition apply_outputs :: "token_outputs \<Rightarrow> token_state list \<Rightarrow> token_state list" where
  "apply_outputs outs ins = fold (\<lambda>(i, st) l. l[i := st]) outs ins"

lemma apply_outputs_simps [simp]:
  "apply_outputs [] ins = ins"
  "apply_outputs ((i, st) # outs) ins = apply_outputs outs (ins[i := st])"
  by (simp_all add: apply_outputs_def)

lemma token_write_same_keys: "token_write C outs info = Ok info' \<Longrightarrow> same_keys info info'"
proof (induction C outs info rule: token_write.induct)
  case (2 C i st outs info)
  then show ?case by (auto intro: same_keys_trans [OF same_keys_update_account])
qed simp

lemma token_write_difs:
  "token_write C outs info = Ok info' \<Longrightarrow>
     map (\<lambda>ka. (difs (account ka), owner (account ka))) info' =
     map (\<lambda>ka. (difs (account ka), owner (account ka))) info"
proof (induction C outs info rule: token_write.induct)
  case (2 C i st outs info)
  then show ?case by (auto simp: map_list_update_same)
qed simp

lemma token_write_inputs:
  assumes "token_codecs_ok C" "token_write C outs info = Ok info'" "distinct (map fst outs)"
    "\<forall>(i, st) \<in> set outs. token_fits C st (data (account (info ! i))) \<and> owner (account (info ! i)) = pid"
  shows "map (token_input C pid) info' = apply_outputs outs (map (token_input C pid) info)"
  using assms
proof (induction C outs info rule: token_write.induct)
  case (2 C i st outs info)
  from 2(3) obtain d where i: "i < length info"
    and d: "token_serialize C st (data (account (info ! i))) = Ok d"
    and w: "token_write C outs (info[i := (info ! i)\<lparr>account := (account (info ! i))\<lparr>data := d\<rparr>\<rparr>]) = Ok info'"
    by auto
  let ?info1 = "info[i := (info ! i)\<lparr>account := (account (info ! i))\<lparr>data := d\<rparr>\<rparr>]"
  have fit: "token_fits C st (data (account (info ! i)))" "owner (account (info ! i)) = pid"
    using 2(5) by auto
  have "\<forall>(j, st) \<in> set outs. token_fits C st (data (account (?info1 ! j))) \<and> owner (account (?info1 ! j)) = pid"
    using 2(4,5) by (auto simp: nth_list_update image_iff split: prod.splits)
  with 2(1) [of ?info1] have
    "map (token_input C pid) info' = apply_outputs outs (map (token_input C pid) ?info1)"
    using i d w 2(2,4) by simp
  moreover have "map (token_input C pid) ?info1 = (map (token_input C pid) info)[i := st]"
    using token_deserialize_serialize [OF 2(2) d fit(1)] fit(2)
    by (simp add: map_update token_input_def)
  ultimately show ?case by simp
qed simp

lemma token_process_Ok:
  "token_process C pid info input = Ok info' \<Longrightarrow>
     \<exists>command outs. deserialize (token_instruction_codec C) input = Some command \<and>
       info \<noteq> [] \<and> is_signer (info ! 0) \<and>
       token_dispatch command info (map (token_input C pid) info) = Ok outs \<and>
       token_write C outs info = Ok info'"
  by (auto simp: token_process_def split: if_splits)

interpretation token: native_program "token_process_instruction C"
proof unfold_locales
  fix pid kas ix tick kas'
  assume "token_process_instruction C pid kas ix tick = Ok kas'"
  then obtain outs where w: "token_write C outs kas = Ok kas'"
    by (auto simp: token_process_instruction_def dest!: token_process_Ok)
  show "same_keys kas kas'" by (rule token_write_same_keys [OF w])
  show "total_difs kas' = total_difs kas"
    using arg_cong [OF token_write_difs [OF w], of "map fst"] by (simp add: o_def)
qed

section \<open>Transfers\<close>

lemma process_transfer_Ok:
  assumes "process_transfer info amt ins = Ok outs"
  shows "\<exists>src dest. 3 \<le> length ins \<and> ins ! 1 = TokenAccount src \<and> ins ! 2 = TokenAccount dest \<and>
     token src = token dest \<and> delegate dest = None \<and> info \<noteq> [] \<and> is_signer (info ! 0) \<and>
     key (info ! 0) = token_owner src \<and> amt \<le> amount src \<and>
     (delegate src = None \<and>
        outs = [(1, TokenAccount (src\<lparr>amount := amount src - amt\<rparr>)),
                (2, TokenAccount (dest\<lparr>amount := amount dest + amt\<rparr>))] \<or>
      (\<exists>di real. delegate src = Some di \<and> length ins = 4 \<and> ins ! 3 = TokenAccount real \<and>
        token real = token src \<and> 3 < length info \<and> key (info ! 3) = source di \<and> amt \<le> amount real \<and>
        outs = [(1, TokenAccount (src\<lparr>amount := amount src - amt\<rparr>)),
                (3, TokenAccount (real\<lparr>amount := amount real - amt\<rparr>)),
                (2, TokenAccount (dest\<lparr>amount := amount dest + amt\<rparr>))]))"
proof -
  have len: "3 \<le> length ins" using assms by (auto simp: process_transfer_def not_less split: if_splits)
  obtain src dest where sd: "ins ! 1 = TokenAccount src" "ins ! 2 = TokenAccount dest"
    using assms by (cases "ins ! 1"; cases "ins ! 2") (auto simp: process_transfer_def split: if_splits)
  note r = assms [unfolded process_transfer_def sd, simplified]
  show ?thesis
  proof (cases "delegate src")
    case None
    then show ?thesis using r len sd by (auto simp: not_less split: if_splits)
  next
    case (Some di)
    with r obtain real where "ins ! 3 = TokenAccount real"
      by (cases "ins ! 3") (auto split: if_splits)
    then show ?thesis using Some r len sd by (auto simp: not_less unsigned_key_def split: if_splits)
  qed
qed

text \<open>
  The tokens of kind \<open>k\<close> that an account really holds: the amount of a delegate account is only an
  allowance.
\<close>

definition holding :: "pubkey \<Rightarrow> token_state \<Rightarrow> u64" where
  "holding k st =
     (case st of
        TokenAccount a \<Rightarrow> if token a = k \<and> delegate a = None then amount a else 0
      | _ \<Rightarrow> 0)"

abbreviation holdings :: "pubkey \<Rightarrow> token_state list \<Rightarrow> u64" where
  "holdings k ins \<equiv> sum_list (map (holding k) ins)"

lemma transfer_holdings:
  assumes "process_transfer info amt ins = Ok outs"
    "\<And>a. length ins = 4 \<Longrightarrow> ins ! 3 = TokenAccount a \<Longrightarrow> delegate a = None"
  shows "holdings k (apply_outputs outs ins) = holdings k ins"
proof -
  from process_transfer_Ok [OF assms(1)] obtain src dest where
    sd: "3 \<le> length ins" "ins ! 1 = TokenAccount src" "ins ! 2 = TokenAccount dest"
      "token src = token dest" "delegate dest = None"
    and outs: "delegate src = None \<and>
        outs = [(1, TokenAccount (src\<lparr>amount := amount src - amt\<rparr>)),
                (2, TokenAccount (dest\<lparr>amount := amount dest + amt\<rparr>))] \<or>
      (\<exists>di real. delegate src = Some di \<and> length ins = 4 \<and> ins ! 3 = TokenAccount real \<and>
        token real = token src \<and>
        outs = [(1, TokenAccount (src\<lparr>amount := amount src - amt\<rparr>)),
                (3, TokenAccount (real\<lparr>amount := amount real - amt\<rparr>)),
                (2, TokenAccount (dest\<lparr>amount := amount dest + amt\<rparr>))])"
    by blast
  from outs show ?thesis
  proof (elim disjE exE conjE)
    assume "delegate src = None"
      "outs = [(1, TokenAccount (src\<lparr>amount := amount src - amt\<rparr>)),
               (2, TokenAccount (dest\<lparr>amount := amount dest + amt\<rparr>))]"
    then show ?thesis using sd by (simp add: sum_list_list_update holding_def)
  next
    fix di real
    assume "delegate src = Some di" "length ins = 4" "ins ! 3 = TokenAccount real" "token real = token src"
      "outs = [(1, TokenAccount (src\<lparr>amount := amount src - amt\<rparr>)),
               (3, TokenAccount (real\<lparr>amount := amount real - amt\<rparr>)),
               (2, TokenAccount (dest\<lparr>amount := amount dest + amt\<rparr>))]"
    then show ?thesis using sd assms(2) [of real] by (simp add: sum_list_list_update holding_def)
  qed
qed

section \<open>Properties\<close>

text \<open>
  A token transfer, in full. It takes three accounts, a source and a destination of the same
  token, a destination that is no delegate, the signature of the source's owner and a source that
  can afford the amount; a delegate source also needs the account it delegates for, with the same
  token and enough of it. Then exactly those balances change.
\<close>

theorem token_transfer_spec:
  assumes "process_transfer info amt ins = Ok outs"
  shows "\<exists>src dest. ins ! 1 = TokenAccount src \<and> ins ! 2 = TokenAccount dest \<and>
     token src = token dest \<and> delegate dest = None \<and>
     is_signer (info ! 0) \<and> key (info ! 0) = token_owner src \<and> amt \<le> amount src \<and>
     (case delegate src of
        None \<Rightarrow> apply_outputs outs ins =
          ins[1 := TokenAccount (src\<lparr>amount := amount src - amt\<rparr>),
              2 := TokenAccount (dest\<lparr>amount := amount dest + amt\<rparr>)]
      | Some di \<Rightarrow> \<exists>real. ins ! 3 = TokenAccount real \<and> key (info ! 3) = source di \<and>
          token real = token src \<and> amt \<le> amount real \<and>
          apply_outputs outs ins =
            ins[1 := TokenAccount (src\<lparr>amount := amount src - amt\<rparr>),
                3 := TokenAccount (real\<lparr>amount := amount real - amt\<rparr>),
                2 := TokenAccount (dest\<lparr>amount := amount dest + amt\<rparr>)])"
  using process_transfer_Ok [OF assms] by (elim exE conjE disjE) simp_all

definition demo_token_account :: "u8 \<Rightarrow> u64 \<Rightarrow> token_account_info" where
  "demo_token_account own amt = \<lparr>token = demo_key 9, token_owner = demo_key own, amount = amt, delegate = None\<rparr>"

lemma demo_token_transfer:
  "process_transfer [demo_keyed True 1 1, demo_keyed False 2 1, demo_keyed False 3 1] 4
     [TokenInvalid, TokenAccount (demo_token_account 1 10), TokenAccount (demo_token_account 5 0)] =
   Ok [(1, TokenAccount (demo_token_account 1 6)), (2, TokenAccount (demo_token_account 5 4))]"
  by (simp add: process_transfer_def demo_token_account_def demo_keyed_def keyed_account_new_def
      unwrap_def signer_key_def)

theorem token_transfer_spec_witness:
  "\<exists>src. TokenAccount (demo_token_account 1 10) = TokenAccount src \<and> 4 \<le> amount src"
  using token_transfer_spec [OF demo_token_transfer] by auto

text \<open>
  C24: transfers conserve tokens. When a transfer instruction succeeds, on accounts large enough
  for the states written and with a real account behind a delegate, the tokens held of every
  kind over all the instruction's accounts are what they were, and so are the difs.
\<close>

theorem token_transfer_conserves:
  assumes "token_codecs_ok C"
    "deserialize (token_instruction_codec C) input = Some (TokenTransfer amt)"
    "token_process_instruction C pid info input tick = Ok info'"
    "\<And>outs i st. process_transfer info amt (map (token_input C pid) info) = Ok outs \<Longrightarrow>
       (i, st) \<in> set outs \<Longrightarrow> token_fits C st (data (account (info ! i)))"
    "\<And>a. length info = 4 \<Longrightarrow> token_input C pid (info ! 3) = TokenAccount a \<Longrightarrow> delegate a = None"
  shows "holdings k (map (token_input C pid) info') = holdings k (map (token_input C pid) info) \<and>
         total_difs info' = total_difs info"
proof -
  let ?ins = "map (token_input C pid) info"
  obtain outs where o: "process_transfer info amt ?ins = Ok outs" and w: "token_write C outs info = Ok info'"
    using assms(2,3) by (auto simp: token_process_instruction_def dest!: token_process_Ok)
  have own: "owner (account (info ! i)) = pid" if "i < length info" "?ins ! i = TokenAccount a" for i a
    using that by (auto simp: token_input_def split: if_splits)
  have outs: "distinct (map fst outs) \<and> (\<forall>(i, st) \<in> set outs. owner (account (info ! i)) = pid)"
    using process_transfer_Ok [OF o] by (elim exE conjE disjE) (auto simp: own)
  have "map (token_input C pid) info' = apply_outputs outs ?ins"
    using assms(4) [OF o] outs by (intro token_write_inputs [OF assms(1) w]) auto
  moreover have "holdings k (apply_outputs outs ?ins) = holdings k ?ins"
    using assms(5) by (intro transfer_holdings [OF o]) simp
  moreover have "total_difs info' = total_difs info" by (rule token.process_balanced [OF assms(3)])
  ultimately show ?thesis by simp
qed

definition demo_token_codecs :: token_codecs where
  "demo_token_codecs = \<lparr>token_info_codec = table_codec [],
     token_account_codec = table_codec (map (\<lambda>(o', a). demo_token_account o' a) [(1, 10), (5, 0), (1, 6), (5, 4)]),
     token_instruction_codec = table_codec [TokenTransfer 4],
     overflowing_write = (\<lambda>_ _. Err TokenInvalidArgument)\<rparr>"

definition demo_token_keyed :: "u8 \<Rightarrow> u8 \<Rightarrow> keyed_account" where
  "demo_token_keyed k b =
     keyed_account_new (demo_key k) False ((account_new 1 0 2 token_program_id)\<lparr>data := [2, b]\<rparr>)"

lemma system_not_token: "system_program_id \<noteq> token_program_id"
  by (simp add: system_program_id_def token_program_id_def)

lemma demo_token_inputs:
  "map (token_input demo_token_codecs token_program_id)
     [demo_keyed True 1 1, demo_token_keyed 2 0, demo_token_keyed 3 1] =
   [TokenInvalid, TokenAccount (demo_token_account 1 10), TokenAccount (demo_token_account 5 0)]"
  by (simp add: token_input_def demo_token_keyed_def keyed_account_new_def account_new_def
      demo_keyed_def token_deserialize_def demo_token_codecs_def system_not_token)

lemma demo_token_process_transfer:
  "process_transfer [demo_keyed True 1 1, demo_token_keyed 2 0, demo_token_keyed 3 1] 4
     [TokenInvalid, TokenAccount (demo_token_account 1 10), TokenAccount (demo_token_account 5 0)] =
   Ok [(1, TokenAccount (demo_token_account 1 6)), (2, TokenAccount (demo_token_account 5 4))]"
  by (simp add: process_transfer_def demo_token_account_def demo_keyed_def keyed_account_new_def
      unwrap_def signer_key_def)

lemma demo_token_process:
  "token_process_instruction demo_token_codecs token_program_id
     [demo_keyed True 1 1, demo_token_keyed 2 0, demo_token_keyed 3 1] [0] 0 =
   Ok [demo_keyed True 1 1, demo_token_keyed 2 2, demo_token_keyed 3 3]"
proof -
  have c: "deserialize (token_instruction_codec demo_token_codecs) [0] = Some (TokenTransfer 4)"
    by (simp add: demo_token_codecs_def)
  have s: "signer_key (demo_keyed True 1 1) \<noteq> None" by (simp add: demo_keyed_def keyed_account_new_def)
  have w: "token_write demo_token_codecs
      [(1, TokenAccount (demo_token_account 1 6)), (2, TokenAccount (demo_token_account 5 4))]
      [demo_keyed True 1 1, demo_token_keyed 2 0, demo_token_keyed 3 1] =
      Ok [demo_keyed True 1 1, demo_token_keyed 2 2, demo_token_keyed 3 3]"
    by (simp add: demo_token_keyed_def keyed_account_new_def account_new_def token_serialize_def
        buf_write_def demo_token_codecs_def table_codec_def demo_token_account_def)
  show ?thesis
    using s w unfolding token_process_instruction_def token_process_def demo_token_inputs
    by (simp add: c demo_token_process_transfer)
qed

theorem token_transfer_conserves_witness:
  "holdings (demo_key 9) (map (token_input demo_token_codecs token_program_id)
     [demo_keyed True 1 1, demo_token_keyed 2 2, demo_token_keyed 3 3]) =
   holdings (demo_key 9) (map (token_input demo_token_codecs token_program_id)
     [demo_keyed True 1 1, demo_token_keyed 2 0, demo_token_keyed 3 1])"
proof -
  have ok: "token_codecs_ok demo_token_codecs"
    by (simp add: token_codecs_ok_def demo_token_codecs_def table_codec_prefix_ok)
  have c: "deserialize (token_instruction_codec demo_token_codecs) [0] = Some (TokenTransfer 4)"
    by (simp add: demo_token_codecs_def)
  have fits: "token_fits demo_token_codecs st
      (data (account ([demo_keyed True 1 1, demo_token_keyed 2 0, demo_token_keyed 3 1] ! i)))"
    if "process_transfer [demo_keyed True 1 1, demo_token_keyed 2 0, demo_token_keyed 3 1] 4
          (map (token_input demo_token_codecs token_program_id)
            [demo_keyed True 1 1, demo_token_keyed 2 0, demo_token_keyed 3 1]) = Ok outs"
       "(i, st) \<in> set outs" for outs i st
    using that unfolding demo_token_inputs demo_token_process_transfer
    by (auto simp: token_fits_def demo_token_keyed_def keyed_account_new_def account_new_def
        demo_token_codecs_def table_codec_def demo_token_account_def)
  from token_transfer_conserves [OF ok c demo_token_process fits] show ?thesis by simp
qed

text \<open>
  A token state that was written to an account large enough for it is read back, and the
  account keeps its size.
\<close>

theorem token_state_roundtrip:
  assumes "token_codecs_ok C" "token_fits C st out" "token_serialize C st out = Ok out'"
  shows "token_deserialize C out' = Ok st \<and> length out' = length out"
  using token_deserialize_serialize [OF assms(1,3,2)] token_serialize_length [OF assms(3,2)] by simp

theorem token_state_roundtrip_witness:
  "token_deserialize demo_token_codecs [2, 0, 0] = Ok (TokenAccount (demo_token_account 1 10))"
proof -
  have "token_codecs_ok demo_token_codecs"
    by (simp add: token_codecs_ok_def demo_token_codecs_def table_codec_prefix_ok)
  moreover have "token_fits demo_token_codecs (TokenAccount (demo_token_account 1 10)) [0, 0, 0]"
    by (simp add: token_fits_def demo_token_codecs_def table_codec_def)
  moreover have "token_serialize demo_token_codecs (TokenAccount (demo_token_account 1 10)) [0, 0, 0] = Ok [2, 0, 0]"
    by (simp add: token_serialize_def buf_write_def demo_token_codecs_def table_codec_def)
  ultimately show ?thesis using token_state_roundtrip by blast
qed

text \<open>
  When the account is too small the write still succeeds: the buffered writer loses the rest of
  the state when it is dropped.
\<close>

lemma token_serialize_truncates:
  assumes "serialize (token_account_codec C) a = Inr bs" "length out < length bs" "length bs \<le> 8192"
  shows "token_serialize C (TokenAccount a) (b # out) = Ok (2 # take (length out) bs)"
  using assms by (simp add: token_serialize_def buf_write_def)

end
