(* ===== verification/Exchange_Program.thy ===== *)
theory Exchange_Program
  imports Message_Processor
begin

text \<open>
  The exchange program, \<^verbatim>\<open>src/controllers/exchange_api/src\<close>: four token types, token accounts, trade
  orders and the matching of two orders with the broker's profit (\<^verbatim>\<open>exchange_state.rs\<close>,
  \<^verbatim>\<open>exchange_processor.rs\<close>), and the instruction builders (\<^verbatim>\<open>exchange_instruction.rs\<close>). States are
  written through a \<open>BufWriter\<close> whose buffer they always fit, so a state longer than the account
  is cut without an error, as in the token program.
\<close>

section \<open>State\<close>

definition exchange_program_id :: pubkey where
  "exchange_program_id = Pubkey
     [3, 147, 111, 103, 210, 47, 14, 213, 108, 116, 49, 115, 232, 171, 14, 111, 167, 140, 221, 234,
      33, 70, 185, 192, 42, 31, 141, 152, 0, 0, 0, 0]"

definition faucet_id :: pubkey where
  "faucet_id = Pubkey
     [3, 147, 111, 103, 210, 47, 23, 11, 176, 29, 147, 89, 237, 155, 21, 62, 107, 105, 157, 1, 98,
      204, 206, 211, 54, 212, 79, 15, 160, 0, 0, 0]"

definition SCALER :: u64 where
  "SCALER = 1000"

datatype xtoken = TokenA | TokenB | TokenC | TokenD

record xtokens =
  tokens_A :: u64
  tokens_B :: u64
  tokens_C :: u64
  tokens_D :: u64

definition xtokens_new :: "u64 \<Rightarrow> u64 \<Rightarrow> u64 \<Rightarrow> u64 \<Rightarrow> xtokens" where
  "xtokens_new a b c d = \<lparr>tokens_A = a, tokens_B = b, tokens_C = c, tokens_D = d\<rparr>"

fun tokens_index :: "xtokens \<Rightarrow> xtoken \<Rightarrow> u64" where
  "tokens_index ts TokenA = tokens_A ts"
| "tokens_index ts TokenB = tokens_B ts"
| "tokens_index ts TokenC = tokens_C ts"
| "tokens_index ts TokenD = tokens_D ts"

fun tokens_set :: "xtoken \<Rightarrow> u64 \<Rightarrow> xtokens \<Rightarrow> xtokens" where
  "tokens_set TokenA v ts = ts\<lparr>tokens_A := v\<rparr>"
| "tokens_set TokenB v ts = ts\<lparr>tokens_B := v\<rparr>"
| "tokens_set TokenC v ts = ts\<lparr>tokens_C := v\<rparr>"
| "tokens_set TokenD v ts = ts\<lparr>tokens_D := v\<rparr>"

datatype token_pair = AB | AC | AD | BC | BD | CD

fun primary :: "token_pair \<Rightarrow> xtoken" where
  "primary AB = TokenA" | "primary AC = TokenA" | "primary AD = TokenA"
| "primary BC = TokenB" | "primary BD = TokenB" | "primary CD = TokenC"

fun secondary :: "token_pair \<Rightarrow> xtoken" where
  "secondary AB = TokenB" | "secondary AC = TokenC" | "secondary BC = TokenC"
| "secondary AD = TokenD" | "secondary BD = TokenD" | "secondary CD = TokenD"

record xaccount_info =
  xa_owner :: pubkey
  xa_tokens :: xtokens

definition xaccount_owned :: "pubkey \<Rightarrow> xaccount_info" where
  "xaccount_owned own = \<lparr>xa_owner = own, xa_tokens = xtokens_new 0 0 0 0\<rparr>"

datatype direction = DirTo | DirFrom

record trade_order_info =
  trade_owner :: pubkey
  trade_direction :: direction
  trade_pair :: token_pair
  trade_tokens :: u64
  trade_price :: u64
  tokens_settled :: u64

text \<open>Division panics on zero.\<close>

definition checked_div :: "u64 \<Rightarrow> u64 \<Rightarrow> ('e, u64) res" where
  "checked_div a b = (if b = 0 then Panic else Ok (a div b))"

datatype exchange_error = InvalidTrade

definition check_trade :: "direction \<Rightarrow> u64 \<Rightarrow> u64 \<Rightarrow> (exchange_error, unit) res" where
  "check_trade dir ts price =
     res_bind (case dir of
         DirTo \<Rightarrow> checked_div (ts * price) SCALER
       | DirFrom \<Rightarrow> checked_div (ts * SCALER) price) (\<lambda>n.
       if n = 0 then Err InvalidTrade else Ok ())"

datatype exchange_state =
    XUnallocated
  | XAccount xaccount_info
  | XTrade trade_order_info
  | XInvalid

section \<open>Instructions\<close>

record trade_request_info =
  req_direction :: direction
  req_pair :: token_pair
  req_tokens :: u64
  req_price :: u64

datatype exchange_instruction =
    AccountRequest
  | TransferRequest xtoken u64
  | TradeRequest trade_request_info
  | TradeCancellation
  | SwapRequest

definition account_request :: "exchange_instruction codec \<Rightarrow> pubkey \<Rightarrow> pubkey \<Rightarrow> ('e, instruction) res" where
  "account_request c own new =
     instruction_new c exchange_program_id AccountRequest
       [account_meta_new own True, account_meta_new new False]"

definition transfer_request ::
  "exchange_instruction codec \<Rightarrow> pubkey \<Rightarrow> pubkey \<Rightarrow> pubkey \<Rightarrow> xtoken \<Rightarrow> u64 \<Rightarrow> ('e, instruction) res" where
  "transfer_request c own to from t n =
     instruction_new c exchange_program_id (TransferRequest t n)
       [account_meta_new own True, account_meta_new to False, account_meta_new from False]"

definition trade_request ::
  "exchange_instruction codec \<Rightarrow> pubkey \<Rightarrow> pubkey \<Rightarrow> trade_request_info \<Rightarrow> pubkey \<Rightarrow> ('e, instruction) res" where
  "trade_request c own trade info src =
     instruction_new c exchange_program_id (TradeRequest info)
       [account_meta_new own True, account_meta_new trade False, account_meta_new src False]"

definition trade_cancellation ::
  "exchange_instruction codec \<Rightarrow> pubkey \<Rightarrow> pubkey \<Rightarrow> ('e, instruction) res" where
  "trade_cancellation c own trade =
     instruction_new c exchange_program_id TradeCancellation
       [account_meta_new own True, account_meta_new trade False]"

definition swap_request ::
  "exchange_instruction codec \<Rightarrow> pubkey \<Rightarrow> pubkey \<Rightarrow> pubkey \<Rightarrow> pubkey \<Rightarrow> ('e, instruction) res" where
  "swap_request c own to_trade from_trade profit =
     instruction_new c exchange_program_id SwapRequest
       [account_meta_new own True, account_meta_new to_trade False, account_meta_new from_trade False,
        account_meta_new profit False]"

section \<open>The processor\<close>

definition is_account_unallocated :: "exchange_state codec \<Rightarrow> bytes \<Rightarrow> unit ix_result" where
  "is_account_unallocated c d =
     res_bind (ok_or InvalidArgument (deserialize c d)) (\<lambda>st.
       if st = XUnallocated then Ok () else Err InvalidAccountData)"

definition deserialize_account :: "exchange_state codec \<Rightarrow> bytes \<Rightarrow> xaccount_info ix_result" where
  "deserialize_account c d =
     res_bind (ok_or InvalidArgument (deserialize c d)) (\<lambda>st.
       case st of XAccount a \<Rightarrow> Ok a | _ \<Rightarrow> Err InvalidAccountData)"

definition deserialize_trade :: "exchange_state codec \<Rightarrow> bytes \<Rightarrow> trade_order_info ix_result" where
  "deserialize_trade c d =
     res_bind (ok_or InvalidArgument (deserialize c d)) (\<lambda>st.
       case st of XTrade t \<Rightarrow> Ok t | _ \<Rightarrow> Err InvalidAccountData)"

definition exchange_serialize :: "exchange_state codec \<Rightarrow> exchange_state \<Rightarrow> bytes \<Rightarrow> bytes ix_result" where
  "exchange_serialize c st d =
     (case serialize c st of
        Inl _ \<Rightarrow> Err GenericError
      | Inr bs \<Rightarrow> Ok (take (length d) bs @ drop (length bs) d))"

definition exchange_put ::
  "exchange_state codec \<Rightarrow> nat \<Rightarrow> exchange_state \<Rightarrow> keyed_account list \<Rightarrow> keyed_account list ix_result" where
  "exchange_put c i st kas =
     res_bind (idx kas i) (\<lambda>ka.
     res_bind (exchange_serialize c st (data (account ka))) (\<lambda>d.
       modify_account i (\<lambda>a. a\<lparr>data := d\<rparr>) kas))"

definition trade_to_token_account :: "trade_order_info \<Rightarrow> xaccount_info" where
  "trade_to_token_account trade =
     (let t = (case trade_direction trade of
                 DirTo \<Rightarrow> secondary (trade_pair trade)
               | DirFrom \<Rightarrow> primary (trade_pair trade));
          a = xaccount_owned (trade_owner trade)
      in a\<lparr>xa_tokens := tokens_set t (tokens_settled trade) (xa_tokens a)\<rparr>)"

definition add_tokens :: "xtoken \<Rightarrow> u64 \<Rightarrow> xaccount_info \<Rightarrow> xaccount_info" where
  "add_tokens t n a = a\<lparr>xa_tokens := tokens_set t (tokens_index (xa_tokens a) t + n) (xa_tokens a)\<rparr>"

definition sub_tokens :: "xtoken \<Rightarrow> u64 \<Rightarrow> xaccount_info \<Rightarrow> xaccount_info" where
  "sub_tokens t n a = a\<lparr>xa_tokens := tokens_set t (tokens_index (xa_tokens a) t - n) (xa_tokens a)\<rparr>"

definition calculate_swap ::
  "u64 \<Rightarrow> trade_order_info \<Rightarrow> trade_order_info \<Rightarrow> xaccount_info \<Rightarrow>
     (trade_order_info \<times> trade_order_info \<times> xaccount_info) ix_result" where
  "calculate_swap scaler to_trade from_trade profit =
     (if trade_tokens to_trade = 0 \<or> trade_tokens from_trade = 0 then Err InvalidArgument
      else if trade_price to_trade = 0 \<or> trade_price from_trade = 0 then Err InvalidArgument
      else
        res_bind (checked_div (trade_tokens to_trade * trade_price to_trade) scaler) (\<lambda>max_to_secondary.
        res_bind (checked_div (trade_tokens from_trade * scaler) (trade_price from_trade)) (\<lambda>max_to_primary.
        let max_primary = min max_to_primary (trade_tokens to_trade);
            max_secondary = min max_to_secondary (trade_tokens from_trade)
        in
        res_bind (if max_secondary < max_primary
                  then checked_div (max_secondary * scaler) (trade_price from_trade)
                  else Ok max_primary) (\<lambda>primary_tokens.
        res_bind (if max_secondary < max_primary
                  then Ok max_secondary
                  else checked_div (max_primary * trade_price to_trade) scaler) (\<lambda>secondary_tokens.
        if primary_tokens = 0 \<or> secondary_tokens = 0 then Err InvalidArgument
        else
        res_bind (checked_div (secondary_tokens * scaler) (trade_price to_trade)) (\<lambda>pc.
        res_bind (checked_div (primary_tokens * trade_price from_trade) scaler) (\<lambda>sc.
        let primary_cost = max primary_tokens pc;
            secondary_cost = max secondary_tokens sc;
            primary_profit = primary_cost - primary_tokens;
            secondary_profit = secondary_cost - secondary_tokens
        in
        if trade_tokens to_trade < primary_cost then Err InvalidArgument
        else if trade_tokens from_trade < secondary_cost then Err InvalidArgument
        else
          Ok (to_trade\<lparr>trade_tokens := trade_tokens to_trade - primary_cost,
                       tokens_settled := tokens_settled to_trade + secondary_tokens\<rparr>,
              from_trade\<lparr>trade_tokens := trade_tokens from_trade - secondary_cost,
                         tokens_settled := tokens_settled from_trade + primary_tokens\<rparr>,
              add_tokens (secondary (trade_pair from_trade)) secondary_profit
                (add_tokens (primary (trade_pair to_trade)) primary_profit profit)))))))))"

definition do_account_request ::
  "exchange_state codec \<Rightarrow> keyed_account list \<Rightarrow> keyed_account list ix_result" where
  "do_account_request c kas =
     (if length kas < 2 then Err InvalidArgument
      else
        res_bind (is_account_unallocated c (data (account (kas ! 1)))) (\<lambda>_.
          exchange_put c 1 (XAccount ((xaccount_owned (unsigned_key (kas ! 0)))
            \<lparr>xa_tokens := xtokens_new 100000 100000 100000 100000\<rparr>)) kas))"

definition do_transfer_request ::
  "exchange_state codec \<Rightarrow> keyed_account list \<Rightarrow> xtoken \<Rightarrow> u64 \<Rightarrow> keyed_account list ix_result" where
  "do_transfer_request c kas t n =
     (if length kas < 3 then Err InvalidArgument
      else
        res_bind (deserialize_account c (data (account (kas ! 1)))) (\<lambda>to_account.
        res_bind
          (if faucet_id = unsigned_key (kas ! 2) then Ok kas
           else
             res_bind (ok_or InvalidArgument (deserialize c (data (account (kas ! 2))))) (\<lambda>st.
               case st of
                 XAccount from_account \<Rightarrow>
                   if xa_owner from_account \<noteq> unsigned_key (kas ! 0) then Err GenericError
                   else if tokens_index (xa_tokens from_account) t < n then Err GenericError
                   else exchange_put c 2 (XAccount (sub_tokens t n from_account)) kas
               | XTrade from_trade \<Rightarrow>
                   if trade_owner from_trade \<noteq> unsigned_key (kas ! 0) then Err GenericError
                   else if t \<noteq> (case trade_direction from_trade of
                                   DirTo \<Rightarrow> secondary (trade_pair from_trade)
                                 | DirFrom \<Rightarrow> primary (trade_pair from_trade)) then Err GenericError
                   else if tokens_settled from_trade < n then Err GenericError
                   else exchange_put c 2
                          (XTrade (from_trade\<lparr>tokens_settled := tokens_settled from_trade - n\<rparr>)) kas
               | _ \<Rightarrow> Err InvalidArgument))
          (\<lambda>kas. exchange_put c 1 (XAccount (add_tokens t n to_account)) kas)))"

text \<open>The error of \<open>check_trade\<close> is serialised and dropped; only its panic is felt.\<close>

definition do_trade_request ::
  "exchange_state codec \<Rightarrow> keyed_account list \<Rightarrow> trade_request_info \<Rightarrow> keyed_account list ix_result" where
  "do_trade_request c kas info =
     (if length kas < 3 then Err InvalidArgument
      else
        res_bind (is_account_unallocated c (data (account (kas ! 1)))) (\<lambda>_.
        res_bind (deserialize_account c (data (account (kas ! 2)))) (\<lambda>a.
          if xa_owner a \<noteq> unsigned_key (kas ! 0) then Err GenericError
          else
            let from_token = (case req_direction info of
                                DirTo \<Rightarrow> primary (req_pair info)
                              | DirFrom \<Rightarrow> secondary (req_pair info))
            in
            if tokens_index (xa_tokens a) from_token < req_tokens info then Err GenericError
            else case check_trade (req_direction info) (req_tokens info) (req_price info) of
              Panic \<Rightarrow> Panic
            | _ \<Rightarrow>
              res_bind (exchange_put c 1 (XTrade
                  \<lparr>trade_owner = unsigned_key (kas ! 0), trade_direction = req_direction info,
                   trade_pair = req_pair info, trade_tokens = req_tokens info,
                   trade_price = req_price info, tokens_settled = 0\<rparr>) kas)
                (exchange_put c 2 (XAccount (sub_tokens from_token (req_tokens info) a))))))"

definition do_trade_cancellation ::
  "exchange_state codec \<Rightarrow> keyed_account list \<Rightarrow> keyed_account list ix_result" where
  "do_trade_cancellation c kas =
     (if length kas < 2 then Err InvalidArgument
      else
        res_bind (deserialize_trade c (data (account (kas ! 1)))) (\<lambda>trade.
          if trade_owner trade \<noteq> unsigned_key (kas ! 0) then Err GenericError
          else
            let t = (case trade_direction trade of
                       DirTo \<Rightarrow> primary (trade_pair trade)
                     | DirFrom \<Rightarrow> secondary (trade_pair trade));
                a = xaccount_owned (trade_owner trade);
                a = a\<lparr>xa_tokens := tokens_set t (trade_tokens trade) (xa_tokens a)\<rparr>
            in exchange_put c 1 (XAccount (add_tokens t (tokens_settled trade) a)) kas))"

definition do_swap_request ::
  "exchange_state codec \<Rightarrow> keyed_account list \<Rightarrow> keyed_account list ix_result" where
  "do_swap_request c kas =
     (if length kas < 4 then Err InvalidArgument
      else
        res_bind (deserialize_trade c (data (account (kas ! 1)))) (\<lambda>to_trade.
        res_bind (deserialize_trade c (data (account (kas ! 2)))) (\<lambda>from_trade.
        res_bind (deserialize_account c (data (account (kas ! 3)))) (\<lambda>profit.
          if trade_direction to_trade \<noteq> DirTo then Err InvalidArgument
          else if trade_direction from_trade \<noteq> DirFrom then Err InvalidArgument
          else if trade_pair to_trade \<noteq> trade_pair from_trade then Err InvalidArgument
          else if trade_direction to_trade = trade_direction from_trade then Err InvalidArgument
          else
            res_bind (calculate_swap SCALER to_trade from_trade profit)
              (\<lambda>(to_trade, from_trade, profit).
            res_bind (exchange_put c 1
                (if trade_tokens to_trade = 0 then XAccount (trade_to_token_account from_trade)
                 else XTrade to_trade) kas) (\<lambda>kas.
            res_bind (exchange_put c 2
                (if trade_tokens from_trade = 0 then XAccount (trade_to_token_account from_trade)
                 else XTrade from_trade) kas)
              (exchange_put c 3 (XAccount profit))))))))"

definition exchange_process_instruction ::
  "exchange_state codec \<Rightarrow> exchange_instruction codec \<Rightarrow> process_instruction" where
  "exchange_process_instruction c ic program_id kas ix tick_height =
     res_bind (ok_or InvalidInstructionData (deserialize ic ix)) (\<lambda>command.
       case command of
         AccountRequest \<Rightarrow> do_account_request c kas
       | TransferRequest t n \<Rightarrow> do_transfer_request c kas t n
       | TradeRequest info \<Rightarrow> do_trade_request c kas info
       | TradeCancellation \<Rightarrow> do_trade_cancellation c kas
       | SwapRequest \<Rightarrow> do_swap_request c kas)"

section \<open>Lemmas\<close>

lemma tokens_index_set [simp]:
  "tokens_index (tokens_set t v ts) t' = (if t' = t then v else tokens_index ts t')"
  by (cases t; cases t') simp_all

lemma tokens_index_new [simp]: "tokens_index (xtokens_new 0 0 0 0) t = 0"
  by (cases t) (simp_all add: xtokens_new_def)

lemma primary_not_secondary [simp]: "primary p \<noteq> secondary p" "secondary p \<noteq> primary p"
  by (cases p; simp)+

lemma checked_div_Ok_iff [simp]: "checked_div a b = Ok q \<longleftrightarrow> b \<noteq> 0 \<and> q = a div b"
  by (auto simp: checked_div_def)

lemma add_tokens_index [simp]:
  "tokens_index (xa_tokens (add_tokens t n a)) t' =
     tokens_index (xa_tokens a) t' + (if t' = t then n else 0)"
  by (simp add: add_tokens_def)

lemma sub_tokens_index [simp]:
  "tokens_index (xa_tokens (sub_tokens t n a)) t' =
     tokens_index (xa_tokens a) t' - (if t' = t then n else 0)"
  by (simp add: sub_tokens_def)

lemma calculate_swap_Ok:
  assumes "calculate_swap scaler tt ft pr = Ok (tt', ft', pr')"
  shows "\<exists>pt st pcost scost. pt \<noteq> 0 \<and> st \<noteq> 0 \<and> pt \<le> pcost \<and> pcost \<le> trade_tokens tt \<and>
     st \<le> scost \<and> scost \<le> trade_tokens ft \<and>
     tt' = tt\<lparr>trade_tokens := trade_tokens tt - pcost, tokens_settled := tokens_settled tt + st\<rparr> \<and>
     ft' = ft\<lparr>trade_tokens := trade_tokens ft - scost, tokens_settled := tokens_settled ft + pt\<rparr> \<and>
     pr' = add_tokens (secondary (trade_pair ft)) (scost - st)
             (add_tokens (primary (trade_pair tt)) (pcost - pt) pr)"
proof -
  let ?done = "\<lambda>pt st. pt \<noteq> 0 \<and> st \<noteq> 0 \<and>
    \<not> trade_tokens tt < max pt (st * scaler div trade_price tt) \<and>
    \<not> trade_tokens ft < max st (pt * trade_price ft div scaler) \<and>
    tt' = tt\<lparr>trade_tokens := trade_tokens tt - max pt (st * scaler div trade_price tt),
            tokens_settled := tokens_settled tt + st\<rparr> \<and>
    ft' = ft\<lparr>trade_tokens := trade_tokens ft - max st (pt * trade_price ft div scaler),
            tokens_settled := tokens_settled ft + pt\<rparr> \<and>
    pr' = add_tokens (secondary (trade_pair ft)) (max st (pt * trade_price ft div scaler) - st)
            (add_tokens (primary (trade_pair tt)) (max pt (st * scaler div trade_price tt) - pt) pr)"
  let ?mts = "trade_tokens tt * trade_price tt div scaler"
    and ?mtp = "trade_tokens ft * scaler div trade_price ft"
  let ?mp = "min ?mtp (trade_tokens tt)" and ?ms = "min ?mts (trade_tokens ft)"
  obtain pt st where "?done pt st"
  proof (cases "?ms < ?mp")
    case True
    have "?done (?ms * scaler div trade_price ft) ?ms"
      using assms True unfolding calculate_swap_def Let_def
      by (simp split: if_split_asm)
    then show ?thesis by (rule that)
  next
    case False
    have "?done ?mp (?mp * trade_price tt div scaler)"
      using assms False unfolding calculate_swap_def Let_def
      by (simp split: if_split_asm)
    then show ?thesis by (rule that)
  qed
  then show ?thesis
    by (intro exI [of _ pt] exI [of _ st] exI [of _ "max pt (st * scaler div trade_price tt)"]
        exI [of _ "max st (pt * trade_price ft div scaler)"]) (simp add: not_less)
qed

text \<open>What a state holds of a token: balances, escrow and settled amounts.\<close>

fun escrow_token :: "trade_order_info \<Rightarrow> xtoken" where
  "escrow_token tr = (case trade_direction tr of DirTo \<Rightarrow> primary (trade_pair tr) | DirFrom \<Rightarrow> secondary (trade_pair tr))"

fun settle_token :: "trade_order_info \<Rightarrow> xtoken" where
  "settle_token tr = (case trade_direction tr of DirTo \<Rightarrow> secondary (trade_pair tr) | DirFrom \<Rightarrow> primary (trade_pair tr))"

fun xheld :: "xtoken \<Rightarrow> exchange_state \<Rightarrow> u64" where
  "xheld t (XAccount a) = tokens_index (xa_tokens a) t"
| "xheld t (XTrade tr) = (if t = escrow_token tr then trade_tokens tr else 0) +
                         (if t = settle_token tr then tokens_settled tr else 0)"
| "xheld t _ = 0"

definition xheld_by :: "exchange_state codec \<Rightarrow> xtoken \<Rightarrow> keyed_account \<Rightarrow> u64" where
  "xheld_by c t ka = (case deserialize c (data (account ka)) of None \<Rightarrow> 0 | Some st \<Rightarrow> xheld t st)"

abbreviation xtotal :: "exchange_state codec \<Rightarrow> xtoken \<Rightarrow> keyed_account list \<Rightarrow> u64" where
  "xtotal c t kas \<equiv> sum_list (map (xheld_by c t) kas)"

text \<open>Every account after the signer's has room for every state.\<close>

definition room :: "exchange_state codec \<Rightarrow> keyed_account list \<Rightarrow> bool" where
  "room c kas \<longleftrightarrow>
     (\<forall>i. 0 < i \<and> i < length kas \<longrightarrow>
        (\<forall>st bs. serialize c st = Inr bs \<longrightarrow> length bs \<le> length (data (account (kas ! i)))))"

lemma exchange_put_Ok:
  "exchange_put c i st kas = Ok kas' \<Longrightarrow>
     i < length kas \<and> (\<exists>d. exchange_serialize c st (data (account (kas ! i))) = Ok d \<and>
       kas' = kas[i := (kas ! i)\<lparr>account := (account (kas ! i))\<lparr>data := d\<rparr>\<rparr>])"
  by (auto simp: exchange_put_def)

lemma exchange_put_frame:
  "exchange_put c i st kas = Ok kas' \<Longrightarrow> same_keys kas kas' \<and> total_difs kas' = total_difs kas"
  by (auto dest!: exchange_put_Ok simp: total_difs_update)

lemma exchange_put_state:
  assumes "codec_prefix_ok c" "room c kas" "0 < i" "exchange_put c i st kas = Ok kas'"
  shows "room c kas' \<and> length kas' = length kas \<and> i < length kas \<and>
         deserialize c (data (account (kas' ! i))) = Some st \<and>
         (\<forall>j. j \<noteq> i \<longrightarrow> kas' ! j = kas ! j) \<and>
         xtotal c t kas' = xtotal c t kas - xheld_by c t (kas ! i) + xheld t st"
proof -
  from exchange_put_Ok [OF assms(4)] obtain d where i: "i < length kas"
    and d: "exchange_serialize c st (data (account (kas ! i))) = Ok d"
    and k: "kas' = kas[i := (kas ! i)\<lparr>account := (account (kas ! i))\<lparr>data := d\<rparr>\<rparr>]" by blast
  from d obtain bs where bs: "serialize c st = Inr bs"
    and d': "d = take (length (data (account (kas ! i)))) bs @ drop (length bs) (data (account (kas ! i)))"
    by (auto simp: exchange_serialize_def split: sum.splits)
  have len: "length bs \<le> length (data (account (kas ! i)))"
    using assms(2,3) i bs by (auto simp: room_def)
  then have des: "deserialize c d = Some st" and ld: "length d = length (data (account (kas ! i)))"
    using assms(1) bs d' by (auto simp: codec_prefix_ok_def)
  have "xtotal c t kas' = xtotal c t kas - xheld_by c t (kas ! i) + xheld t st"
    using i des unfolding k by (simp add: sum_list_list_update) (simp add: xheld_by_def)
  moreover have "room c kas'"
    using assms(2) ld i unfolding room_def k by (auto simp: nth_list_update)
  ultimately show ?thesis using i des by (simp add: k)
qed

lemma deserialize_account_Ok_iff [simp]:
  "deserialize_account c d = Ok a \<longleftrightarrow> deserialize c d = Some (XAccount a)"
  by (cases "deserialize c d") (auto simp: deserialize_account_def split: exchange_state.split)

lemma deserialize_trade_Ok_iff [simp]:
  "deserialize_trade c d = Ok a \<longleftrightarrow> deserialize c d = Some (XTrade a)"
  by (cases "deserialize c d") (auto simp: deserialize_trade_def split: exchange_state.split)

lemma is_account_unallocated_Ok_iff [simp]:
  "is_account_unallocated c d = Ok () \<longleftrightarrow> deserialize c d = Some XUnallocated"
  by (auto simp: is_account_unallocated_def)

section \<open>Frame\<close>

definition xframe :: "keyed_account list \<Rightarrow> keyed_account list \<Rightarrow> bool" where
  "xframe kas kas' \<longleftrightarrow> same_keys kas kas' \<and> total_difs kas' = total_difs kas"

lemma xframe_refl [simp]: "xframe kas kas"
  by (simp add: xframe_def)

lemma xframe_put: "exchange_put c i st kas = Ok kas' \<Longrightarrow> xframe kas kas'"
  by (simp add: xframe_def exchange_put_frame)

lemma xframe_trans: "xframe a b \<Longrightarrow> xframe b c \<Longrightarrow> xframe a c"
  by (auto simp: xframe_def intro: same_keys_trans)

lemma do_account_request_frame: "do_account_request c kas = Ok kas' \<Longrightarrow> xframe kas kas'"
  by (auto simp: do_account_request_def intro: xframe_put split: if_splits)

lemma do_transfer_request_Ok:
  assumes "do_transfer_request c kas t n = Ok kas'"
  shows "3 \<le> length kas \<and>
    (\<exists>to_account. deserialize c (data (account (kas ! 1))) = Some (XAccount to_account) \<and>
      (key (kas ! 2) = faucet_id \<and> exchange_put c 1 (XAccount (add_tokens t n to_account)) kas = Ok kas' \<or>
       (\<exists>st st' kas1. key (kas ! 2) \<noteq> faucet_id \<and> deserialize c (data (account (kas ! 2))) = Some st \<and>
          xheld t st' = xheld t st - n \<and> (\<forall>t'. t' \<noteq> t \<longrightarrow> xheld t' st' = xheld t' st) \<and>
          exchange_put c 2 st' kas = Ok kas1 \<and>
          exchange_put c 1 (XAccount (add_tokens t n to_account)) kas1 = Ok kas')))"
proof -
  from assms obtain to_account where
    to_acc: "3 \<le> length kas" "deserialize c (data (account (kas ! 1))) = Some (XAccount to_account)"
    by (auto simp: do_transfer_request_def split: if_splits)
  show ?thesis
  proof (cases "key (kas ! 2) = faucet_id")
    case True
    then show ?thesis using assms to_acc by (auto simp: do_transfer_request_def unsigned_key_def)
  next
    case False
    then obtain st where st: "deserialize c (data (account (kas ! 2))) = Some st"
      using assms to_acc by (auto simp: do_transfer_request_def unsigned_key_def)
    note r = assms [unfolded do_transfer_request_def] False to_acc st
    show ?thesis
    proof (cases st)
      case (XAccount a)
      obtain kas1 where
        p: "exchange_put c 2 (XAccount (sub_tokens t n a)) kas = Ok kas1"
          "exchange_put c 1 (XAccount (add_tokens t n to_account)) kas1 = Ok kas'"
        using r XAccount by (auto simp: unsigned_key_def split: if_splits)
      have "xheld t (XAccount (sub_tokens t n a)) = xheld t st - n \<and>
            (\<forall>t'. t' \<noteq> t \<longrightarrow> xheld t' (XAccount (sub_tokens t n a)) = xheld t' st)"
        using XAccount by simp
      then show ?thesis using p False st to_acc by blast
    next
      case (XTrade tr)
      obtain kas1 where
        p: "exchange_put c 2 (XTrade (tr\<lparr>tokens_settled := tokens_settled tr - n\<rparr>)) kas = Ok kas1"
          "exchange_put c 1 (XAccount (add_tokens t n to_account)) kas1 = Ok kas'"
        and t: "t = settle_token tr"
        using r XTrade by (auto simp: unsigned_key_def split: if_splits)
      have "xheld t (XTrade (tr\<lparr>tokens_settled := tokens_settled tr - n\<rparr>)) = xheld t st - n \<and>
            (\<forall>t'. t' \<noteq> t \<longrightarrow> xheld t' (XTrade (tr\<lparr>tokens_settled := tokens_settled tr - n\<rparr>)) = xheld t' st)"
        using XTrade t by (cases "trade_direction tr") auto
      then show ?thesis using p False st to_acc by blast
    qed (use r in \<open>auto simp: unsigned_key_def split: if_splits\<close>)
  qed
qed

lemma do_trade_request_Ok:
  assumes "do_trade_request c kas info = Ok kas'"
  shows "3 \<le> length kas \<and> deserialize c (data (account (kas ! 1))) = Some XUnallocated \<and>
    (\<exists>a tr kas1. deserialize c (data (account (kas ! 2))) = Some (XAccount a) \<and>
       xa_owner a = key (kas ! 0) \<and> trade_owner tr = key (kas ! 0) \<and>
       trade_tokens tr = req_tokens info \<and> tokens_settled tr = 0 \<and>
       req_tokens info \<le> tokens_index (xa_tokens a) (escrow_token tr) \<and>
       exchange_put c 1 (XTrade tr) kas = Ok kas1 \<and>
       exchange_put c 2 (XAccount (sub_tokens (escrow_token tr) (req_tokens info) a)) kas1 = Ok kas')"
proof -
  define tr where "tr = \<lparr>trade_owner = key (kas ! 0), trade_direction = req_direction info,
                   trade_pair = req_pair info, trade_tokens = req_tokens info,
                   trade_price = req_price info, tokens_settled = 0\<rparr>"
  from assms obtain a where
    a: "3 \<le> length kas" "deserialize c (data (account (kas ! 1))) = Some XUnallocated"
      "deserialize c (data (account (kas ! 2))) = Some (XAccount a)"
    by (auto simp: do_trade_request_def split: if_splits)
  obtain kas1 where
    "exchange_put c 1 (XTrade tr) kas = Ok kas1"
    "exchange_put c 2 (XAccount (sub_tokens (escrow_token tr) (req_tokens info) a)) kas1 = Ok kas'"
    "xa_owner a = key (kas ! 0)" "\<not> tokens_index (xa_tokens a) (escrow_token tr) < req_tokens info"
    using assms a
    by (cases "req_direction info")
      (auto simp: do_trade_request_def unsigned_key_def Let_def tr_def split: if_splits res.splits)
  with a show ?thesis
    by (intro conjI exI [of _ a] exI [of _ tr] exI [of _ kas1]) (simp_all add: tr_def not_less)
qed

lemma do_trade_cancellation_Ok:
  assumes "do_trade_cancellation c kas = Ok kas'"
  shows "2 \<le> length kas \<and> (\<exists>tr a. deserialize c (data (account (kas ! 1))) = Some (XTrade tr) \<and>
     trade_owner tr = key (kas ! 0) \<and> xa_owner a = trade_owner tr \<and>
     (\<forall>t. tokens_index (xa_tokens a) t =
        (if t = escrow_token tr then trade_tokens tr + tokens_settled tr else 0)) \<and>
     exchange_put c 1 (XAccount a) kas = Ok kas')"
proof -
  from assms obtain tr where
    tr: "2 \<le> length kas" "deserialize c (data (account (kas ! 1))) = Some (XTrade tr)"
      "trade_owner tr = key (kas ! 0)"
    by (auto simp: do_trade_cancellation_def unsigned_key_def split: if_splits)
  define a where "a = add_tokens (escrow_token tr) (tokens_settled tr) ((xaccount_owned (trade_owner tr))
      \<lparr>xa_tokens := tokens_set (escrow_token tr) (trade_tokens tr) (xa_tokens (xaccount_owned (trade_owner tr)))\<rparr>)"
  have "exchange_put c 1 (XAccount a) kas = Ok kas'"
    using assms tr by (simp add: do_trade_cancellation_def unsigned_key_def a_def Let_def)
  moreover have "\<forall>t. tokens_index (xa_tokens a) t =
        (if t = escrow_token tr then trade_tokens tr + tokens_settled tr else 0)"
    by (simp add: a_def xaccount_owned_def)
  moreover have "xa_owner a = trade_owner tr"
    by (simp add: a_def add_tokens_def xaccount_owned_def)
  ultimately show ?thesis using tr by blast
qed

lemma do_swap_request_Ok:
  assumes "do_swap_request c kas = Ok kas'"
  shows "4 \<le> length kas \<and> (\<exists>tt ft pr tt' ft' pr' kas1 kas2.
     deserialize c (data (account (kas ! 1))) = Some (XTrade tt) \<and>
     deserialize c (data (account (kas ! 2))) = Some (XTrade ft) \<and>
     deserialize c (data (account (kas ! 3))) = Some (XAccount pr) \<and>
     trade_direction tt = DirTo \<and> trade_direction ft = DirFrom \<and> trade_pair tt = trade_pair ft \<and>
     calculate_swap SCALER tt ft pr = Ok (tt', ft', pr') \<and>
     exchange_put c 1 (if trade_tokens tt' = 0 then XAccount (trade_to_token_account ft') else XTrade tt') kas
       = Ok kas1 \<and>
     exchange_put c 2 (if trade_tokens ft' = 0 then XAccount (trade_to_token_account ft') else XTrade ft') kas1
       = Ok kas2 \<and>
     exchange_put c 3 (XAccount pr') kas2 = Ok kas')"
proof -
  from assms obtain tt ft pr where
    d: "4 \<le> length kas" "deserialize c (data (account (kas ! 1))) = Some (XTrade tt)"
      "deserialize c (data (account (kas ! 2))) = Some (XTrade ft)"
      "deserialize c (data (account (kas ! 3))) = Some (XAccount pr)"
    by (auto simp: do_swap_request_def split: if_splits)
  then have dt: "deserialize_trade c (data (account (kas ! 1))) = Ok tt"
    "deserialize_trade c (data (account (kas ! 2))) = Ok ft"
    "deserialize_account c (data (account (kas ! 3))) = Ok pr" by simp_all
  note r = assms [unfolded do_swap_request_def dt, simplified]
  then have dir: "trade_direction tt = DirTo" "trade_direction ft = DirFrom" "trade_pair tt = trade_pair ft"
    by (auto split: if_splits)
  from r d(1) dir obtain tt' ft' pr' where sw: "calculate_swap SCALER tt ft pr = Ok (tt', ft', pr')"
    by auto
  from r d(1) dir sw obtain kas1 kas2 where
    "exchange_put c 1 (if trade_tokens tt' = 0 then XAccount (trade_to_token_account ft') else XTrade tt') kas
       = Ok kas1"
    "exchange_put c 2 (if trade_tokens ft' = 0 then XAccount (trade_to_token_account ft') else XTrade ft') kas1
       = Ok kas2"
    "exchange_put c 3 (XAccount pr') kas2 = Ok kas'"
    by auto
  with d dir sw show ?thesis by blast
qed

lemma exchange_process_frame:
  assumes "exchange_process_instruction c ic pid kas ix tick = Ok kas'"
  shows "xframe kas kas'"
proof -
  from assms obtain i where i: "deserialize ic ix = Some i"
    by (auto simp: exchange_process_instruction_def)
  show ?thesis
  proof (cases i)
    case AccountRequest
    then show ?thesis using assms i
      by (auto simp: exchange_process_instruction_def intro: do_account_request_frame)
  next
    case (TransferRequest t n)
    then have "do_transfer_request c kas t n = Ok kas'"
      using assms i by (simp add: exchange_process_instruction_def)
    from do_transfer_request_Ok [OF this] show ?thesis
      by (auto intro: xframe_put xframe_trans [OF xframe_put xframe_put])
  next
    case (TradeRequest info)
    then have "do_trade_request c kas info = Ok kas'"
      using assms i by (simp add: exchange_process_instruction_def)
    from do_trade_request_Ok [OF this] show ?thesis
      by (auto intro: xframe_trans [OF xframe_put xframe_put])
  next
    case TradeCancellation
    then have "do_trade_cancellation c kas = Ok kas'"
      using assms i by (simp add: exchange_process_instruction_def)
    from do_trade_cancellation_Ok [OF this] show ?thesis by (auto intro: xframe_put)
  next
    case SwapRequest
    then have "do_swap_request c kas = Ok kas'"
      using assms i by (simp add: exchange_process_instruction_def)
    from do_swap_request_Ok [OF this] show ?thesis
      by (blast intro: xframe_trans [OF xframe_trans [OF xframe_put xframe_put] xframe_put])
  qed
qed

interpretation exchange: native_program "exchange_process_instruction c ic"
  using exchange_process_frame by unfold_locales (auto simp: xframe_def)

section \<open>Conservation of tokens\<close>

lemma xheld_by_Some: "deserialize c (data (account ka)) = Some st \<Longrightarrow> xheld_by c t ka = xheld t st"
  by (simp add: xheld_by_def)

lemma trade_to_token_account_held:
  "trade_tokens tr = 0 \<Longrightarrow> xheld t (XAccount (trade_to_token_account tr)) = xheld t (XTrade tr)"
  by (simp add: trade_to_token_account_def xaccount_owned_def Let_def)

lemma calculate_swap_held:
  assumes "calculate_swap scaler tt ft pr = Ok (tt', ft', pr')" "trade_pair tt = trade_pair ft"
    "trade_direction tt = DirTo" "trade_direction ft = DirFrom"
  shows "xheld t (XTrade tt') + xheld t (XTrade ft') + xheld t (XAccount pr') =
         xheld t (XTrade tt) + xheld t (XTrade ft) + xheld t (XAccount pr)"
  using calculate_swap_Ok [OF assms(1)] assms(2-4) by (elim exE conjE) (simp add: algebra_simps)

lemma transfer_conserves:
  assumes "codec_prefix_ok c" "room c kas" "do_transfer_request c kas t n = Ok kas'" "key (kas ! 2) \<noteq> faucet_id"
  shows "xtotal c t' kas' = xtotal c t' kas"
proof -
  from do_transfer_request_Ok [OF assms(3)] assms(4) obtain to_account st st' kas1 where
    *: "deserialize c (data (account (kas ! 1))) = Some (XAccount to_account)"
      "deserialize c (data (account (kas ! 2))) = Some st"
      "xheld t st' = xheld t st - n" "\<forall>t'. t' \<noteq> t \<longrightarrow> xheld t' st' = xheld t' st"
      "exchange_put c 2 st' kas = Ok kas1"
      "exchange_put c 1 (XAccount (add_tokens t n to_account)) kas1 = Ok kas'" by blast
  note p1 = exchange_put_state [OF assms(1,2) _ *(5), of t', simplified]
  note p2 = exchange_put_state [OF assms(1) _ _ *(6), of t', simplified]
  have "xheld_by c t' (kas1 ! 1) = xheld t' (XAccount to_account)"
    using p1 *(1) by (simp add: xheld_by_Some)
  with p1 p2 * show ?thesis by (cases "t' = t") (simp_all add: xheld_by_Some)
qed

lemma trade_conserves:
  assumes "codec_prefix_ok c" "room c kas" "do_trade_request c kas info = Ok kas'"
  shows "xtotal c t kas' = xtotal c t kas"
proof -
  from do_trade_request_Ok [OF assms(3)] obtain a tr kas1 where
    *: "deserialize c (data (account (kas ! 1))) = Some XUnallocated"
      "deserialize c (data (account (kas ! 2))) = Some (XAccount a)"
      "trade_tokens tr = req_tokens info" "tokens_settled tr = 0"
      "exchange_put c 1 (XTrade tr) kas = Ok kas1"
      "exchange_put c 2 (XAccount (sub_tokens (escrow_token tr) (req_tokens info) a)) kas1 = Ok kas'"
    by blast
  note p1 = exchange_put_state [OF assms(1,2) _ *(5), of t, simplified]
  note p2 = exchange_put_state [OF assms(1) _ _ *(6), of t, simplified]
  have "xheld_by c t (kas1 ! 2) = xheld t (XAccount a)"
    using p1 *(2) by (simp add: xheld_by_Some)
  with p1 p2 * show ?thesis by (simp add: xheld_by_Some)
qed

lemma cancel_conserves:
  assumes "codec_prefix_ok c" "room c kas" "do_trade_cancellation c kas = Ok kas'"
    "\<And>tr. deserialize c (data (account (kas ! 1))) = Some (XTrade tr) \<Longrightarrow> tokens_settled tr = 0"
  shows "xtotal c t kas' = xtotal c t kas"
proof -
  from do_trade_cancellation_Ok [OF assms(3)] obtain tr a where
    *: "deserialize c (data (account (kas ! 1))) = Some (XTrade tr)"
      "\<forall>t. tokens_index (xa_tokens a) t =
        (if t = escrow_token tr then trade_tokens tr + tokens_settled tr else 0)"
      "exchange_put c 1 (XAccount a) kas = Ok kas'" by blast
  show ?thesis
    using exchange_put_state [OF assms(1,2) _ *(3), of t] * assms(4) [OF *(1)]
    by (simp add: xheld_by_Some)
qed

lemma three_moves:
  fixes x :: "'b :: ab_group_add"
  assumes "x1 = x - a + a'" "x2 = x1 - b + b'" "x3 = x2 - d + d'" "a' + b' + d' = a + b + d"
  shows "x3 = x"
proof -
  have "x3 = x + (a' + b' + d') - (a + b + d)" unfolding assms(1-3) by (simp add: algebra_simps)
  then show ?thesis unfolding assms(4) by simp
qed

lemma swap_conserves:
  assumes "codec_prefix_ok c" "room c kas" "do_swap_request c kas = Ok kas'"
    "\<And>tt ft pr tt' ft' pr'. deserialize c (data (account (kas ! 1))) = Some (XTrade tt) \<Longrightarrow>
       deserialize c (data (account (kas ! 2))) = Some (XTrade ft) \<Longrightarrow>
       deserialize c (data (account (kas ! 3))) = Some (XAccount pr) \<Longrightarrow>
       calculate_swap SCALER tt ft pr = Ok (tt', ft', pr') \<Longrightarrow> trade_tokens tt' \<noteq> 0"
  shows "xtotal c t kas' = xtotal c t kas"
proof -
  from do_swap_request_Ok [OF assms(3)] obtain tt ft pr tt' ft' pr' kas1 kas2 where
    d: "deserialize c (data (account (kas ! 1))) = Some (XTrade tt)"
     "deserialize c (data (account (kas ! 2))) = Some (XTrade ft)"
     "deserialize c (data (account (kas ! 3))) = Some (XAccount pr)"
    and dir: "trade_pair tt = trade_pair ft" "trade_direction tt = DirTo" "trade_direction ft = DirFrom"
    and sw: "calculate_swap SCALER tt ft pr = Ok (tt', ft', pr')"
    and e1: "exchange_put c 1 (if trade_tokens tt' = 0 then XAccount (trade_to_token_account ft') else XTrade tt')
       kas = Ok kas1"
    and e2: "exchange_put c 2 (if trade_tokens ft' = 0 then XAccount (trade_to_token_account ft') else XTrade ft')
       kas1 = Ok kas2"
    and e3: "exchange_put c 3 (XAccount pr') kas2 = Ok kas'" by blast
  have nz: "trade_tokens tt' \<noteq> 0" using assms(4) d sw by blast
  note p1 = exchange_put_state [OF assms(1,2) zero_less_one e1, of t]
  note p2 = exchange_put_state [OF assms(1) _ zero_less_numeral e2, of t]
  note p3 = exchange_put_state [OF assms(1) _ zero_less_numeral e3, of t]
  have h: "xheld_by c t (kas ! 1) = xheld t (XTrade tt)" "xheld_by c t (kas1 ! 2) = xheld t (XTrade ft)"
    "xheld_by c t (kas2 ! 3) = xheld t (XAccount pr)"
    using d p1 p2 by (simp_all add: xheld_by_Some)
  have x: "xheld t (if trade_tokens ft' = 0 then XAccount (trade_to_token_account ft') else XTrade ft') =
           xheld t (XTrade ft')"
    using trade_to_token_account_held [of ft' t] by (simp del: xheld.simps)
  have r: "room c kas1" "room c kas2" using p1 p2 by simp_all
  have "xtotal c t kas1 = xtotal c t kas - xheld t (XTrade tt) + xheld t (XTrade tt')"
    using p1 nz by (simp only: h if_False)
  moreover have "xtotal c t kas2 = xtotal c t kas1 - xheld t (XTrade ft) + xheld t (XTrade ft')"
    using p2 [OF r(1)] unfolding h x by blast
  moreover have "xtotal c t kas' = xtotal c t kas2 - xheld t (XAccount pr) + xheld t (XAccount pr')"
    using p3 [OF r(2)] unfolding h by blast
  ultimately show ?thesis
    by (rule three_moves) (rule calculate_swap_held [OF sw dir])
qed

text \<open>
  The instructions that neither mint nor lose tokens: everything but opening an account (which
  grants tokens), drawing on the faucet, cancelling an order that has been partly settled and a
  swap that exhausts the \<open>To\<close> order.
\<close>

definition conserving :: "exchange_state codec \<Rightarrow> keyed_account list \<Rightarrow> exchange_instruction \<Rightarrow> bool" where
  "conserving c kas i =
     (case i of
        AccountRequest \<Rightarrow> False
      | TransferRequest t n \<Rightarrow> key (kas ! 2) \<noteq> faucet_id
      | TradeRequest info \<Rightarrow> True
      | TradeCancellation \<Rightarrow>
          (case deserialize c (data (account (kas ! 1))) of
             Some (XTrade tr) \<Rightarrow> tokens_settled tr = 0 | _ \<Rightarrow> True)
      | SwapRequest \<Rightarrow>
          (case (deserialize c (data (account (kas ! 1))), deserialize c (data (account (kas ! 2))),
                 deserialize c (data (account (kas ! 3)))) of
             (Some (XTrade tt), Some (XTrade ft), Some (XAccount pr)) \<Rightarrow>
               (case calculate_swap SCALER tt ft pr of Ok (tt', _) \<Rightarrow> trade_tokens tt' \<noteq> 0 | _ \<Rightarrow> True)
           | _ \<Rightarrow> True))"

lemma exchange_conserving_step:
  assumes "codec_prefix_ok c" "room c kas" "deserialize ic ix = Some i" "conserving c kas i"
    "exchange_process_instruction c ic pid kas ix tick = Ok kas'"
  shows "xtotal c t kas' = xtotal c t kas"
proof (cases i)
  case AccountRequest
  then show ?thesis using assms(4) by (simp add: conserving_def)
next
  case (TransferRequest u n)
  then show ?thesis using assms
    by (intro transfer_conserves) (simp_all add: exchange_process_instruction_def conserving_def)
next
  case (TradeRequest info)
  then show ?thesis using assms
    by (intro trade_conserves) (simp_all add: exchange_process_instruction_def)
next
  case TradeCancellation
  then show ?thesis using assms
    by (intro cancel_conserves) (simp_all add: exchange_process_instruction_def conserving_def)
next
  case SwapRequest
  then show ?thesis using assms
    by (intro swap_conserves) (simp_all add: exchange_process_instruction_def conserving_def)
qed

text \<open>
  C25: the exchange conserves tokens. When a transfer from an account or order, a trade request, the
  cancellation of an unsettled order or a swap that leaves the \<open>To\<close> order open succeeds on
  accounts with room for the states, the amount of every token type held over the instruction's
  accounts (balances, escrow in orders and settled amounts together) is what it was, and so is
  the sum of the difs.
\<close>

theorem exchange_conserves:
  assumes "codec_prefix_ok c" "room c kas" "deserialize ic ix = Some i" "conserving c kas i"
    "exchange_process_instruction c ic pid kas ix tick = Ok kas'"
  shows "xtotal c t kas' = xtotal c t kas \<and> total_difs kas' = total_difs kas"
  using exchange_conserving_step [OF assms] exchange.process_balanced [OF assms(5)] by simp

definition demo_trade :: "direction \<Rightarrow> u8 \<Rightarrow> u64 \<Rightarrow> u64 \<Rightarrow> u64 \<Rightarrow> trade_order_info" where
  "demo_trade d b n p m =
     \<lparr>trade_owner = demo_key b, trade_direction = d, trade_pair = AB, trade_tokens = n,
      trade_price = p, tokens_settled = m\<rparr>"

definition demo_xstates :: "exchange_state list" where
  "demo_xstates =
     [XTrade (demo_trade DirTo 2 2 2000 0), XTrade (demo_trade DirFrom 3 2 2000 0),
      XAccount (xaccount_owned (demo_key 4)),
      XTrade (demo_trade DirTo 2 1 2000 2), XAccount (trade_to_token_account (demo_trade DirFrom 3 0 2000 1))]"

definition demo_xkeyed :: "u8 \<Rightarrow> u8 \<Rightarrow> keyed_account" where
  "demo_xkeyed b st =
     keyed_account_new (demo_key b) False ((account_new 1 0 0 exchange_program_id)\<lparr>data := [st]\<rparr>)"

lemma demo_calculate_swap:
  "calculate_swap SCALER (demo_trade DirTo 2 2 2000 0) (demo_trade DirFrom 3 2 2000 0)
     (xaccount_owned (demo_key 4)) =
   Ok (demo_trade DirTo 2 1 2000 2, demo_trade DirFrom 3 0 2000 1, xaccount_owned (demo_key 4))"
  by (simp add: calculate_swap_def demo_trade_def SCALER_def checked_div_def xaccount_owned_def
      xtokens_new_def add_tokens_def)

lemma demo_exchange_put:
  assumes "position (\<lambda>y. y = st) demo_xstates = Some n" "i < length kas" "kas ! i = demo_xkeyed b old" "n < 256"
  shows "exchange_put (table_codec demo_xstates) i st kas = Ok (kas[i := demo_xkeyed b (of_nat n)])"
  using assms by (simp add: exchange_put_def exchange_serialize_def table_codec_def demo_xkeyed_def
      keyed_account_new_def account_new_def)

lemma demo_swap:
  "exchange_process_instruction (table_codec demo_xstates) (table_codec [SwapRequest]) exchange_program_id
     [demo_keyed True 1 1, demo_xkeyed 2 0, demo_xkeyed 3 1, demo_xkeyed 4 2] [0] 0 =
   Ok [demo_keyed True 1 1, demo_xkeyed 2 3, demo_xkeyed 3 4, demo_xkeyed 4 2]"
proof -
  have d: "deserialize (table_codec demo_xstates) (data (account (demo_xkeyed b st))) = nth_opt demo_xstates (unat st)"
    for b st by (simp add: demo_xkeyed_def keyed_account_new_def table_codec_def nth_opt_def)
  have n: "trade_tokens (demo_trade d b n p m) = n" for d b n p m by (simp add: demo_trade_def)
  have p: "position (\<lambda>y. y = XTrade (demo_trade DirTo 2 1 2000 2)) demo_xstates = Some 3"
    "position (\<lambda>y. y = XAccount (trade_to_token_account (demo_trade DirFrom 3 0 2000 1))) demo_xstates = Some 4"
    "position (\<lambda>y. y = XAccount (xaccount_owned (demo_key 4))) demo_xstates = Some 2"
    by (simp_all add: demo_xstates_def demo_trade_def demo_key_def trade_to_token_account_def
        xaccount_owned_def xtokens_new_def)
  have t: "deserialize_trade (table_codec demo_xstates) (data (account (demo_xkeyed 2 0))) =
        Ok (demo_trade DirTo 2 2 2000 0)"
    "deserialize_trade (table_codec demo_xstates) (data (account (demo_xkeyed 3 1))) =
        Ok (demo_trade DirFrom 3 2 2000 0)"
    "deserialize_account (table_codec demo_xstates) (data (account (demo_xkeyed 4 2))) =
        Ok (xaccount_owned (demo_key 4))"
    unfolding deserialize_trade_Ok_iff deserialize_account_Ok_iff d by (simp_all add: demo_xstates_def)
  have e: "trade_direction (demo_trade d b n p m) = d" "trade_pair (demo_trade d b n p m) = AB" for d b n p m
    by (simp_all add: demo_trade_def)
  show ?thesis
    by (simp add: exchange_process_instruction_def do_swap_request_def t e demo_calculate_swap n
        demo_exchange_put [OF p(1)] demo_exchange_put [OF p(2)] demo_exchange_put [OF p(3)])
qed

theorem exchange_conserves_witness:
  "xtotal (table_codec demo_xstates) TokenA
     [demo_keyed True 1 1, demo_xkeyed 2 3, demo_xkeyed 3 4, demo_xkeyed 4 2] =
   xtotal (table_codec demo_xstates) TokenA
     [demo_keyed True 1 1, demo_xkeyed 2 0, demo_xkeyed 3 1, demo_xkeyed 4 2]"
proof -
  let ?kas = "[demo_keyed True 1 1, demo_xkeyed 2 0, demo_xkeyed 3 1, demo_xkeyed 4 2]"
  have r: "room (table_codec demo_xstates) ?kas"
    by (auto simp: room_def table_codec_def demo_xkeyed_def keyed_account_new_def nth_Cons'
        split: option.splits if_splits)
  have c: "conserving (table_codec demo_xstates) ?kas SwapRequest"
    by (simp add: conserving_def demo_xkeyed_def keyed_account_new_def demo_xstates_def
        table_codec_def demo_calculate_swap) (simp add: demo_trade_def)
  show ?thesis
    using exchange_conserves [OF table_codec_prefix_ok r _ c demo_swap, of TokenA] by simp
qed

section \<open>Edges of the handlers\<close>

text \<open>
  A request with direction \<open>From\<close> and price 0 is not rejected: \<open>check_trade\<close> divides by the
  price before it looks at the result.
\<close>

lemma trade_request_price_zero_panics:
  assumes "3 \<le> length kas" "deserialize c (data (account (kas ! 1))) = Some XUnallocated"
    "deserialize c (data (account (kas ! 2))) = Some (XAccount a)" "xa_owner a = key (kas ! 0)"
    "req_direction info = DirFrom" "req_price info = 0"
    "req_tokens info \<le> tokens_index (xa_tokens a) (secondary (req_pair info))"
  shows "do_trade_request c kas info = Panic"
  using assms by (simp add: do_trade_request_def is_account_unallocated_def deserialize_account_def
      check_trade_def checked_div_def not_less unsigned_key_def Let_def)

text \<open>
  A state that is longer than the data of its account is cut off, and the write succeeds all the same: the buffered
  writer loses the rest when it is dropped. This is why the conservation of tokens asks for room.
\<close>

lemma exchange_serialize_truncates:
  assumes "serialize c st = Inr bs" "length d < length bs"
  shows "exchange_serialize c st d = Ok (take (length d) bs)"
  using assms by (simp add: exchange_serialize_def)

end
