(* ===== verification/Accounts_Index.thy ===== *)
theory Accounts_Index
  imports Account_Model "HOL-Library.Multiset"
begin

text \<open>
  The index of the accounts database, \<^verbatim>\<open>src/runtime/src/accounts_index.rs\<close>: for every key the list of
  forks that hold a version of the account, the set of rooted forks and the last root. A reader
  gives its ancestors and gets the version of the greatest fork that is an ancestor or a root.
  Hash maps and hash sets that are only looked up are maps and sets.
\<close>

section \<open>The index\<close>

type_synonym fork = u64
type_synonym ancestors = "fork \<rightharpoonup> nat"

record 't accounts_index =
  account_maps :: "pubkey \<rightharpoonup> (fork \<times> 't) list"
  roots :: "fork set"
  last_root :: fork

definition accounts_index_default :: "'t accounts_index" where
  "accounts_index_default = \<lparr>account_maps = Map.empty, roots = {}, last_root = 0\<rparr>"

definition is_purged :: "'t accounts_index \<Rightarrow> fork \<Rightarrow> bool" where
  "is_purged ix f = (f < last_root ix)"

definition is_root :: "'t accounts_index \<Rightarrow> fork \<Rightarrow> bool" where
  "is_root ix f = (f \<in> roots ix)"

text \<open>The loop of \<open>get\<close> over the reversed list, with the greatest fork seen so far.\<close>

fun index_get_loop ::
  "(fork \<Rightarrow> bool) \<Rightarrow> (fork \<times> 't) list \<Rightarrow> fork \<Rightarrow> ('t \<times> fork) option \<Rightarrow> ('t \<times> fork) option" where
  "index_get_loop vis [] m rv = rv"
| "index_get_loop vis (e # es) m rv =
     (if fst e \<ge> m \<and> vis (fst e) then index_get_loop vis es (fst e) (Some (snd e, fst e))
      else index_get_loop vis es m rv)"

definition index_get :: "'t accounts_index \<Rightarrow> pubkey \<Rightarrow> ancestors \<Rightarrow> ('t \<times> fork) option" where
  "index_get ix k anc =
     (case account_maps ix k of
        None \<Rightarrow> None
      | Some list \<Rightarrow> index_get_loop (\<lambda>f. anc f \<noteq> None \<or> is_root ix f) (rev list) 0 None)"

text \<open>
  \<open>insert\<close> replaces the fork's version and drops every version older than the last root; the
  dropped versions are returned so that their storage can be freed.
\<close>

definition index_insert ::
  "'t accounts_index \<Rightarrow> fork \<Rightarrow> pubkey \<Rightarrow> 't \<Rightarrow> (fork \<times> 't) list \<times> 't accounts_index" where
  "index_insert ix f k info =
     (let fork_vec = (case account_maps ix k of None \<Rightarrow> [] | Some l \<Rightarrow> l);
          rv = filter (\<lambda>e. fst e = f) fork_vec;
          fork_vec = filter (\<lambda>e. fst e \<noteq> f) fork_vec @ [(f, info)];
          rv = rv @ filter (\<lambda>e. is_purged ix (fst e)) fork_vec;
          fork_vec = filter (\<lambda>e. \<not> is_purged ix (fst e)) fork_vec
      in (rv, ix\<lparr>account_maps := (account_maps ix)(k \<mapsto> fork_vec)\<rparr>))"

definition index_add_root :: "fork \<Rightarrow> 't accounts_index \<Rightarrow> ('e, 't accounts_index) res" where
  "index_add_root f ix =
     (if (last_root ix = 0 \<and> f = 0) \<or> last_root ix < f
      then Ok (ix\<lparr>last_root := f, roots := insert f (roots ix)\<rparr>)
      else Panic)"

definition cleanup_dead_fork :: "fork \<Rightarrow> 't accounts_index \<Rightarrow> 't accounts_index" where
  "cleanup_dead_fork f ix = ix\<lparr>roots := roots ix - {f}\<rparr>"

section \<open>What a reader sees\<close>

definition versions :: "'t accounts_index \<Rightarrow> pubkey \<Rightarrow> (fork \<times> 't) list" where
  "versions ix k = (case account_maps ix k of None \<Rightarrow> [] | Some l \<Rightarrow> l)"

definition visible :: "'t accounts_index \<Rightarrow> ancestors \<Rightarrow> fork \<Rightarrow> bool" where
  "visible ix anc f \<longleftrightarrow> anc f \<noteq> None \<or> is_root ix f"

definition visible_forks :: "'t accounts_index \<Rightarrow> pubkey \<Rightarrow> ancestors \<Rightarrow> fork set" where
  "visible_forks ix k anc = {f \<in> fst ` set (versions ix k). visible ix anc f}"

lemma visible_forks_iff:
  "f \<in> visible_forks ix k anc \<longleftrightarrow> visible ix anc f \<and> (\<exists>t. (f, t) \<in> set (versions ix k))"
  by (force simp: visible_forks_def)

text \<open>At most one version per fork.\<close>

definition index_ok :: "'t accounts_index \<Rightarrow> bool" where
  "index_ok ix \<longleftrightarrow> (\<forall>k. distinct (map fst (versions ix k)))"

lemma index_ok_default [simp]: "index_ok accounts_index_default"
  by (simp add: index_ok_def accounts_index_default_def versions_def)

lemma index_get_loop_cases:
  "(index_get_loop vis es m rv = rv \<and> (\<forall>e \<in> set es. vis (fst e) \<longrightarrow> fst e < m)) \<or>
   (\<exists>t f. index_get_loop vis es m rv = Some (t, f) \<and> (f, t) \<in> set es \<and> vis f \<and> m \<le> f \<and>
      (\<forall>e \<in> set es. vis (fst e) \<longrightarrow> fst e \<le> f))"
proof (induction es arbitrary: m rv)
  case (Cons e es)
  show ?case
  proof (cases "m \<le> fst e \<and> vis (fst e)")
    case True
    then show ?thesis
      using Cons.IH [of "fst e" "Some (snd e, fst e)"] by (cases e) (fastforce intro: less_imp_le)
  next
    case False
    then have eq: "index_get_loop vis (e # es) m rv = index_get_loop vis es m rv" by auto
    show ?thesis
      using Cons.IH [of m rv] False unfolding eq by (fastforce simp: not_le)
  qed
qed simp

lemma index_get_alt:
  "index_get ix k anc = index_get_loop (visible ix anc) (rev (versions ix k)) 0 None"
  by (simp add: index_get_def visible_def [abs_def] versions_def split: option.split)

lemma index_get_cases:
  "(index_get ix k anc = None \<and> visible_forks ix k anc = {}) \<or>
   (\<exists>t f. index_get ix k anc = Some (t, f) \<and> (f, t) \<in> set (versions ix k) \<and> visible ix anc f \<and>
      (\<forall>g \<in> visible_forks ix k anc. g \<le> f))"
  using index_get_loop_cases [of "visible ix anc" "rev (versions ix k)" 0 None]
  by (auto simp: index_get_alt visible_forks_def)

lemma index_get_SomeD:
  assumes "index_get ix k anc = Some (t, f)"
  shows "(f, t) \<in> set (versions ix k) \<and> visible ix anc f \<and> (\<forall>g \<in> visible_forks ix k anc. g \<le> f)"
  using index_get_cases [of ix k anc] assms by auto

lemma index_get_SomeI:
  assumes "index_ok ix" "(f, t) \<in> set (versions ix k)" "visible ix anc f"
    "\<And>g. g \<in> visible_forks ix k anc \<Longrightarrow> g \<le> f"
  shows "index_get ix k anc = Some (t, f)"
proof -
  have v: "f \<in> visible_forks ix k anc" using assms(2,3) by (auto simp: visible_forks_iff)
  then obtain t' f' where g: "index_get ix k anc = Some (t', f')" "(f', t') \<in> set (versions ix k)"
      "visible ix anc f'" "f \<le> f'"
    using index_get_cases [of ix k anc] by auto
  then have "f' \<in> visible_forks ix k anc" by (auto simp: visible_forks_iff)
  then have "f' = f" using assms(4) g(4) by (simp add: order_antisym)
  moreover have "t' = t"
    using assms(1,2) g(2) \<open>f' = f\<close> unfolding index_ok_def by (metis eq_key_imp_eq_value)
  ultimately show ?thesis using g(1) by simp
qed

lemma index_get_None: "index_get ix k anc = None \<longleftrightarrow> visible_forks ix k anc = {}"
proof -
  have "visible_forks ix k anc \<noteq> {}" if "(f, t) \<in> set (versions ix k)" "visible ix anc f" for f t
    using that visible_forks_iff [of f ix k anc] by auto
  then show ?thesis using index_get_cases [of ix k anc] by auto
qed

section \<open>Inserting and rooting\<close>

lemma index_insert_frame [simp]:
  "roots (snd (index_insert ix f k t)) = roots ix"
  "last_root (snd (index_insert ix f k t)) = last_root ix"
  "visible (snd (index_insert ix f k t)) = visible ix"
  by (simp_all add: index_insert_def Let_def visible_def [abs_def] is_root_def)

lemma index_insert_versions:
  "versions (snd (index_insert ix f k t)) k' =
     (if k' = k then filter (\<lambda>e. last_root ix \<le> fst e) (filter (\<lambda>e. fst e \<noteq> f) (versions ix k) @ [(f, t)])
      else versions ix k')"
  by (simp add: index_insert_def Let_def is_purged_def not_less versions_def)

lemma index_insert_member:
  "(g, u) \<in> set (versions (snd (index_insert ix f k t)) k') \<longleftrightarrow>
     (if k' = k then last_root ix \<le> g \<and> (if g = f then u = t else (g, u) \<in> set (versions ix k))
      else (g, u) \<in> set (versions ix k'))"
  by (auto simp: index_insert_versions)

lemma index_insert_ok: "index_ok ix \<Longrightarrow> index_ok (snd (index_insert ix f k t))"
  by (auto simp: index_ok_def index_insert_versions distinct_map_filter filter_map)

lemma index_insert_reclaims:
  "mset (fst (index_insert ix f k t)) + mset (versions (snd (index_insert ix f k t)) k) =
     mset (versions ix k) + {#(f, t)#}"
  by (simp add: index_insert_def Let_def is_purged_def multiset_eq_iff count_filter_mset versions_def)

lemma index_get_after_insert_other:
  assumes "k' \<noteq> k"
  shows "index_get (snd (index_insert ix f k t)) k' anc = index_get ix k' anc"
  using assms by (simp add: index_get_alt index_insert_versions)

text \<open>The reader's view when one version of a key is replaced and the old ones are dropped.\<close>

lemma index_get_replace:
  assumes ok: "index_ok ix" "index_ok ix'" and vis: "visible ix' = visible ix"
    and mem: "\<And>g u. (g, u) \<in> set (versions ix' k) \<longleftrightarrow>
      last_root ix \<le> g \<and> (if g = f then u = t else (g, u) \<in> set (versions ix k))"
  shows "index_get ix' k anc =
    (if visible ix anc f \<and> last_root ix \<le> f \<and> (\<forall>g \<in> visible_forks ix k anc. g \<le> f) then Some (t, f)
     else case index_get ix k anc of
            None \<Rightarrow> None
          | Some (t', g) \<Rightarrow> if last_root ix \<le> g then Some (t', g) else None)"
proof (cases "visible ix anc f \<and> last_root ix \<le> f \<and> (\<forall>g \<in> visible_forks ix k anc. g \<le> f)")
  case True
  have "index_get ix' k anc = Some (t, f)"
    using True ok by (intro index_get_SomeI) (auto simp: mem vis visible_forks_iff split: if_splits)
  with True show ?thesis by simp
next
  case no: False
  have "index_get ix' k anc = (case index_get ix k anc of
            None \<Rightarrow> None | Some (t', g) \<Rightarrow> if last_root ix \<le> g then Some (t', g) else None)"
  proof (cases "index_get ix k anc")
    case None
    then have e: "\<not> visible ix anc g" if "(g, u) \<in> set (versions ix k)" for g u
      using that by (auto simp: index_get_None visible_forks_def)
    have "\<not> (visible ix anc f \<and> last_root ix \<le> f)" using no None by (auto simp: index_get_None)
    then have "g \<notin> visible_forks ix' k anc" for g
      using e by (auto simp: visible_forks_iff mem vis)
    then have "index_get ix' k anc = None" by (auto simp: index_get_None)
    with None show ?thesis by simp
  next
    case (Some r)
    obtain t' g where r: "r = (t', g)" by (cases r)
    note g = index_get_SomeD [OF Some [unfolded r]]
    show ?thesis
    proof (cases "last_root ix \<le> g")
      case True
      have "\<not> (visible ix anc f \<and> g < f)" "f \<noteq> g"
        using no g True by (auto dest: less_imp_le intro: order_trans)
      then have "index_get ix' k anc = Some (t', g)"
        using g True ok by (intro index_get_SomeI)
          (auto simp: mem vis visible_forks_iff not_less split: if_splits)
      with Some r True show ?thesis by simp
    next
      case False
      have "h < last_root ix" if "(h, u) \<in> set (versions ix k)" "visible ix anc h" for h u
      proof -
        have "h \<in> visible_forks ix k anc" using that by (auto simp: visible_forks_iff)
        then have "h \<le> g" using g by blast
        with False show ?thesis by simp
      qed
      moreover have "\<not> (visible ix anc f \<and> last_root ix \<le> f)"
        using no g False by (auto simp: not_le intro: less_imp_le less_le_trans order_trans)
      ultimately have "h \<notin> visible_forks ix' k anc" for h
        by (auto simp: visible_forks_iff mem vis not_le [symmetric] split: if_splits)
      then have "index_get ix' k anc = None" by (auto simp: index_get_None)
      with Some r False show ?thesis by simp
    qed
  qed
  then show ?thesis by (simp only: no if_False)
qed

lemma index_get_cong:
  assumes "versions ix' k = versions ix k"
    "\<And>g u. (g, u) \<in> set (versions ix k) \<Longrightarrow> visible ix' anc g = visible ix anc g"
  shows "index_get ix' k anc = index_get ix k anc"
proof -
  have "index_get_loop v es m rv = index_get_loop w es m rv" if "\<And>e. e \<in> set es \<Longrightarrow> v (fst e) = w (fst e)"
    for v w :: "fork \<Rightarrow> bool" and es :: "(fork \<times> 'a) list" and m rv
    using that by (induction es arbitrary: m rv) auto
  moreover have "visible ix' anc (fst e) = visible ix anc (fst e)" if "e \<in> set (rev (versions ix k))" for e
    using that assms(2) [of "fst e" "snd e"] by simp
  ultimately show ?thesis unfolding index_get_alt assms(1) by blast
qed

text \<open>
  What every reader gets after an insert. A reader that sees the new fork and nothing newer gets
  the new version; every other reader keeps the version it had, unless that version is older than
  the last root: then the insert has dropped it and the reader finds no account at all, even when
  it cannot see the fork that was written. Other keys are not affected, and there is still at most
  one version per fork.
\<close>

theorem index_insert_spec:
  assumes "index_ok ix"
  shows "index_ok (snd (index_insert ix f k t)) \<and>
    (\<forall>k' anc. index_get (snd (index_insert ix f k t)) k' anc =
      (if k' \<noteq> k then index_get ix k' anc
       else if visible ix anc f \<and> last_root ix \<le> f \<and> (\<forall>g \<in> visible_forks ix k anc. g \<le> f)
       then Some (t, f)
       else case index_get ix k anc of
              None \<Rightarrow> None
            | Some (t', g) \<Rightarrow> if last_root ix \<le> g then Some (t', g) else None))"
proof -
  have "index_get (snd (index_insert ix f k t)) k anc =
    (if visible ix anc f \<and> last_root ix \<le> f \<and> (\<forall>g \<in> visible_forks ix k anc. g \<le> f) then Some (t, f)
     else case index_get ix k anc of
            None \<Rightarrow> None
          | Some (t', g) \<Rightarrow> if last_root ix \<le> g then Some (t', g) else None)" for anc
    using assms by (intro index_get_replace index_insert_ok) (simp_all add: index_insert_member)
  then show ?thesis
    using index_insert_ok [OF assms, of f k t] by (auto simp: index_get_after_insert_other)
qed

text \<open>
  The loss in use: key 1 was written at root 1, fork 2 became a root without touching it, and a
  write on fork 3 makes the account disappear for the readers of fork 4.
\<close>

definition demo_index :: "nat accounts_index" where
  "demo_index = \<lparr>account_maps = [default_pubkey \<mapsto> [(1, 10)]], roots = {1, 2}, last_root = 2\<rparr>"

theorem index_insert_spec_witness:
  "index_get demo_index default_pubkey [4 \<mapsto> 0] = Some (10, 1) \<and>
   index_get (snd (index_insert demo_index 3 default_pubkey 11)) default_pubkey [4 \<mapsto> 0] = None"
proof -
  have "index_ok demo_index"
    by (simp add: index_ok_def demo_index_def versions_def)
  note spec = index_insert_spec [OF this, of 3 default_pubkey 11, THEN conjunct2, rule_format,
      of default_pubkey "[4 \<mapsto> 0]"]
  have "index_get demo_index default_pubkey [4 \<mapsto> 0] = Some (10, 1)"
    by (simp add: index_get_def demo_index_def is_root_def)
  with spec show ?thesis
    by (simp add: visible_def is_root_def demo_index_def word_le_nat_alt)
qed

end
