(* ===== verification/Append_Vec.thy ===== *)
theory Append_Vec
  imports Accounts_Index
begin

text \<open>
  The append-only account store, \<^verbatim>\<open>src/runtime/src/append_vec.rs\<close>: a memory-mapped file of a fixed
  size to which records (metadata, balance, data) are copied byte by byte at offsets aligned to 8,
  and from which they are read back by a cast at the offset that the append returned.

  The bytes of a \<open>StorageMeta\<close> or an \<open>AccountBalance\<close> in memory are laid out by the compiler: the
  layout is a parameter, \<open>mem_layout\<close>, and what the casts rely on (a value has the size of its
  type and is read back from its own bytes) is the predicate \<open>layout_ok\<close>. Offsets and sizes are
  below the size of a mapped file and are natural numbers.
\<close>

section \<open>Records\<close>

record storage_meta =
  write_version :: u64
  meta_pubkey :: pubkey
  data_len :: u64

record account_balance =
  bal_difs :: u64
  bal_owner :: pubkey
  bal_executable :: bool
  bal_reputations :: u64

record stored_account =
  sa_meta :: storage_meta
  sa_balance :: account_balance
  sa_data :: bytes

definition clone_account :: "stored_account \<Rightarrow> account" where
  "clone_account sa =
     \<lparr>difs = bal_difs (sa_balance sa), reputations = bal_reputations (sa_balance sa), data = sa_data sa,
      owner = bal_owner (sa_balance sa), executable = bal_executable (sa_balance sa)\<rparr>"

record mem_layout =
  meta_size :: nat
  balance_size :: nat
  meta_bytes :: "storage_meta \<Rightarrow> bytes"
  balance_bytes :: "account_balance \<Rightarrow> bytes"
  read_meta :: "bytes \<Rightarrow> storage_meta"
  read_balance :: "bytes \<Rightarrow> account_balance"

definition valid_key :: "pubkey \<Rightarrow> bool" where
  "valid_key k \<longleftrightarrow> length (pubkey_bytes k) = 32"

definition layout_ok :: "mem_layout \<Rightarrow> bool" where
  "layout_ok L \<longleftrightarrow>
     0 < meta_size L \<and>
     (\<forall>m. valid_key (meta_pubkey m) \<longrightarrow> length (meta_bytes L m) = meta_size L \<and> read_meta L (meta_bytes L m) = m) \<and>
     (\<forall>b. valid_key (bal_owner b) \<longrightarrow>
        length (balance_bytes L b) = balance_size L \<and> read_balance L (balance_bytes L b) = b)"

section \<open>The mapped file\<close>

record append_vec =
  av_map :: bytes
  append_offset :: nat
  current_len :: nat
  av_file_size :: nat

definition align_up :: "nat \<Rightarrow> nat" where
  "align_up n = (n + 7) div 8 * 8"

text \<open>A new file is \<open>sz\<close> zero bytes; a size of 0 underflows the seek and fails.\<close>

definition append_vec_new :: "nat \<Rightarrow> ('e, append_vec) res" where
  "append_vec_new sz =
     (if sz = 0 then Panic
      else Ok \<lparr>av_map = replicate sz 0, append_offset = 0, current_len = 0, av_file_size = sz\<rparr>)"

definition av_reset :: "append_vec \<Rightarrow> append_vec" where
  "av_reset v = v\<lparr>current_len := 0, append_offset := 0\<rparr>"

definition av_is_empty :: "append_vec \<Rightarrow> bool" where
  "av_is_empty v = (current_len v = 0)"

definition get_slice :: "append_vec \<Rightarrow> nat \<Rightarrow> nat \<Rightarrow> (bytes \<times> nat) option" where
  "get_slice v off sz =
     (if current_len v < off + sz then None
      else Some (take sz (drop off (av_map v)), align_up (off + sz)))"

definition append_ptr :: "nat \<times> bytes \<Rightarrow> bytes \<Rightarrow> nat \<times> bytes" where
  "append_ptr om src =
     (let pos = align_up (fst om); m = snd om
      in (pos + length src, take pos m @ src @ drop (pos + length src) m))"

text \<open>
  The pointers and lengths of \<open>append_ptrs_locked\<close> are the byte strings they point to. The first
  loop computes where the last one would end.
\<close>

definition append_end :: "nat \<Rightarrow> bytes list \<Rightarrow> nat" where
  "append_end off vals = fold (\<lambda>val e. align_up e + length val) vals off"

definition append_ptrs_locked :: "append_vec \<Rightarrow> bytes list \<Rightarrow> nat option \<times> append_vec" where
  "append_ptrs_locked v vals =
     (if av_file_size v < append_end (append_offset v) vals then (None, v)
      else
        let (off, m) = fold (\<lambda>val om. append_ptr om val) vals (append_offset v, av_map v)
        in (Some (align_up (append_offset v)), v\<lparr>av_map := m, append_offset := off, current_len := off\<rparr>))"

definition get_account :: "mem_layout \<Rightarrow> append_vec \<Rightarrow> nat \<Rightarrow> (stored_account \<times> nat) option" where
  "get_account L v off =
     (case get_slice v off (meta_size L) of
        None \<Rightarrow> None
      | Some (mb, next) \<Rightarrow>
          (case get_slice v next (balance_size L) of
             None \<Rightarrow> None
           | Some (bb, next) \<Rightarrow>
               (case get_slice v next (unat (data_len (read_meta L mb))) of
                  None \<Rightarrow> None
                | Some (d, next) \<Rightarrow>
                    Some (\<lparr>sa_meta = read_meta L mb, sa_balance = read_balance L bb, sa_data = d\<rparr>, next))))"

definition account_ptrs :: "mem_layout \<Rightarrow> storage_meta \<times> account \<Rightarrow> bytes list" where
  "account_ptrs L ma =
     (let m = fst ma; a = snd ma
      in [meta_bytes L m,
          balance_bytes L \<lparr>bal_difs = difs a, bal_owner = owner a, bal_executable = executable a,
                           bal_reputations = reputations a\<rparr>,
          take (unat (data_len m)) (data a)])"

fun append_accounts :: "mem_layout \<Rightarrow> append_vec \<Rightarrow> (storage_meta \<times> account) list \<Rightarrow> nat list \<times> append_vec" where
  "append_accounts L v [] = ([], v)"
| "append_accounts L v (ma # mas) =
     (case append_ptrs_locked v (account_ptrs L ma) of
        (None, v) \<Rightarrow> ([], v)
      | (Some pos, v) \<Rightarrow> (let (rv, v) = append_accounts L v mas in (pos # rv, v)))"

definition append_account :: "mem_layout \<Rightarrow> append_vec \<Rightarrow> storage_meta \<Rightarrow> account \<Rightarrow> nat option \<times> append_vec" where
  "append_account L v m a =
     (let (rv, v) = append_accounts L v [(m, a)] in (case rv of [] \<Rightarrow> None | p # _ \<Rightarrow> Some p, v))"

text \<open>The scan: read records one after the other until there is none.\<close>

partial_function (option) av_accounts :: "mem_layout \<Rightarrow> append_vec \<Rightarrow> nat \<Rightarrow> stored_account list option" where
  "av_accounts L v start =
     (case get_account L v start of
        None \<Rightarrow> Some []
      | Some (sa, next) \<Rightarrow> Option.bind (av_accounts L v next) (\<lambda>sas. Some (sa # sas)))"

section \<open>Reading back what was appended\<close>

definition av_ok :: "append_vec \<Rightarrow> bool" where
  "av_ok v \<longleftrightarrow> current_len v = append_offset v \<and> append_offset v \<le> av_file_size v \<and> length (av_map v) = av_file_size v"

definition av_extends :: "append_vec \<Rightarrow> append_vec \<Rightarrow> bool" where
  "av_extends v v' \<longleftrightarrow> current_len v \<le> current_len v' \<and> take (current_len v) (av_map v') = take (current_len v) (av_map v)"

definition stored :: "storage_meta \<Rightarrow> account \<Rightarrow> stored_account" where
  "stored m a =
     \<lparr>sa_meta = m,
      sa_balance = \<lparr>bal_difs = difs a, bal_owner = owner a, bal_executable = executable a,
                    bal_reputations = reputations a\<rparr>,
      sa_data = take (unat (data_len m)) (data a)\<rparr>"

definition entry_ok :: "storage_meta \<times> account \<Rightarrow> bool" where
  "entry_ok ma \<longleftrightarrow> valid_key (meta_pubkey (fst ma)) \<and> valid_key (owner (snd ma)) \<and>
     unat (data_len (fst ma)) \<le> length (data (snd ma))"

lemma align_up_ge: "n \<le> align_up n"
  unfolding align_up_def by presburger

lemma align_up_idem [simp]: "align_up (align_up n) = align_up n"
  unfolding align_up_def by simp

lemma align_up_mono: "a \<le> b \<Longrightarrow> align_up a \<le> align_up b"
  unfolding align_up_def by (simp add: div_le_mono)

lemma align_up_0 [simp]: "align_up 0 = 0"
  by (simp add: align_up_def)

lemma append_ptr_spec:
  assumes "align_up off + length src \<le> length m" "append_ptr (off, m) src = (off', m')"
  shows "off' = align_up off + length src \<and> length m' = length m \<and>
    (\<forall>n \<le> align_up off. take n m' = take n m) \<and> take (length src) (drop (align_up off) m') = src"
  using assms by (auto simp: append_ptr_def Let_def min_def)

lemma av_extends_refl [simp]: "av_extends v v"
  by (simp add: av_extends_def)

lemma av_extends_trans:
  assumes "av_extends u v" "av_extends v w"
  shows "av_extends u w"
proof -
  have le: "current_len u \<le> current_len v" "current_len v \<le> current_len w"
    and eq: "take (current_len u) (av_map v) = take (current_len u) (av_map u)"
      "take (current_len v) (av_map w) = take (current_len v) (av_map v)"
    using assms unfolding av_extends_def by blast+
  have "take (current_len u) (take (current_len v) (av_map w)) = take (current_len u) (av_map v)"
    unfolding eq(2) using le(1) by (simp add: min_absorb1)
  then have "take (current_len u) (av_map w) = take (current_len u) (av_map u)"
    using le(1) eq(1) by (simp add: min_absorb1)
  then show ?thesis unfolding av_extends_def using le by simp
qed

lemma get_slice_extends:
  assumes "av_extends v v'" "get_slice v off sz = Some r"
  shows "get_slice v' off sz = Some r"
proof -
  have le: "off + sz \<le> current_len v" using assms(2) by (simp add: get_slice_def split: if_splits)
  have tk: "take sz (drop off (take (current_len v) xs)) = take sz (drop off xs)" for xs :: bytes
    using le by (simp add: drop_take)
  have "take sz (drop off (av_map v')) = take sz (drop off (av_map v))"
    using assms(1) tk [of "av_map v"] tk [of "av_map v'"] unfolding av_extends_def by simp
  then show ?thesis using assms le by (auto simp: get_slice_def av_extends_def split: if_splits)
qed

lemma get_account_Some_iff:
  "get_account L v off = Some (sa, next) \<longleftrightarrow>
     (\<exists>mb n1 bb n2 d. get_slice v off (meta_size L) = Some (mb, n1) \<and>
        get_slice v n1 (balance_size L) = Some (bb, n2) \<and>
        get_slice v n2 (unat (data_len (read_meta L mb))) = Some (d, next) \<and>
        sa = \<lparr>sa_meta = read_meta L mb, sa_balance = read_balance L bb, sa_data = d\<rparr>)"
  by (auto simp: get_account_def split: option.splits prod.splits)

lemma get_slice_Some_iff:
  "get_slice v off sz = Some (b, next) \<longleftrightarrow>
     off + sz \<le> current_len v \<and> b = take sz (drop off (av_map v)) \<and> next = align_up (off + sz)"
  by (auto simp: get_slice_def)

lemma get_account_extends:
  assumes "av_extends v v'" "get_account L v off = Some r"
  shows "get_account L v' off = Some r"
proof -
  obtain sa nx where r: "r = (sa, nx)" by (cases r)
  from assms(2) [unfolded r get_account_Some_iff] get_slice_extends [OF assms(1)]
  show ?thesis unfolding r get_account_Some_iff by blast
qed

lemma get_account_next:
  assumes "get_account L v off = Some (sa, next)"
  shows "off + meta_size L \<le> next \<and> off + meta_size L \<le> current_len v"
proof -
  from assms obtain x y where "off + meta_size L \<le> current_len v"
    "next = align_up (align_up (align_up (off + meta_size L) + x) + y)"
    unfolding get_account_Some_iff get_slice_Some_iff by blast
  moreover have "off + meta_size L \<le> align_up (align_up (align_up (off + meta_size L) + x) + y)"
    using align_up_ge [of "off + meta_size L"] align_up_ge [of "align_up (off + meta_size L) + x"]
      align_up_ge [of "align_up (align_up (off + meta_size L) + x) + y"] by linarith
  ultimately show ?thesis by simp
qed

lemma append_ptrs_locked_spec:
  assumes "av_ok v" "append_ptrs_locked v [x, y, z] = (Some pos, v')"
  defines "p1 \<equiv> align_up (append_offset v)"
  defines "p2 \<equiv> align_up (p1 + length x)"
  defines "p3 \<equiv> align_up (p2 + length y)"
  shows "pos = p1 \<and> av_ok v' \<and> av_extends v v' \<and> av_file_size v' = av_file_size v \<and>
    append_offset v' = p3 + length z \<and>
    take (length x) (drop p1 (av_map v')) = x \<and> take (length y) (drop p2 (av_map v')) = y \<and>
    take (length z) (drop p3 (av_map v')) = z"
proof -
  have fits: "p3 + length z \<le> av_file_size v" and pos: "pos = p1"
    using assms(2) by (auto simp: append_ptrs_locked_def append_end_def p1_def p2_def p3_def
        split: if_splits prod.splits)
  have le: "append_offset v \<le> p1" "p1 + length x \<le> p2" "p2 + length y \<le> p3"
    unfolding p1_def p2_def p3_def by (rule align_up_ge)+
  obtain m1 where m1: "append_ptr (append_offset v, av_map v) x = (p1 + length x, m1)"
    by (simp add: append_ptr_def Let_def p1_def)
  obtain m2 where m2: "append_ptr (p1 + length x, m1) y = (p2 + length y, m2)"
    by (simp add: append_ptr_def Let_def p2_def)
  obtain m3 where m3: "append_ptr (p2 + length y, m2) z = (p3 + length z, m3)"
    by (simp add: append_ptr_def Let_def p3_def)
  have v': "v' = v\<lparr>av_map := m3, append_offset := p3 + length z, current_len := p3 + length z\<rparr>"
    using assms(2) by (auto simp: append_ptrs_locked_def m1 m2 m3 split: if_splits)
  have len: "length (av_map v) = av_file_size v" "current_len v = append_offset v"
    using assms(1) by (simp_all add: av_ok_def)
  have s1: "length m1 = av_file_size v" "\<And>n. n \<le> p1 \<Longrightarrow> take n m1 = take n (av_map v)"
    "take (length x) (drop p1 m1) = x"
    using append_ptr_spec [OF _ m1] fits le len by (auto simp: p1_def [symmetric])
  have s2: "length m2 = av_file_size v" "\<And>n. n \<le> p2 \<Longrightarrow> take n m2 = take n m1"
    "take (length y) (drop p2 m2) = y"
    using append_ptr_spec [OF _ m2] fits le s1 by (auto simp: p2_def [symmetric])
  have s3: "length m3 = av_file_size v" "\<And>n. n \<le> p3 \<Longrightarrow> take n m3 = take n m2"
    "take (length z) (drop p3 m3) = z"
    using append_ptr_spec [OF _ m3] fits le s2 by (auto simp: p3_def [symmetric])
  have sub: "take l (drop o' a) = take l (drop o' b)" if "take (o' + l) a = take (o' + l) b"
    for o' l and a b :: bytes
    using arg_cong [OF that, of "drop o'"] by (simp add: drop_take)
  have "take (length x) (drop p1 m3) = x"
    using sub [of p1 "length x" m3 m1] s1(3) s2(2) [of "p1 + length x"] s3(2) [of "p1 + length x"] le by simp
  moreover have "take (length y) (drop p2 m3) = y"
    using sub [of p2 "length y" m3 m2] s2(3) s3(2) [of "p2 + length y"] le by simp
  moreover have "take (append_offset v) m3 = take (append_offset v) (av_map v)"
    using s1(2) s2(2) s3(2) le by simp
  ultimately show ?thesis
    using pos v' fits s3 le len by (simp add: av_ok_def av_extends_def)
qed

lemma append_one:
  assumes "av_ok v" "layout_ok L" "entry_ok (m, a)"
    "append_ptrs_locked v (account_ptrs L (m, a)) = (Some pos, v')"
  shows "pos = align_up (append_offset v) \<and> av_ok v' \<and> av_extends v v' \<and> av_file_size v' = av_file_size v \<and>
    get_account L v' pos = Some (stored m a, align_up (append_offset v'))"
proof -
  let ?b = "\<lparr>bal_difs = difs a, bal_owner = owner a, bal_executable = executable a, bal_reputations = reputations a\<rparr>"
  let ?d = "take (unat (data_len m)) (data a)"
  have e: "valid_key (meta_pubkey m)" "valid_key (owner a)" "length ?d = unat (data_len m)"
    using assms(3) by (simp_all add: entry_ok_def)
  have L: "length (meta_bytes L m) = meta_size L" "read_meta L (meta_bytes L m) = m"
    "length (balance_bytes L ?b) = balance_size L" "read_balance L (balance_bytes L ?b) = ?b"
    using assms(2) e unfolding layout_ok_def by simp_all
  have "account_ptrs L (m, a) = [meta_bytes L m, balance_bytes L ?b, ?d]"
    by (simp add: account_ptrs_def Let_def)
  note spec = append_ptrs_locked_spec [OF assms(1) assms(4) [unfolded this], unfolded L e(3)]
  have len: "current_len v' = append_offset v'" using spec by (simp add: av_ok_def)
  note le = align_up_ge [of "align_up (append_offset v) + meta_size L"]
    align_up_ge [of "align_up (align_up (append_offset v) + meta_size L) + balance_size L"]
  have "get_account L v' pos = Some (stored m a, align_up (append_offset v'))"
    unfolding get_account_Some_iff get_slice_Some_iff len stored_def
    using spec le by (intro exI conjI) (auto simp: L)
  then show ?thesis using spec by simp
qed

text \<open>The records of a store, one after the other from an offset.\<close>

fun av_chain :: "mem_layout \<Rightarrow> append_vec \<Rightarrow> nat \<Rightarrow> stored_account list \<Rightarrow> bool" where
  "av_chain L v start [] \<longleftrightarrow> start = align_up (append_offset v)"
| "av_chain L v start (r # rs) \<longleftrightarrow> (\<exists>nx. get_account L v start = Some (r, nx) \<and> av_chain L v nx rs)"

lemma get_account_end:
  assumes "av_ok v" "layout_ok L"
  shows "get_account L v (align_up (append_offset v)) = None"
proof -
  have "current_len v < align_up (append_offset v) + meta_size L"
    using assms align_up_ge [of "append_offset v"] by (simp add: av_ok_def layout_ok_def)
  then show ?thesis by (simp add: get_account_def get_slice_def)
qed

lemma av_chain_accounts:
  assumes "av_ok v" "layout_ok L"
  shows "av_chain L v start rs \<Longrightarrow> av_accounts L v start = Some rs"
proof (induction rs arbitrary: start)
  case Nil
  then show ?case using get_account_end [OF assms] by (simp add: av_accounts.simps)
next
  case (Cons r rs)
  then show ?case by (auto simp: av_accounts.simps [of L v start])
qed

lemma av_chain_append:
  assumes "av_ok v" "layout_ok L" "entry_ok (m, a)"
    "append_ptrs_locked v (account_ptrs L (m, a)) = (Some pos, v')"
  shows "av_chain L v start rs \<Longrightarrow> av_chain L v' start (rs @ [stored m a])"
proof (induction rs arbitrary: start)
  case Nil
  then show ?case using append_one [OF assms] by auto
next
  case (Cons r rs)
  then show ?case using append_one [OF assms] get_account_extends by fastforce
qed

lemma append_accounts_spec:
  assumes "layout_ok L"
  shows "av_ok v \<Longrightarrow> (\<And>ma. ma \<in> set mas \<Longrightarrow> entry_ok ma) \<Longrightarrow> av_chain L v 0 rs \<Longrightarrow>
    append_accounts L v mas = (rv, v') \<Longrightarrow>
    av_ok v' \<and> av_extends v v' \<and> av_file_size v' = av_file_size v \<and> length rv \<le> length mas \<and>
    (\<forall>i < length rv. \<exists>nx. get_account L v' (rv ! i) = Some (stored (fst (mas ! i)) (snd (mas ! i)), nx)) \<and>
    av_chain L v' 0 (rs @ map (\<lambda>ma. stored (fst ma) (snd ma)) (take (length rv) mas)) \<and>
    (length rv < length mas \<longrightarrow>
       av_file_size v' < append_end (append_offset v') (account_ptrs L (mas ! length rv)))"
proof (induction mas arbitrary: v rs rv v')
  case (Cons ma mas)
  obtain m a where ma: "ma = (m, a)" by (cases ma)
  obtain r u where r: "append_ptrs_locked v (account_ptrs L ma) = (r, u)"
    by (cases "append_ptrs_locked v (account_ptrs L ma)")
  show ?case
  proof (cases r)
    case None
    then have "rv = []" "v' = u" "u = v" "av_file_size v < append_end (append_offset v) (account_ptrs L ma)"
      using Cons.prems(4) r by (auto simp: append_ptrs_locked_def split: if_splits prod.splits)
    then show ?thesis using Cons.prems by simp
  next
    case (Some pos)
    note r' = r [unfolded Some ma]
    have e: "entry_ok (m, a)" using Cons.prems(2) ma by simp
    note one = append_one [OF Cons.prems(1) assms e r']
    note chain = av_chain_append [OF Cons.prems(1) assms e r' Cons.prems(3)]
    obtain rv' where rv: "rv = pos # rv'" "append_accounts L u mas = (rv', v')"
      using Cons.prems(4) r Some by (auto simp: Let_def split: prod.splits)
    have u: "av_ok u" and es: "\<And>x. x \<in> set mas \<Longrightarrow> entry_ok x" using one Cons.prems(2) by auto
    note IH = Cons.IH [OF u es chain rv(2)]
    have "get_account L v' pos = Some (stored m a, align_up (append_offset u))"
      using get_account_extends IH one by blast
    then have "\<exists>nx. get_account L v' (rv ! i) = Some (stored (fst ((ma # mas) ! i)) (snd ((ma # mas) ! i)), nx)"
      if "i < length rv" for i
      using that IH ma rv(1) by (cases i) auto
    then show ?thesis
      using IH one rv(1) ma by (auto intro: av_extends_trans)
  qed
qed auto

lemma append_end_le: "off \<le> append_end off vals"
proof (induction vals arbitrary: off)
  case (Cons val vals)
  show ?case
    using Cons [of "align_up off + length val"] align_up_ge [of off] by (simp add: append_end_def)
qed (simp add: append_end_def)

lemma av_accounts_total:
  assumes "layout_ok L"
  shows "\<exists>sas. av_accounts L v start = Some sas"
proof (induction "current_len v - start" arbitrary: start rule: less_induct)
  case less
  show ?case
  proof (cases "get_account L v start")
    case None
    then show ?thesis by (simp add: av_accounts.simps)
  next
    case (Some r)
    obtain sa nx where r: "r = (sa, nx)" by (cases r)
    have "current_len v - nx < current_len v - start"
      using get_account_next [OF Some [unfolded r]] assms by (auto simp: layout_ok_def)
    from less [OF this] Some r show ?thesis by (auto simp: av_accounts.simps [of L v start])
  qed
qed

lemma av_chain_new: "append_vec_new sz = Ok v \<Longrightarrow> av_ok v \<and> av_chain L v 0 [] \<and> av_file_size v = sz"
  by (auto simp: append_vec_new_def av_ok_def split: if_splits)

lemma av_reset_ok: "av_ok v \<Longrightarrow> av_ok (av_reset v) \<and> av_chain L (av_reset v) 0 []"
  by (simp add: av_reset_def av_ok_def)

section \<open>A layout\<close>

text \<open>Fields in declaration order, integers in little-endian bytes.\<close>

definition packed_layout :: mem_layout where
  "packed_layout =
     \<lparr>meta_size = 48, balance_size = 49,
      meta_bytes = (\<lambda>m. u64_bytes (write_version m) @ pubkey_bytes (meta_pubkey m) @ u64_bytes (data_len m)),
      balance_bytes = (\<lambda>b. u64_bytes (bal_difs b) @ pubkey_bytes (bal_owner b) @ [if bal_executable b then 1 else 0]
                             @ u64_bytes (bal_reputations b)),
      read_meta = (\<lambda>bs. \<lparr>write_version = bytes_u64 (take 8 bs), meta_pubkey = Pubkey (take 32 (drop 8 bs)),
                         data_len = bytes_u64 (take 8 (drop 40 bs))\<rparr>),
      read_balance = (\<lambda>bs. \<lparr>bal_difs = bytes_u64 (take 8 bs), bal_owner = Pubkey (take 32 (drop 8 bs)),
                            bal_executable = (bs ! 40 = 1), bal_reputations = bytes_u64 (drop 41 bs)\<rparr>)\<rparr>"

lemma packed_layout_ok: "layout_ok packed_layout"
  by (auto simp: layout_ok_def packed_layout_def valid_key_def nth_append)

section \<open>The contract\<close>

text \<open>
  Appending and reading back. On a store that holds the records \<open>rs\<close>, appending accounts
  returns the offsets of the ones that fit: each is read back at its offset, exactly as it was
  given (with the first \<open>data_len\<close> bytes of its data); everything that could be read before is
  still read; the scan from offset 0 ends and returns the old records followed by the new ones;
  and if some account was not stored, the first such account did not fit in the file.
\<close>

theorem append_vec_roundtrip:
  assumes "layout_ok L" "av_ok v" "av_chain L v 0 rs" "\<And>ma. ma \<in> set mas \<Longrightarrow> entry_ok ma"
    "append_accounts L v mas = (rv, v')"
  shows "av_ok v' \<and> length rv \<le> length mas \<and>
    (\<forall>i < length rv. \<exists>nx. get_account L v' (rv ! i) = Some (stored (fst (mas ! i)) (snd (mas ! i)), nx)) \<and>
    (\<forall>off r. get_account L v off = Some r \<longrightarrow> get_account L v' off = Some r) \<and>
    av_accounts L v' 0 = Some (rs @ map (\<lambda>ma. stored (fst ma) (snd ma)) (take (length rv) mas)) \<and>
    (length rv < length mas \<longrightarrow>
       av_file_size v < append_end (append_offset v') (account_ptrs L (mas ! length rv)))"
proof -
  note spec = append_accounts_spec [OF assms(1,2,4,3,5)]
  have ok: "av_ok v'" and ext: "av_extends v v'" and fs: "av_file_size v' = av_file_size v"
    and chain: "av_chain L v' 0 (rs @ map (\<lambda>ma. stored (fst ma) (snd ma)) (take (length rv) mas))"
    using spec by blast+
  have "\<forall>off r. get_account L v off = Some r \<longrightarrow> get_account L v' off = Some r"
    using get_account_extends [OF ext] by blast
  with spec av_chain_accounts [OF ok assms(1) chain] show ?thesis
    unfolding fs by blast
qed

definition demo_meta :: "u8 \<Rightarrow> u64 \<Rightarrow> storage_meta" where
  "demo_meta b n = \<lparr>write_version = 0, meta_pubkey = Pubkey (replicate 32 b), data_len = n\<rparr>"

definition demo_vec :: append_vec where
  "demo_vec = \<lparr>av_map = replicate 256 0, append_offset = 0, current_len = 0, av_file_size = 256\<rparr>"

definition demo_entries :: "(storage_meta \<times> account) list" where
  "demo_entries =
     [(demo_meta 1 2, (account_new 5 0 2 default_pubkey)\<lparr>data := [7, 9]\<rparr>), (demo_meta 2 0, account_new 6 0 0 default_pubkey),
      (demo_meta 3 0, account_new 7 0 0 default_pubkey)]"

lemma append_ptrs_locked_alt:
  "append_ptrs_locked v vals =
     (if av_file_size v < append_end (append_offset v) vals then (None, v)
      else (Some (align_up (append_offset v)),
            v\<lparr>av_map := snd (fold (\<lambda>val om. append_ptr om val) vals (append_offset v, av_map v)),
              append_offset := append_end (append_offset v) vals,
              current_len := append_end (append_offset v) vals\<rparr>))"
proof -
  have "fst (fold (\<lambda>val om. append_ptr om val) vals om) = append_end (fst om) vals" for om
    by (induction vals arbitrary: om) (simp_all add: append_end_def append_ptr_def Let_def)
  from this [of "(append_offset v, av_map v)"] show ?thesis
    by (simp add: append_ptrs_locked_def case_prod_beta)
qed

lemma demo_append: "fst (append_accounts packed_layout demo_vec demo_entries) = [0, 112]"
  by (simp add: demo_entries_def demo_vec_def demo_meta_def append_ptrs_locked_alt append_end_def
      account_ptrs_def packed_layout_def align_up_def account_new_def default_pubkey_def case_prod_beta)

theorem append_vec_roundtrip_witness:
  "av_accounts packed_layout (snd (append_accounts packed_layout demo_vec demo_entries)) 0 =
     Some (map (\<lambda>ma. stored (fst ma) (snd ma)) (take 2 demo_entries))"
proof -
  have ok: "av_ok demo_vec" "av_chain packed_layout demo_vec 0 []"
    by (simp_all add: av_ok_def demo_vec_def)
  have e: "\<And>ma. ma \<in> set demo_entries \<Longrightarrow> entry_ok ma"
    by (auto simp: demo_entries_def entry_ok_def valid_key_def demo_meta_def account_new_def default_pubkey_def)
  obtain v' where v': "append_accounts packed_layout demo_vec demo_entries = ([0, 112], v')"
    using demo_append by (metis prod.collapse)
  from append_vec_roundtrip [OF packed_layout_ok ok e v'] show ?thesis
    unfolding v' by (simp add: numeral_2_eq_2)
qed

end
