(* ===== verification/Accounts_DB.thy ===== *)
theory Accounts_DB
  imports Append_Vec
begin

text \<open>
  The accounts database, \<^verbatim>\<open>src/runtime/src/accounts_db.rs\<close>: append-only stores, each for one fork, an
  index into them, and reference counts that tell when a store can be reused and when a fork is
  dead. Stores are shared through \<open>Arc\<close> and changed in place: they are the values of an association
  list from ids to entries, in the (arbitrary) order of the hash map.

  The random choice of a store (\<open>thread_rng().gen_range\<close>) and the memory layout of the records are
  parameters, collected in \<open>db_env\<close>. Paths only name files and are left out; ids, counts and write
  versions are counters of the process and do not reach their width.
\<close>

section \<open>Stores\<close>

record account_info =
  ai_id :: nat
  ai_offset :: nat
  ai_difs :: u64

datatype account_storage_status = StorageAvailable | StorageFull

record storage_entry =
  se_id :: nat
  se_fork :: fork
  se_accounts :: append_vec
  se_count :: nat
  se_status :: account_storage_status

definition storage_entry_new :: "fork \<Rightarrow> nat \<Rightarrow> nat \<Rightarrow> ('e, storage_entry) res" where
  "storage_entry_new f i file_size =
     res_bind (append_vec_new file_size) (\<lambda>v.
       Ok \<lparr>se_id = i, se_fork = f, se_accounts = v, se_count = 0, se_status = StorageAvailable\<rparr>)"

definition entry_set_status :: "account_storage_status \<Rightarrow> storage_entry \<Rightarrow> storage_entry" where
  "entry_set_status st e =
     (if st = StorageFull \<and> se_count e = 0
      then e\<lparr>se_accounts := av_reset (se_accounts e), se_status := StorageAvailable\<rparr>
      else e\<lparr>se_status := st\<rparr>)"

definition add_account :: "storage_entry \<Rightarrow> storage_entry" where
  "add_account e = e\<lparr>se_count := se_count e + 1\<rparr>"

text \<open>The count is a \<open>usize\<close>: below zero it wraps around.\<close>

definition remove_account :: "storage_entry \<Rightarrow> storage_entry" where
  "remove_account e =
     (let e' = (if se_count e = 1 \<and> se_status e = StorageFull
                then e\<lparr>se_accounts := av_reset (se_accounts e), se_status := StorageAvailable\<rparr>
                else e)
      in e'\<lparr>se_count := (if se_count e = 0 then 2 ^ 64 - 1 else se_count e - 1)\<rparr>)"

section \<open>The database\<close>

type_synonym account_storage = "(nat \<times> storage_entry) list"

record accounts_db =
  db_index :: "account_info accounts_index"
  db_storage :: account_storage
  db_next_id :: nat
  db_write_version :: nat
  db_file_size :: nat

record db_env =
  env_layout :: mem_layout
  env_gen_range :: "accounts_db \<Rightarrow> nat \<Rightarrow> nat"

definition ACCOUNT_DATA_FILE_SIZE :: nat where
  "ACCOUNT_DATA_FILE_SIZE = 64 * 1024 * 1024"

definition accounts_db_new_with_file_size :: "nat \<Rightarrow> accounts_db" where
  "accounts_db_new_with_file_size file_size =
     \<lparr>db_index = accounts_index_default, db_storage = [], db_next_id = 0, db_write_version = 0,
      db_file_size = file_size\<rparr>"

definition accounts_db_new :: accounts_db where
  "accounts_db_new = accounts_db_new_with_file_size ACCOUNT_DATA_FILE_SIZE"

definition update_entry :: "nat \<Rightarrow> (storage_entry \<Rightarrow> storage_entry) \<Rightarrow> account_storage \<Rightarrow> account_storage" where
  "update_entry i f st = map (\<lambda>p. if fst p = i then (fst p, f (snd p)) else p) st"

definition new_storage_entry :: "fork \<Rightarrow> accounts_db \<Rightarrow> ('e, storage_entry \<times> accounts_db) res" where
  "new_storage_entry f db =
     res_bind (storage_entry_new f (db_next_id db) (db_file_size db)) (\<lambda>e.
       Ok (e, db\<lparr>db_next_id := db_next_id db + 1\<rparr>))"

definition db_has_accounts :: "accounts_db \<Rightarrow> fork \<Rightarrow> bool" where
  "db_has_accounts db f = list_ex (\<lambda>p. se_fork (snd p) = f \<and> se_count (snd p) > 0) (db_storage db)"

text \<open>
  The scan hands every record of every store of the fork to a function; its result is the list of
  records per store, on which the callers run theirs.
\<close>

definition scan_account_storage :: "db_env \<Rightarrow> accounts_db \<Rightarrow> fork \<Rightarrow> stored_account list option list" where
  "scan_account_storage E db f =
     map (\<lambda>p. av_accounts (env_layout E) (se_accounts (snd p)) 0)
       (filter (\<lambda>p. se_fork (snd p) = f) (db_storage db))"

definition stored_at :: "db_env \<Rightarrow> account_storage \<Rightarrow> account_info \<Rightarrow> account option" where
  "stored_at E st info =
     (case map_of st (ai_id info) of
        None \<Rightarrow> None
      | Some e \<Rightarrow> map_option (\<lambda>r. clone_account (fst r)) (get_account (env_layout E) (se_accounts e) (ai_offset info)))"

definition db_load :: "db_env \<Rightarrow> accounts_db \<Rightarrow> ancestors \<Rightarrow> pubkey \<Rightarrow> (account \<times> fork) option" where
  "db_load E db anc k =
     (case index_get (db_index db) k anc of
        None \<Rightarrow> None
      | Some (info, f) \<Rightarrow> map_option (\<lambda>a. (a, f)) (stored_at E (db_storage db) info))"

definition candidates :: "fork \<Rightarrow> accounts_db \<Rightarrow> nat list" where
  "candidates f db =
     map fst (filter (\<lambda>p. se_status (snd p) = StorageAvailable \<and> se_fork (snd p) = f) (db_storage db))"

definition fork_storage :: "db_env \<Rightarrow> fork \<Rightarrow> accounts_db \<Rightarrow> ('e, nat \<times> accounts_db) res" where
  "fork_storage E f db =
     (if candidates f db = [] then
        res_bind (new_storage_entry f db) (\<lambda>(e, db).
          Ok (se_id e, db\<lparr>db_storage := AList.update (se_id e) e (db_storage db)\<rparr>))
      else
        res_bind (idx (candidates f db) (env_gen_range E db (length (candidates f db)))) (\<lambda>i. Ok (i, db)))"

definition db_purge_fork :: "fork \<Rightarrow> accounts_db \<Rightarrow> accounts_db" where
  "db_purge_fork f db =
     (if \<not> is_root (db_index db) f
      then db\<lparr>db_storage := filter (\<lambda>p. se_fork (snd p) \<noteq> f) (db_storage db)\<rparr>
      else db)"

section \<open>Storing\<close>

fun with_meta :: "nat \<Rightarrow> (pubkey \<times> account) list \<Rightarrow> (storage_meta \<times> account) list" where
  "with_meta wv [] = []"
| "with_meta wv ((k, a) # as) =
     (\<lparr>write_version = of_nat wv, meta_pubkey = k,
       data_len = (if difs a = 0 then 0 else of_nat (length (data a)))\<rparr>, a) # with_meta (wv + 1) as"

text \<open>One round of the loop: append to the chosen store what fits, and count it.\<close>

definition storage_append ::
  "db_env \<Rightarrow> nat \<Rightarrow> (storage_meta \<times> account) list \<Rightarrow> accounts_db \<Rightarrow> account_info list \<times> accounts_db" where
  "storage_append E i rest db =
     (case map_of (db_storage db) i of
        None \<Rightarrow> ([], db)
      | Some e \<Rightarrow>
          let (rvs, v) = append_accounts (env_layout E) (se_accounts e) rest;
              e' = e\<lparr>se_accounts := v\<rparr>;
              e' = (if rvs = [] then entry_set_status StorageFull e' else e');
              e' = (add_account ^^ length rvs) e'
          in (map (\<lambda>(off, ma). \<lparr>ai_id = i, ai_offset = off, ai_difs = difs (snd ma)\<rparr>) (zip rvs rest),
              db\<lparr>db_storage := update_entry i (\<lambda>_. e') (db_storage db)\<rparr>))"

partial_function (option) store_loop ::
  "db_env \<Rightarrow> fork \<Rightarrow> (storage_meta \<times> account) list \<Rightarrow> accounts_db \<Rightarrow> account_info list \<Rightarrow>
     ('e, account_info list \<times> accounts_db) res option" where
  "store_loop E f metas db infos =
     (if length infos < length metas then
        (case fork_storage E f db of
           Ok (i, db) \<Rightarrow>
             (case storage_append E i (drop (length infos) metas) db of
                (new, db) \<Rightarrow> store_loop E f metas db (infos @ new))
         | Err e \<Rightarrow> Some (Err e)
         | Panic \<Rightarrow> Some Panic)
      else Some (Ok (infos, db)))"

definition db_store_accounts ::
  "db_env \<Rightarrow> fork \<Rightarrow> (pubkey \<times> account) list \<Rightarrow> accounts_db \<Rightarrow>
     ('e, account_info list \<times> accounts_db) res option" where
  "db_store_accounts E f accounts db =
     store_loop E f (with_meta (db_write_version db) accounts)
       (db\<lparr>db_write_version := db_write_version db + length accounts\<rparr>) []"

fun update_index ::
  "fork \<Rightarrow> (account_info \<times> pubkey) list \<Rightarrow> account_info accounts_index \<Rightarrow>
     (fork \<times> account_info) list \<times> account_info accounts_index" where
  "update_index f [] ix = ([], ix)"
| "update_index f ((info, k) # rest) ix =
     (let (rv, ix) = index_insert ix f k info; (rvs, ix) = update_index f rest ix in (rv @ rvs, ix))"

fun remove_reclaims :: "(fork \<times> account_info) list \<Rightarrow> account_storage \<Rightarrow> ('e, account_storage) res" where
  "remove_reclaims [] st = Ok st"
| "remove_reclaims ((f, info) # rest) st =
     (case map_of st (ai_id info) of
        None \<Rightarrow> remove_reclaims rest st
      | Some e \<Rightarrow> if f \<noteq> se_fork e then Panic
                  else remove_reclaims rest (update_entry (ai_id info) remove_account st))"

definition dead_forks :: "account_storage \<Rightarrow> fork list" where
  "dead_forks st =
     filter (\<lambda>f. \<not> list_ex (\<lambda>p. se_fork (snd p) = f \<and> se_count (snd p) > 0) st)
       (map (\<lambda>p. se_fork (snd p)) (filter (\<lambda>p. se_count (snd p) = 0) st))"

definition remove_dead_accounts ::
  "(fork \<times> account_info) list \<Rightarrow> accounts_db \<Rightarrow> ('e, fork list \<times> accounts_db) res" where
  "remove_dead_accounts reclaims db =
     res_bind (remove_reclaims reclaims (db_storage db)) (\<lambda>st.
       Ok (dead_forks st, db\<lparr>db_storage := st\<rparr>))"

definition cleanup_dead_forks :: "fork list \<Rightarrow> accounts_db \<Rightarrow> fork list \<times> accounts_db" where
  "cleanup_dead_forks dead db =
     (let dead = filter (\<lambda>f. f < last_root (db_index db)) dead
      in (dead, db\<lparr>db_index := fold cleanup_dead_fork dead (db_index db)\<rparr>))"

definition db_store ::
  "db_env \<Rightarrow> fork \<Rightarrow> (pubkey \<times> account) list \<Rightarrow> accounts_db \<Rightarrow> ('e, accounts_db) res option" where
  "db_store E f accounts db =
     map_option (\<lambda>r. res_bind r (\<lambda>(infos, db).
       let (reclaims, ix) = update_index f (zip infos (map fst accounts)) (db_index db) in
       res_bind (remove_dead_accounts reclaims (db\<lparr>db_index := ix\<rparr>)) (\<lambda>(dead, db).
       let (dead, db) = cleanup_dead_forks dead db in
       Ok (fold db_purge_fork dead db)))) (db_store_accounts E f accounts db)"

definition db_add_root :: "fork \<Rightarrow> accounts_db \<Rightarrow> ('e, accounts_db) res" where
  "db_add_root f db = res_bind (index_add_root f (db_index db)) (\<lambda>ix. Ok (db\<lparr>db_index := ix\<rparr>))"

section \<open>Invariant\<close>

definition db_env_ok :: "db_env \<Rightarrow> bool" where
  "db_env_ok E \<longleftrightarrow> layout_ok (env_layout E) \<and> (\<forall>db n. 0 < n \<longrightarrow> env_gen_range E db n < n)"

text \<open>
  \<open>M\<close> is the multiset of references (fork and record) that must stay readable: those of the index
  and, while a store is under way, those not yet in the index or not yet released. \<open>P\<close> are the forks
  that were purged: their stores are gone.
\<close>

definition entry_inv :: "db_env \<Rightarrow> fork set \<Rightarrow> (fork \<times> account_info) multiset \<Rightarrow> accounts_db \<Rightarrow> nat \<Rightarrow> storage_entry \<Rightarrow> bool" where
  "entry_inv E P M db i e \<longleftrightarrow>
     se_id e = i \<and> i < db_next_id db \<and> se_fork e \<notin> P \<and> av_ok (se_accounts e) \<and>
     av_file_size (se_accounts e) = db_file_size db \<and> (\<exists>rs. av_chain (env_layout E) (se_accounts e) 0 rs) \<and>
     se_count e = size {#x \<in># M. ai_id (snd x) = i#}"

definition ref_inv :: "db_env \<Rightarrow> fork set \<Rightarrow> accounts_db \<Rightarrow> fork \<Rightarrow> account_info \<Rightarrow> bool" where
  "ref_inv E P db f info \<longleftrightarrow>
     ai_id info < db_next_id db \<and>
     (if f \<in> P then map_of (db_storage db) (ai_id info) = None
      else (\<exists>e. map_of (db_storage db) (ai_id info) = Some e \<and> se_fork e = f) \<and>
           stored_at E (db_storage db) info \<noteq> None)"

definition store_inv :: "db_env \<Rightarrow> fork set \<Rightarrow> (fork \<times> account_info) multiset \<Rightarrow> accounts_db \<Rightarrow> bool" where
  "store_inv E P M db \<longleftrightarrow>
     distinct (map fst (db_storage db)) \<and>
     (\<forall>i e. map_of (db_storage db) i = Some e \<longrightarrow> entry_inv E P M db i e) \<and>
     (\<forall>f info. (f, info) \<in># M \<longrightarrow> ref_inv E P db f info)"

text \<open>Everything that \<open>M\<close> refers to is read in the new storage as in the old.\<close>

definition same_reads :: "db_env \<Rightarrow> fork set \<Rightarrow> (fork \<times> account_info) multiset \<Rightarrow> accounts_db \<Rightarrow> accounts_db \<Rightarrow> bool" where
  "same_reads E P M db db' \<longleftrightarrow>
     (\<forall>f info. (f, info) \<in># M \<longrightarrow> f \<notin> P \<longrightarrow> stored_at E (db_storage db') info = stored_at E (db_storage db) info)"

lemma map_of_update_entry:
  "map_of (update_entry i f st) j = (if j = i then map_option f (map_of st j) else map_of st j)"
  unfolding update_entry_def by (induction st) auto

lemma map_fst_update_entry [simp]: "map fst (update_entry i f st) = map fst st"
  unfolding update_entry_def by (induction st) auto

lemma same_reads_refl [simp]: "same_reads E P M db db"
  by (simp add: same_reads_def)

lemma same_reads_trans: "same_reads E P M a b \<Longrightarrow> same_reads E P M b c \<Longrightarrow> same_reads E P M a c"
  by (simp add: same_reads_def)

lemma same_reads_mono: "same_reads E P (M + N) a b \<Longrightarrow> same_reads E P M a b"
  by (auto simp: same_reads_def)

text \<open>
  The frame of one change: entry \<open>i\<close> is replaced by \<open>e'\<close>, which still reads what is referenced, and
  the references change from \<open>M\<close> to \<open>N\<close> in that entry only.
\<close>

lemma update_entry_inv:
  assumes inv: "store_inv E P M db" and e: "map_of (db_storage db) i = Some e"
    and e': "entry_inv E P N db i e'" "se_fork e' = se_fork e"
    and old: "\<And>f info. (f, info) \<in># N \<Longrightarrow> (f, info) \<in># M \<Longrightarrow> ai_id info = i \<Longrightarrow>
       get_account (env_layout E) (se_accounts e') (ai_offset info) = get_account (env_layout E) (se_accounts e) (ai_offset info)"
    and new: "\<And>f info. (f, info) \<in># N \<Longrightarrow> (f, info) \<notin># M \<Longrightarrow> ai_id info = i \<and> f = se_fork e \<and>
       get_account (env_layout E) (se_accounts e') (ai_offset info) \<noteq> None"
    and cnt: "\<And>j. j \<noteq> i \<Longrightarrow> {#x \<in># N. ai_id (snd x) = j#} = {#x \<in># M. ai_id (snd x) = j#}"
  shows "store_inv E P N (db\<lparr>db_storage := update_entry i (\<lambda>_. e') (db_storage db)\<rparr>) \<and>
    same_reads E P (M \<inter># N) db (db\<lparr>db_storage := update_entry i (\<lambda>_. e') (db_storage db)\<rparr>)"
proof -
  let ?db = "db\<lparr>db_storage := update_entry i (\<lambda>_. e') (db_storage db)\<rparr>"
  have ent: "entry_inv E P N ?db j d" if "map_of (db_storage ?db) j = Some d" for j d
  proof (cases "j = i")
    case True
    then show ?thesis using that e e' by (simp add: map_of_update_entry entry_inv_def)
  next
    case False
    then have "entry_inv E P M db j d" using that inv by (simp add: map_of_update_entry store_inv_def)
    then show ?thesis using cnt [OF False] by (simp add: entry_inv_def)
  qed
  have rd: "stored_at E (db_storage ?db) info = stored_at E (db_storage db) info"
    if "(f, info) \<in># N" "(f, info) \<in># M" for f info
    using old [OF that] e by (simp add: stored_at_def map_of_update_entry)
  have P: "se_fork e \<notin> P" using inv e by (auto simp: store_inv_def entry_inv_def)
  have ref: "ref_inv E P ?db f info" if fi: "(f, info) \<in># N" for f info
  proof (cases "(f, info) \<in># M")
    case True
    then have "ref_inv E P db f info" using inv by (simp add: store_inv_def)
    then show ?thesis
      using rd [OF fi True] e e'(2) by (auto simp: ref_inv_def map_of_update_entry)
  next
    case False
    note n = new [OF fi False]
    have "i < db_next_id db" using e' by (simp add: entry_inv_def)
    then show ?thesis using n e e'(2) P by (auto simp: ref_inv_def map_of_update_entry stored_at_def)
  qed
  have "distinct (map fst (db_storage ?db))" using inv by (simp add: store_inv_def)
  then have "store_inv E P N ?db" using ent ref unfolding store_inv_def by blast
  moreover have "same_reads E P (M \<inter># N) db ?db" using rd unfolding same_reads_def by auto
  ultimately show ?thesis by blast
qed

section \<open>Choosing a store and appending to it\<close>

definition same_meta :: "accounts_db \<Rightarrow> accounts_db \<Rightarrow> bool" where
  "same_meta db db' \<longleftrightarrow> db_index db' = db_index db \<and> db_file_size db' = db_file_size db"

text \<open>The stores that are open for the fork and not empty: how often a store can turn out full.\<close>

definition open_used :: "fork \<Rightarrow> accounts_db \<Rightarrow> nat set" where
  "open_used f db = {i. \<exists>e. map_of (db_storage db) i = Some e \<and> se_status e = StorageAvailable \<and>
     se_fork e = f \<and> current_len (se_accounts e) \<noteq> 0}"

lemma finite_open_used [simp]: "finite (open_used f db)"
  by (rule finite_subset [of _ "dom (map_of (db_storage db))"])
    (auto simp: open_used_def finite_dom_map_of)

lemma store_inv_fresh:
  assumes "store_inv E P M db"
  shows "map_of (db_storage db) (db_next_id db) = None"
proof (cases "map_of (db_storage db) (db_next_id db)")
  case (Some e)
  then have "entry_inv E P M db (db_next_id db) e" using assms by (simp add: store_inv_def)
  then show ?thesis by (simp add: entry_inv_def)
qed

lemma candidates_iff:
  assumes "store_inv E P M db"
  shows "i \<in> set (candidates f db) \<longleftrightarrow>
    (\<exists>e. map_of (db_storage db) i = Some e \<and> se_status e = StorageAvailable \<and> se_fork e = f)"
  using assms by (auto simp: candidates_def store_inv_def image_iff map_of_eq_Some_iff)

lemma fork_storage_spec:
  assumes inv: "store_inv E P M db" and E: "db_env_ok E" and f: "f \<notin> P" and fs: "0 < db_file_size db"
  shows "\<exists>i db' e. (fork_storage E f db :: ('x, nat \<times> accounts_db) res) = Ok (i, db') \<and>
    store_inv E P M db' \<and> same_reads E P M db db' \<and> same_meta db db' \<and> open_used f db' = open_used f db \<and>
    map_of (db_storage db') i = Some e \<and> se_status e = StorageAvailable \<and> se_fork e = f"
proof (cases "candidates f db = []")
  case False
  let ?n = "env_gen_range E db (length (candidates f db))"
  have n: "?n < length (candidates f db)" using False E by (simp add: db_env_ok_def)
  then have "candidates f db ! ?n \<in> set (candidates f db)" by simp
  then obtain e where "map_of (db_storage db) (candidates f db ! ?n) = Some e"
    "se_status e = StorageAvailable" "se_fork e = f"
    using candidates_iff [OF inv] by blast
  moreover have "(fork_storage E f db :: ('x, nat \<times> accounts_db) res) = Ok (candidates f db ! ?n, db)"
    using False n by (simp add: fork_storage_def)
  ultimately show ?thesis using inv by (auto simp: same_meta_def)
next
  case True
  let ?v = "\<lparr>av_map = replicate (db_file_size db) 0, append_offset = 0, current_len = 0, av_file_size = db_file_size db\<rparr>"
  let ?e = "\<lparr>se_id = db_next_id db, se_fork = f, se_accounts = ?v, se_count = 0, se_status = StorageAvailable\<rparr>"
  let ?db = "db\<lparr>db_next_id := db_next_id db + 1, db_storage := AList.update (db_next_id db) ?e (db_storage db)\<rparr>"
  have r: "(fork_storage E f db :: ('x, nat \<times> accounts_db) res) = Ok (db_next_id db, ?db)"
    using True fs by (simp add: fork_storage_def new_storage_entry_def storage_entry_new_def append_vec_new_def)
  note fresh = store_inv_fresh [OF inv]
  have m: "map_of (db_storage ?db) = (map_of (db_storage db))(db_next_id db \<mapsto> ?e)"
    by (simp add: update_conv')
  have ids: "ai_id info < db_next_id db" if "(g, info) \<in># M" for g info
    using inv that by (auto simp: store_inv_def ref_inv_def)
  have none: "{#x \<in># M. ai_id (snd x) = db_next_id db#} = {#}"
    using ids by (fastforce simp: filter_mset_eq_mempty_iff)
  have rd: "stored_at E (db_storage ?db) info = stored_at E (db_storage db) info" if "(g, info) \<in># M" for g info
    using ids [OF that] m by (simp add: stored_at_def)
  have "entry_inv E P M ?db j d" if "map_of (db_storage ?db) j = Some d" for j d
  proof (cases "j = db_next_id db")
    case j: True
    then have "d = ?e" using that m by simp
    with j show ?thesis using none f by (auto simp: entry_inv_def av_ok_def intro!: exI [of _ "[]"])
  next
    case False
    then have "entry_inv E P M db j d" using that m inv by (simp add: store_inv_def)
    then show ?thesis by (auto simp: entry_inv_def)
  qed
  moreover have "ref_inv E P ?db g info" if "(g, info) \<in># M" for g info
  proof -
    have "ref_inv E P db g info" using inv that by (simp add: store_inv_def)
    then show ?thesis using rd [OF that] ids [OF that] m by (auto simp: ref_inv_def)
  qed
  moreover have "distinct (map fst (db_storage ?db))"
    using inv by (simp add: store_inv_def distinct_update)
  ultimately have "store_inv E P M ?db" unfolding store_inv_def by blast
  moreover have "same_reads E P M db ?db" using rd by (simp add: same_reads_def)
  moreover have "open_used f ?db = open_used f db"
    using m fresh by (auto simp: open_used_def)
  ultimately show ?thesis using r m by (auto simp: same_meta_def)
qed

lemma add_account_pow: "(add_account ^^ n) e = e\<lparr>se_count := se_count e + n\<rparr>"
  by (induction n) (simp_all add: add_account_def)

lemma size_filter_map_mset:
  "size {#x \<in># mset (map (\<lambda>i. (f, i)) infos). ai_id (snd x) = j#} = length (filter (\<lambda>i. ai_id i = j) infos)"
  by (induction infos) auto

text \<open>What a stored account reads back as: without its data when it has no difs.\<close>

definition as_stored :: "account \<Rightarrow> account" where
  "as_stored a = (if difs a = 0 then a\<lparr>data := []\<rparr> else a)"

definition meta_of :: "storage_meta \<times> account \<Rightarrow> bool" where
  "meta_of ma \<longleftrightarrow> data_len (fst ma) = (if difs (snd ma) = 0 then 0 else of_nat (length (data (snd ma)))) \<and>
     length (data (snd ma)) < 2 ^ 64 \<and> entry_ok ma"

lemma clone_stored:
  assumes "meta_of ma"
  shows "clone_account (stored (fst ma) (snd ma)) = as_stored (snd ma)"
  using assms by (cases ma) (auto simp: meta_of_def clone_account_def stored_def as_stored_def unat_of_nat)

lemma append_accounts_none: "append_accounts L v mas = ([], v') \<Longrightarrow> v' = v"
  by (cases mas) (auto simp: append_ptrs_locked_def Let_def split: option.splits prod.splits if_splits)

lemma reset_chain:
  assumes "av_ok v"
  shows "av_ok (av_reset v) \<and> av_file_size (av_reset v) = av_file_size v \<and> (\<exists>rs. av_chain L (av_reset v) 0 rs)"
  using av_reset_ok [OF assms, of L] by (intro conjI exI [of _ "[]"]) (simp_all add: av_reset_def)

text \<open>The new entry of the round, and that the round keeps the invariant.\<close>

lemma storage_append_spec:
  assumes inv: "store_inv E P M db" and E: "db_env_ok E"
    and e: "map_of (db_storage db) i = Some e" "se_status e = StorageAvailable"
    and rest: "rest \<noteq> []" "\<forall>ma \<in> set rest. meta_of ma"
    and r: "storage_append E i rest db = (new, db')"
  shows "store_inv E P (M + mset (map (\<lambda>x. (se_fork e, x)) new)) db' \<and> same_reads E P M db db' \<and>
    same_meta db db' \<and> length new \<le> length rest \<and>
    (\<forall>j < length new. stored_at E (db_storage db') (new ! j) = Some (as_stored (snd (rest ! j)))) \<and>
    (new = [] \<longrightarrow> append_end 0 (account_ptrs (env_layout E) (hd rest)) \<le> db_file_size db \<longrightarrow>
       card (open_used (se_fork e) db') < card (open_used (se_fork e) db))"
proof -
  let ?L = "env_layout E"
  have L: "layout_ok ?L" using E by (simp add: db_env_ok_def)
  have ei: "entry_inv E P M db i e" using inv e by (simp add: store_inv_def)
  then obtain rs where av: "av_ok (se_accounts e)" "av_chain ?L (se_accounts e) 0 rs"
      "av_file_size (se_accounts e) = db_file_size db"
    by (auto simp: entry_inv_def)
  obtain rvs v where ap: "append_accounts ?L (se_accounts e) rest = (rvs, v)"
    by (cases "append_accounts ?L (se_accounts e) rest")
  have eok: "\<And>ma. ma \<in> set rest \<Longrightarrow> entry_ok ma" using rest(2) by (simp add: meta_of_def)
  note spec = append_accounts_spec [OF L av(1) eok av(2) ap]
  define e0 where "e0 = (let x = e\<lparr>se_accounts := v\<rparr> in if rvs = [] then entry_set_status StorageFull x else x)"
  define e' where "e' = e0\<lparr>se_count := se_count e0 + length rvs\<rparr>"
  have new: "new = map (\<lambda>(off, ma). \<lparr>ai_id = i, ai_offset = off, ai_difs = difs (snd ma)\<rparr>) (zip rvs rest)"
    and db': "db' = db\<lparr>db_storage := update_entry i (\<lambda>_. e') (db_storage db)\<rparr>"
    using r by (simp_all add: storage_append_def e ap Let_def add_account_pow e'_def e0_def)
  let ?N = "M + mset (map (\<lambda>x. (se_fork e, x)) new)"
  have len: "length new = length rvs" using spec by (simp add: new)
  have ids: "ai_id x = i" if "x \<in> set new" for x using that by (auto simp: new)
  show ?thesis
  proof (cases "rvs = []")
    case False
    have e'_eq: "e' = e\<lparr>se_accounts := v, se_count := se_count e + length rvs\<rparr>"
      using False by (simp add: e'_def e0_def)
    have read: "get_account ?L v (ai_offset (new ! j)) \<noteq> None \<and>
        map_option (\<lambda>r. clone_account (fst r)) (get_account ?L v (ai_offset (new ! j))) = Some (as_stored (snd (rest ! j)))"
      if j: "j < length new" for j
    proof -
      from j len spec obtain nx where "get_account ?L v (rvs ! j) = Some (stored (fst (rest ! j)) (snd (rest ! j)), nx)"
        by auto
      moreover have "rest ! j \<in> set rest" using j len spec by auto
      ultimately show ?thesis using j len spec clone_stored rest(2) by (simp add: new)
    qed
    have "filter (\<lambda>x. ai_id x = i) new = new" using ids by (simp add: filter_id_conv)
    then have cnt: "size {#x \<in># ?N. ai_id (snd x) = i#} = se_count e + length rvs"
      using ei len by (simp add: size_filter_map_mset entry_inv_def del: mset_map)
    have inv_e: "entry_inv E P ?N db i e'"
      using ei spec cnt by (auto simp: entry_inv_def e'_eq simp del: filter_union_mset)
    have old: "get_account ?L (se_accounts e') (ai_offset info) = get_account ?L (se_accounts e) (ai_offset info)"
      if m: "(f, info) \<in># M" "ai_id info = i" for f info
    proof -
      have "ref_inv E P db f info" using inv m by (simp add: store_inv_def)
      then obtain x where "get_account ?L (se_accounts e) (ai_offset info) = Some x"
        using e m by (auto simp: ref_inv_def stored_at_def split: if_splits)
      then show ?thesis using spec get_account_extends [of "se_accounts e" v] by (simp add: e'_eq)
    qed
    have nw: "ai_id info = i \<and> f = se_fork e \<and> get_account ?L (se_accounts e') (ai_offset info) \<noteq> None"
      if "(f, info) \<in># ?N" "(f, info) \<notin># M" for f info
    proof -
      from that obtain j where "j < length new" "info = new ! j" "f = se_fork e"
        by (auto simp: in_set_conv_nth)
      then show ?thesis using read [of j] ids by (simp add: e'_eq)
    qed
    have cnt': "{#x \<in># ?N. ai_id (snd x) = j#} = {#x \<in># M. ai_id (snd x) = j#}" if "j \<noteq> i" for j
      using that ids by (auto simp: filter_mset_eq_mempty_iff)
    have fk: "se_fork e' = se_fork e" by (simp add: e'_eq)
    have upd: "store_inv E P ?N db' \<and> same_reads E P (M \<inter># ?N) db db'"
      unfolding db' by (rule update_entry_inv [OF inv e(1) inv_e fk]) (rule old nw cnt', assumption+)+
    have "stored_at E (db_storage db') (new ! j) = Some (as_stored (snd (rest ! j)))" if "j < length new" for j
      using read [OF that] ids that e by (simp add: db' stored_at_def map_of_update_entry e'_eq)
    moreover have "M \<inter># ?N = M" by (simp add: inter_mset_def)
    moreover have "same_meta db db'" by (simp add: same_meta_def db')
    moreover have "length new \<le> length rest" using spec by (simp add: len)
    moreover have "new \<noteq> []" using len False by auto
    ultimately show ?thesis using upd by simp
  next
    case True
    then have nil: "new = []" using len by simp
    have v: "v = se_accounts e" using ap True append_accounts_none by blast
    have e'_eq: "e' = entry_set_status StorageFull e" using True by (simp add: e'_def e0_def v)
    have no: "{#x \<in># M. ai_id (snd x) = i#} = {#}" if "se_count e = 0"
      using ei that by (simp add: entry_inv_def)
    have inv_e: "entry_inv E P M db i e'"
      using ei reset_chain [OF av(1), of ?L] by (auto simp: entry_inv_def e'_eq entry_set_status_def)
    have old: "get_account ?L (se_accounts e') (ai_offset info) = get_account ?L (se_accounts e) (ai_offset info)"
      if m: "(f, info) \<in># M" "ai_id info = i" for f info
    proof -
      have "(f, info) \<in># {#x \<in># M. ai_id (snd x) = i#}" using m by simp
      with no have "se_count e \<noteq> 0" by (metis empty_iff set_mset_empty)
      then show ?thesis by (simp add: e'_eq entry_set_status_def)
    qed
    have fk: "se_fork e' = se_fork e" by (simp add: e'_eq entry_set_status_def)
    have upd: "store_inv E P M db' \<and> same_reads E P (M \<inter># M) db db'"
      unfolding db' by (rule update_entry_inv [OF inv e(1) inv_e fk], rule old, assumption+, erule notE, assumption, rule refl)
    have "card (open_used (se_fork e) db') < card (open_used (se_fork e) db)"
      if "append_end 0 (account_ptrs ?L (hd rest)) \<le> db_file_size db"
    proof -
      have "av_file_size v < append_end (append_offset v) (account_ptrs ?L (hd rest))"
        using spec True rest(1) by (simp add: hd_conv_nth)
      then have "append_offset (se_accounts e) \<noteq> 0" using that av(3) v by (intro notI) simp
      then have i: "i \<in> open_used (se_fork e) db" using e av(1) by (simp add: open_used_def av_ok_def)
      have "open_used (se_fork e) db' \<subseteq> open_used (se_fork e) db - {i}"
        using e by (auto simp: open_used_def db' map_of_update_entry e'_eq entry_set_status_def av_reset_def split: if_splits)
      with i have "open_used (se_fork e) db' \<subset> open_used (se_fork e) db" by blast
      then show ?thesis by (rule psubset_card_mono [OF finite_open_used])
    qed
    moreover have "same_meta db db'" by (simp add: same_meta_def db')
    ultimately show ?thesis using upd by (simp add: nil)
  qed
qed

section \<open>The loop\<close>

definition fits :: "db_env \<Rightarrow> accounts_db \<Rightarrow> storage_meta \<times> account \<Rightarrow> bool" where
  "fits E db ma \<longleftrightarrow> meta_of ma \<and> append_end 0 (account_ptrs (env_layout E) ma) \<le> db_file_size db"

lemma store_loop_spec:
  assumes E: "db_env_ok E" and f: "f \<notin> P"
  shows "store_inv E P (M + mset (map (Pair f) infos)) db \<Longrightarrow> 0 < db_file_size db \<Longrightarrow>
    length infos \<le> length metas \<Longrightarrow> \<forall>ma \<in> set metas. fits E db ma \<Longrightarrow>
    \<exists>new db'. (store_loop E f metas db infos :: ('x, account_info list \<times> accounts_db) res option) = Some (Ok (infos @ new, db')) \<and>
      length infos + length new = length metas \<and> store_inv E P (M + mset (map (Pair f) (infos @ new))) db' \<and>
      same_reads E P (M + mset (map (Pair f) infos)) db db' \<and> same_meta db db' \<and>
      (\<forall>j < length new. stored_at E (db_storage db') (new ! j) = Some (as_stored (snd (metas ! (length infos + j)))))"
proof (induction "(length metas - length infos, card (open_used f db))" arbitrary: db infos
    rule: wf_induct_rule [OF wf_lex_prod [OF wf_less_than wf_less_than]])
  case (1 db infos)
  show ?case
  proof (cases "length infos < length metas")
    case False
    then have "(store_loop E f metas db infos :: ('x, account_info list \<times> accounts_db) res option) = Some (Ok (infos, db))"
      by (simp add: store_loop.simps)
    then show ?thesis using False "1.prems" by (intro exI [of _ "[]"] exI [of _ db]) (simp add: same_meta_def)
  next
    case True
    let ?M = "M + mset (map (Pair f) infos)" and ?rest = "drop (length infos) metas"
    obtain i db1 e where fs: "(fork_storage E f db :: ('x, nat \<times> accounts_db) res) = Ok (i, db1)"
      and inv1: "store_inv E P ?M db1" and rd1: "same_reads E P ?M db db1" and sm1: "same_meta db db1"
      and ou: "open_used f db1 = open_used f db"
      and e: "map_of (db_storage db1) i = Some e" "se_status e = StorageAvailable" "se_fork e = f"
      using fork_storage_spec [OF "1.prems"(1) E f "1.prems"(2)] by blast
    obtain nw db2 where sa: "storage_append E i ?rest db1 = (nw, db2)"
      by (cases "storage_append E i ?rest db1")
    have rest: "?rest \<noteq> []" "\<forall>ma \<in> set ?rest. meta_of ma"
      using True "1.prems"(4) by (auto simp: fits_def dest: in_set_dropD)
    note ap = storage_append_spec [OF inv1 E e(1,2) rest sa, unfolded e(3)]
    have inv2: "store_inv E P (M + mset (map (Pair f) (infos @ nw))) db2"
      using ap by (simp add: union_assoc)
    have sm2: "same_meta db db2" using ap sm1 by (simp add: same_meta_def)
    have "length nw \<le> length metas - length infos" using ap by simp
    then have len: "length (infos @ nw) \<le> length metas" using True by simp
    have fit: "\<forall>ma \<in> set metas. fits E db2 ma"
      using "1.prems"(4) sm2 by (simp add: fits_def same_meta_def)
    have "hd ?rest \<in> set metas" by (rule in_set_dropD [OF hd_in_set [OF rest(1)]])
    then have "append_end 0 (account_ptrs (env_layout E) (hd ?rest)) \<le> db_file_size db1"
      using "1.prems"(4) sm1 by (auto simp: fits_def same_meta_def)
    then have dec: "((length metas - length (infos @ nw), card (open_used f db2)),
        (length metas - length infos, card (open_used f db))) \<in> less_than <*lex*> less_than"
    proof (cases "nw = []")
      case False
      then have "0 < length nw" by simp
      then have "length metas - length (infos @ nw) < length metas - length infos"
        using True len unfolding length_append by linarith
      then show ?thesis by simp
    qed (use ap ou in simp)
    have fs2: "0 < db_file_size db2" using "1.prems"(2) sm2 by (simp add: same_meta_def)
    from "1.hyps" [OF dec inv2 fs2 len fit] obtain new db' where
      IH: "(store_loop E f metas db2 (infos @ nw) :: ('x, account_info list \<times> accounts_db) res option) =
             Some (Ok ((infos @ nw) @ new, db'))"
        "length (infos @ nw) + length new = length metas"
        "store_inv E P (M + mset (map (Pair f) ((infos @ nw) @ new))) db'"
        "same_reads E P (M + mset (map (Pair f) (infos @ nw))) db2 db'" "same_meta db2 db'"
        "\<And>j. j < length new \<Longrightarrow> stored_at E (db_storage db') (new ! j) = Some (as_stored (snd (metas ! (length (infos @ nw) + j))))"
      by blast
    have run: "(store_loop E f metas db infos :: ('x, account_info list \<times> accounts_db) res option) =
        Some (Ok (infos @ (nw @ new), db'))"
      using True fs sa IH(1) by (simp add: store_loop.simps [of E f metas db infos])
    have "same_reads E P (?M + mset (map (Pair f) nw)) db2 db'" using IH(4) by (simp add: union_assoc)
    moreover have "same_reads E P ?M db1 db2" using ap by blast
    ultimately have rd: "same_reads E P ?M db db'"
      by (intro same_reads_trans [OF rd1 same_reads_trans]) (auto dest: same_reads_mono)
    have nwrd: "stored_at E (db_storage db') (nw ! j) = Some (as_stored (snd (metas ! (length infos + j))))"
      if "j < length nw" for j
    proof -
      have "(f, nw ! j) \<in># M + mset (map (Pair f) (infos @ nw))" using that by simp
      then have "stored_at E (db_storage db') (nw ! j) = stored_at E (db_storage db2) (nw ! j)"
        using IH(4) f unfolding same_reads_def by blast
      then show ?thesis using ap that True by simp
    qed
    have "stored_at E (db_storage db') ((nw @ new) ! j) = Some (as_stored (snd (metas ! (length infos + j))))"
      if "j < length (nw @ new)" for j
      using that nwrd [of j] IH(6) [of "j - length nw"] by (cases "j < length nw") (auto simp: nth_append)
    moreover have "same_meta db db'" using sm2 IH(5) by (simp add: same_meta_def)
    ultimately show ?thesis using run IH(2,3) rd by (intro exI [of _ "nw @ new"] exI [of _ db']) simp
  qed
qed

section \<open>Index, reclaims and dead forks\<close>

definition index_refs :: "account_info accounts_index \<Rightarrow> (fork \<times> account_info) multiset" where
  "index_refs ix = (\<Sum>k \<in> dom (account_maps ix). mset (versions ix k))"

lemma index_refs_split:
  assumes "finite (dom (account_maps ix))"
  shows "index_refs ix = mset (versions ix k) + (\<Sum>j \<in> dom (account_maps ix) - {k}. mset (versions ix j))"
proof (cases "k \<in> dom (account_maps ix)")
  case True
  then show ?thesis using assms by (simp add: index_refs_def sum.remove)
next
  case False
  then have "versions ix k = []" by (simp add: versions_def domIff)
  with False show ?thesis by (simp add: index_refs_def)
qed

lemma index_refs_mem:
  assumes "finite (dom (account_maps ix))"
  shows "x \<in># index_refs ix \<longleftrightarrow> (\<exists>k. x \<in> set (versions ix k))"
proof
  assume "x \<in># index_refs ix"
  then show "\<exists>k. x \<in> set (versions ix k)"
    using assms by (auto simp: index_refs_def set_mset_sum)
next
  assume "\<exists>k. x \<in> set (versions ix k)"
  then obtain k where "x \<in> set (versions ix k)" ..
  then show "x \<in># index_refs ix" using index_refs_split [OF assms, of k] by simp
qed

lemma index_insert_dom: "dom (account_maps (snd (index_insert ix f k t))) = insert k (dom (account_maps ix))"
  by (auto simp: index_insert_def Let_def)

lemma index_insert_refs:
  assumes "finite (dom (account_maps ix))"
  shows "mset (fst (index_insert ix f k t)) + index_refs (snd (index_insert ix f k t)) = index_refs ix + {#(f, t)#}"
proof -
  let ?ix = "snd (index_insert ix f k t)"
  have "(\<Sum>j \<in> insert k (dom (account_maps ix)) - {k}. mset (versions ?ix j)) =
        (\<Sum>j \<in> dom (account_maps ix) - {k}. mset (versions ix j))"
    by (rule sum.cong) (auto simp: index_insert_versions)
  then show ?thesis
    using index_insert_reclaims [of ix f k t] index_refs_split [OF assms, of k]
      index_refs_split [of ?ix k] assms
    by (simp add: index_insert_dom union_assoc [symmetric])
qed

definition latest_info :: "(account_info \<times> pubkey) list \<Rightarrow> pubkey \<Rightarrow> account_info option" where
  "latest_info ps k = map_of (rev (map (\<lambda>p. (snd p, fst p)) ps)) k"

lemma latest_info_Cons:
  "latest_info ((t, k) # ps) k' = (case latest_info ps k' of None \<Rightarrow> if k' = k then Some t else None | Some x \<Rightarrow> Some x)"
  by (simp add: latest_info_def map_add_def split: option.splits)

lemma update_index_spec:
  assumes "index_ok ix" "finite (dom (account_maps ix))" "update_index f ps ix = (rvs, ix')"
  shows "index_ok ix' \<and> finite (dom (account_maps ix')) \<and> roots ix' = roots ix \<and> last_root ix' = last_root ix \<and>
    mset rvs + index_refs ix' = index_refs ix + mset (map (\<lambda>p. (f, fst p)) ps) \<and>
    (\<forall>k. if latest_info ps k = None then versions ix' k = versions ix k
         else \<forall>g u. (g, u) \<in> set (versions ix' k) \<longleftrightarrow>
           last_root ix \<le> g \<and> (if g = f then latest_info ps k = Some u else (g, u) \<in> set (versions ix k)))"
  using assms
proof (induction ps arbitrary: ix rvs)
  case Nil
  then show ?case by (simp add: latest_info_def)
next
  case (Cons p ps)
  obtain t k where p: "p = (t, k)" by (cases p)
  let ?ix = "snd (index_insert ix f k t)"
  obtain rvs' where u: "update_index f ps ?ix = (rvs', ix')" and rvs: "rvs = fst (index_insert ix f k t) @ rvs'"
    using Cons.prems(3) by (auto simp: p Let_def split: prod.splits)
  have fin: "finite (dom (account_maps ?ix))" using Cons.prems(2) by (simp add: index_insert_dom)
  note IH = Cons.IH [OF index_insert_ok [OF Cons.prems(1)] fin u]
  have "mset rvs + index_refs ix' = mset (fst (index_insert ix f k t)) + (index_refs ?ix + mset (map (\<lambda>p. (f, fst p)) ps))"
    using IH by (simp add: rvs union_assoc)
  also have "\<dots> = index_refs ix + mset (map (\<lambda>p. (f, fst p)) (p # ps))"
    using index_insert_refs [OF Cons.prems(2), of f k t] by (simp add: p union_assoc [symmetric])
  finally have refs: "mset rvs + index_refs ix' = index_refs ix + mset (map (\<lambda>p. (f, fst p)) (p # ps))" .
  have "if latest_info (p # ps) k' = None then versions ix' k' = versions ix k'
        else \<forall>g u. (g, u) \<in> set (versions ix' k') \<longleftrightarrow>
          last_root ix \<le> g \<and> (if g = f then latest_info (p # ps) k' = Some u else (g, u) \<in> set (versions ix k'))" for k'
  proof (cases "latest_info ps k'")
    case None
    then have v: "versions ix' k' = versions ?ix k'" using IH by (metis (full_types))
    then show ?thesis
      using None by (auto simp: p latest_info_Cons index_insert_member index_insert_versions)
  next
    case (Some x)
    then have "\<forall>g u. (g, u) \<in> set (versions ix' k') \<longleftrightarrow>
        last_root ix \<le> g \<and> (if g = f then latest_info ps k' = Some u else (g, u) \<in> set (versions ?ix k'))"
      using IH by (simp add: option.distinct)
    with Some show ?thesis by (auto simp: p latest_info_Cons index_insert_member split: if_splits)
  qed
  with IH refs show ?case by simp
qed

lemma update_entry_const:
  assumes "distinct (map fst st)" "map_of st i = Some e"
  shows "update_entry i g st = update_entry i (\<lambda>_. g e) st"
proof -
  have "e' = e" if "(i, e') \<in> set st" for e' using assms that by (simp add: map_of_eq_Some_iff)
  then show ?thesis by (auto simp: update_entry_def)
qed

text \<open>Releasing one reference.\<close>

lemma remove_one:
  assumes inv: "store_inv E P (M + {#(f, info)#}) db" and e: "map_of (db_storage db) (ai_id info) = Some e"
  defines "db' \<equiv> db\<lparr>db_storage := update_entry (ai_id info) remove_account (db_storage db)\<rparr>"
  shows "f = se_fork e \<and> store_inv E P M db' \<and> same_reads E P M db db'"
proof -
  let ?i = "ai_id info" and ?L = "env_layout E"
  have ei: "entry_inv E P (M + {#(f, info)#}) db ?i e" using inv e by (simp add: store_inv_def)
  have "ref_inv E P db f info" using inv by (simp add: store_inv_def)
  with e have f: "f = se_fork e" by (auto simp: ref_inv_def split: if_splits)
  have cnt: "se_count e = Suc (size {#x \<in># M. ai_id (snd x) = ?i#})"
    using ei by (simp add: entry_inv_def)
  let ?e = "remove_account e"
  have cnt': "se_count ?e = size {#x \<in># M. ai_id (snd x) = ?i#}"
    using cnt by (simp add: remove_account_def Let_def)
  obtain rs where av: "av_ok (se_accounts e)" "av_chain ?L (se_accounts e) 0 rs"
    using ei by (auto simp: entry_inv_def)
  have inv_e: "entry_inv E P M db ?i ?e"
    using ei cnt' reset_chain [OF av(1), of ?L] av
    by (auto simp: entry_inv_def remove_account_def Let_def)
  have fk: "se_fork ?e = se_fork e" by (simp add: remove_account_def Let_def)
  have old: "get_account ?L (se_accounts ?e) (ai_offset x) = get_account ?L (se_accounts e) (ai_offset x)"
    if "(g, x) \<in># M" "ai_id x = ?i" for g x
  proof -
    have "(g, x) \<in># {#x \<in># M. ai_id (snd x) = ?i#}" using that by simp
    then have "se_count e \<noteq> 1" using cnt by (metis One_nat_def Suc_inject empty_iff set_mset_empty size_eq_0_iff_empty)
    then show ?thesis by (simp add: remove_account_def Let_def)
  qed
  have db': "db' = db\<lparr>db_storage := update_entry ?i (\<lambda>_. ?e) (db_storage db)\<rparr>"
    using update_entry_const [OF _ e] inv by (simp add: db'_def store_inv_def)
  have "store_inv E P M db' \<and> same_reads E P ((M + {#(f, info)#}) \<inter># M) db db'"
    unfolding db'
  proof (rule update_entry_inv [OF inv e inv_e fk])
    show "{#x \<in># M. ai_id (snd x) = j#} = {#x \<in># M + {#(f, info)#}. ai_id (snd x) = j#}" if "j \<noteq> ?i" for j
      using that by simp
  qed (use old in auto)
  moreover have "(M + {#(f, info)#}) \<inter># M = M" by (simp add: inter_mset_def multiset_eq_iff)
  ultimately show ?thesis using f by simp
qed

lemma remove_none:
  assumes inv: "store_inv E P (M + {#(f, info)#}) db" and e: "map_of (db_storage db) (ai_id info) = None"
  shows "store_inv E P M db"
proof -
  have "entry_inv E P M db i e'" if "map_of (db_storage db) i = Some e'" for i e'
  proof -
    have "i \<noteq> ai_id info" using that e by auto
    moreover have "entry_inv E P (M + {#(f, info)#}) db i e'" using inv that by (simp add: store_inv_def)
    ultimately show ?thesis by (simp add: entry_inv_def)
  qed
  with inv show ?thesis by (simp add: store_inv_def)
qed

lemma remove_reclaims_spec:
  "store_inv E P (M + mset rs) db \<Longrightarrow>
    \<exists>st. (remove_reclaims rs (db_storage db) :: ('x, account_storage) res) = Ok st \<and>
      store_inv E P M (db\<lparr>db_storage := st\<rparr>) \<and> same_reads E P M db (db\<lparr>db_storage := st\<rparr>)"
proof (induction rs arbitrary: db)
  case Nil
  then show ?case by simp
next
  case (Cons r rs)
  obtain f info where r: "r = (f, info)" by (cases r)
  have inv: "store_inv E P ((M + mset rs) + {#(f, info)#}) db" using Cons.prems by (simp add: r)
  show ?case
  proof (cases "map_of (db_storage db) (ai_id info)")
    case None
    from Cons.IH [OF remove_none [OF inv None]] None show ?thesis by (simp add: r)
  next
    case (Some e)
    let ?db = "db\<lparr>db_storage := update_entry (ai_id info) remove_account (db_storage db)\<rparr>"
    note one = remove_one [OF inv Some]
    from Cons.IH [of ?db] one obtain st where
      st: "(remove_reclaims rs (db_storage ?db) :: ('x, account_storage) res) = Ok st"
        "store_inv E P M (?db\<lparr>db_storage := st\<rparr>)" "same_reads E P M ?db (?db\<lparr>db_storage := st\<rparr>)" by blast
    have "same_reads E P M db ?db" using one same_reads_mono by blast
    with st have "same_reads E P M db (db\<lparr>db_storage := st\<rparr>)"
      using same_reads_trans [of E P M db ?db "db\<lparr>db_storage := st\<rparr>"] by simp
    then show ?thesis using st one Some by (simp add: r)
  qed
qed

text \<open>Dropping the stores of a fork that holds no reference.\<close>

definition unreferenced :: "fork \<Rightarrow> accounts_db \<Rightarrow> bool" where
  "unreferenced d db \<longleftrightarrow> (\<forall>i e. map_of (db_storage db) i = Some e \<longrightarrow> se_fork e = d \<longrightarrow> se_count e = 0)"

lemma drop_fork_inv:
  assumes inv: "store_inv E P M db" and d: "unreferenced d db"
  defines "db' \<equiv> db\<lparr>db_storage := filter (\<lambda>p. se_fork (snd p) \<noteq> d) (db_storage db)\<rparr>"
  shows "store_inv E P M db' \<and> same_reads E P M db db'"
proof -
  have dis: "distinct (map fst (db_storage db))" using inv by (simp add: store_inv_def)
  have m: "map_of (db_storage db') i = (case map_of (db_storage db) i of None \<Rightarrow> None | Some e \<Rightarrow> if se_fork e \<noteq> d then Some e else None)" for i
    using map_of_filter_snd [OF dis, of "\<lambda>e. se_fork e \<noteq> d"] by (simp add: db'_def)
  have ok: "map_of (db_storage db') (ai_id info) = map_of (db_storage db) (ai_id info)" if fi: "(f, info) \<in># M" for f info
  proof (cases "map_of (db_storage db) (ai_id info)")
    case (Some e)
    then have "entry_inv E P M db (ai_id info) e" using inv by (simp add: store_inv_def)
    then have "se_count e \<noteq> 0" using fi by (auto simp: entry_inv_def)
    then have "se_fork e \<noteq> d" using d Some by (auto simp: unreferenced_def)
    with Some m show ?thesis by simp
  qed (simp add: m)
  have "distinct (map fst (db_storage db'))" using dis by (simp add: db'_def distinct_map_filter)
  moreover have "entry_inv E P M db' i e" if "map_of (db_storage db') i = Some e" for i e
  proof -
    have "map_of (db_storage db) i = Some e" using that m by (auto split: option.splits if_splits)
    then have "entry_inv E P M db i e" using inv by (simp add: store_inv_def)
    then show ?thesis by (simp add: entry_inv_def db'_def)
  qed
  moreover have st: "stored_at E (db_storage db') info = stored_at E (db_storage db) info" if "(f, info) \<in># M" for f info
    using ok [OF that] by (simp add: stored_at_def)
  moreover have "ref_inv E P db' f info" if "(f, info) \<in># M" for f info
  proof -
    have "ref_inv E P db f info" using inv that by (simp add: store_inv_def)
    then show ?thesis using ok [OF that] st [OF that] by (simp add: ref_inv_def db'_def)
  qed
  ultimately show ?thesis by (simp add: store_inv_def same_reads_def)
qed

lemma cleanup_fold:
  "roots (fold cleanup_dead_fork ds ix) = roots ix - set ds \<and>
   last_root (fold cleanup_dead_fork ds ix) = last_root ix \<and>
   account_maps (fold cleanup_dead_fork ds ix) = account_maps ix"
  by (induction ds arbitrary: ix) (auto simp: cleanup_dead_fork_def)

lemma purge_fold:
  assumes "store_inv E P M db" "\<forall>d \<in> set ds. unreferenced d db \<and> d \<notin> roots (db_index db)"
  shows "store_inv E P M (fold db_purge_fork ds db) \<and> same_reads E P M db (fold db_purge_fork ds db) \<and>
    same_meta db (fold db_purge_fork ds db)"
  using assms
proof (induction ds arbitrary: db)
  case Nil
  then show ?case by (simp add: same_meta_def)
next
  case (Cons d ds)
  let ?db = "db\<lparr>db_storage := filter (\<lambda>p. se_fork (snd p) \<noteq> d) (db_storage db)\<rparr>"
  have p: "db_purge_fork d db = ?db" using Cons.prems(2) by (simp add: db_purge_fork_def is_root_def)
  have one: "store_inv E P M ?db \<and> same_reads E P M db ?db"
    by (rule drop_fork_inv) (use Cons.prems in auto)
  have dis: "distinct (map fst (db_storage db))" using Cons.prems(1) by (simp add: store_inv_def)
  have "\<forall>x \<in> set ds. unreferenced x ?db \<and> x \<notin> roots (db_index ?db)"
    using Cons.prems(2) map_of_filter_snd [OF dis, of "\<lambda>e. se_fork e \<noteq> d"]
    by (auto simp: unreferenced_def split: option.splits if_splits)
  from Cons.IH [OF _ this] one have "store_inv E P M (fold db_purge_fork ds ?db) \<and>
      same_reads E P M ?db (fold db_purge_fork ds ?db) \<and> same_meta ?db (fold db_purge_fork ds ?db)" by blast
  then show ?case using one p by (auto simp: same_meta_def intro: same_reads_trans)
qed

lemma dead_forks_unreferenced:
  assumes "distinct (map fst (db_storage db))" "d \<in> set (dead_forks (db_storage db))"
  shows "unreferenced d db \<and> (\<exists>i e. map_of (db_storage db) i = Some e \<and> se_fork e = d)"
proof -
  have mem: "map_of (db_storage db) i = Some e \<longleftrightarrow> (i, e) \<in> set (db_storage db)" for i e
    using assms(1) by (simp add: map_of_eq_Some_iff)
  show ?thesis
    using assms(2) unfolding unreferenced_def mem by (fastforce simp: dead_forks_def list_ex_iff)
qed

section \<open>The contract of the database\<close>

definition db_ok :: "db_env \<Rightarrow> fork set \<Rightarrow> accounts_db \<Rightarrow> bool" where
  "db_ok E P db \<longleftrightarrow>
     index_ok (db_index db) \<and> finite (dom (account_maps (db_index db))) \<and> 0 < db_file_size db \<and>
     roots (db_index db) \<inter> P = {} \<and> store_inv E P (index_refs (db_index db)) db"

text \<open>An account that the database can hold: the keys are real keys and the record fits in a file.\<close>

definition storable :: "db_env \<Rightarrow> accounts_db \<Rightarrow> pubkey \<times> account \<Rightarrow> bool" where
  "storable E db ka \<longleftrightarrow>
     valid_key (fst ka) \<and> valid_key (owner (snd ka)) \<and> length (data (snd ka)) < 2 ^ 64 \<and>
     align_up (align_up (meta_size (env_layout E)) + balance_size (env_layout E)) +
       (if difs (snd ka) = 0 then 0 else length (data (snd ka))) \<le> db_file_size db"

lemma with_meta_length [simp]: "length (with_meta wv as) = length as"
  by (induction wv as rule: with_meta.induct) auto

lemma with_meta_nth: "j < length as \<Longrightarrow> snd (with_meta wv as ! j) = snd (as ! j)"
  by (induction wv as arbitrary: j rule: with_meta.induct) (auto simp: nth_Cons split: nat.splits)

lemma with_meta_fits:
  assumes "layout_ok (env_layout E)" "\<forall>ka \<in> set as. storable E db ka" "ma \<in> set (with_meta wv as)"
  shows "fits E db ma"
  using assms(2,3)
proof (induction wv as rule: with_meta.induct)
  case (2 wv k a as)
  show ?case
  proof (cases "ma \<in> set (with_meta (wv + 1) as)")
    case True
    then show ?thesis using 2 by simp
  next
    case False
    let ?m = "\<lparr>write_version = of_nat wv, meta_pubkey = k, data_len = (if difs a = 0 then 0 else of_nat (length (data a)))\<rparr>"
    have ma: "ma = (?m, a)" using False 2 by auto
    have st: "storable E db (k, a)" using 2 by simp
    let ?d = "take (unat (data_len ?m)) (data a)"
    have "length ?d = (if difs a = 0 then 0 else length (data a))"
      using st by (simp add: storable_def unat_of_nat)
    moreover have "length (meta_bytes (env_layout E) ?m) = meta_size (env_layout E)"
      using assms(1) st by (simp add: layout_ok_def storable_def)
    moreover have "length (balance_bytes (env_layout E) \<lparr>bal_difs = difs a, bal_owner = owner a,
        bal_executable = executable a, bal_reputations = reputations a\<rparr>) = balance_size (env_layout E)"
      using assms(1) st by (simp add: layout_ok_def storable_def)
    ultimately have "append_end 0 (account_ptrs (env_layout E) (?m, a)) \<le> db_file_size db"
      using st by (auto simp: append_end_def account_ptrs_def Let_def storable_def split: if_splits)
    moreover have "meta_of (?m, a)"
      using st by (simp add: meta_of_def entry_ok_def storable_def unat_of_nat)
    ultimately show ?thesis by (simp add: fits_def ma)
  qed
qed simp

lemma latest_info_zip:
  "length infos = length accounts \<Longrightarrow>
     (case latest_info (zip infos (map fst accounts)) k of
        None \<Rightarrow> map_of (rev accounts) k = None
      | Some t \<Rightarrow> \<exists>j < length accounts. infos ! j = t \<and> map_of (rev accounts) k = Some (snd (accounts ! j)))"
proof (induction infos accounts rule: list_induct2)
  case Nil
  then show ?case by (simp add: latest_info_def)
next
  case (Cons t ts ka kas)
  then show ?case
    by (cases ka) (fastforce simp: latest_info_Cons map_add_def split: option.splits if_splits)
qed

lemma store_inv_cong:
  assumes "db_storage db' = db_storage db" "db_next_id db' = db_next_id db" "db_file_size db' = db_file_size db"
  shows "store_inv E P M db' = store_inv E P M db"
  using assms by (simp add: store_inv_def entry_inv_def ref_inv_def)

lemma db_load_alt:
  "db_load E db anc k =
     Option.bind (index_get (db_index db) k anc) (\<lambda>r. map_option (\<lambda>a. (a, snd r)) (stored_at E (db_storage db) (fst r)))"
  by (simp add: db_load_def split: option.split prod.split)

lemma visible_not_purged:
  assumes "roots ix \<inter> P = {}" "dom anc \<inter> P = {}" "visible ix anc g"
  shows "g \<notin> P"
  using assms by (auto simp: visible_def is_root_def)

text \<open>The state after a store, step by step.\<close>

lemma db_store_steps:
  assumes E: "db_env_ok E" and ok: "db_ok E P db" and f: "f \<notin> P" and st: "\<forall>ka \<in> set accounts. storable E db ka"
  obtains infos db' ix' where
    "(db_store E f accounts db :: ('x, accounts_db) res option) = Some (Ok db')" "length infos = length accounts"
    "\<And>j. j < length accounts \<Longrightarrow> (f, infos ! j) \<in># index_refs ix' \<Longrightarrow>
       stored_at E (db_storage db') (infos ! j) = Some (as_stored (snd (accounts ! j)))"
    "index_ok ix'" "finite (dom (account_maps ix'))" "roots ix' = roots (db_index db)" "last_root ix' = last_root (db_index db)"
    "\<And>k. if latest_info (zip infos (map fst accounts)) k = None then versions ix' k = versions (db_index db) k
         else \<forall>g u. (g, u) \<in> set (versions ix' k) \<longleftrightarrow> last_root (db_index db) \<le> g \<and>
           (if g = f then latest_info (zip infos (map fst accounts)) k = Some u else (g, u) \<in> set (versions (db_index db) k))"
    "account_maps (db_index db') = account_maps ix'" "last_root (db_index db') = last_root ix'"
    "roots (db_index db') \<subseteq> roots ix'" "\<And>g u. (g, u) \<in># index_refs ix' \<Longrightarrow> g \<in> roots ix' \<Longrightarrow> g \<in> roots (db_index db')"
    "store_inv E P (index_refs ix') db'" "db_file_size db' = db_file_size db"
    "same_reads E P (index_refs (db_index db) \<inter># index_refs ix') db db'"
proof -
  let ?ix = "db_index db" and ?R = "index_refs (db_index db)"
  let ?db = "db\<lparr>db_write_version := db_write_version db + length accounts\<rparr>"
  let ?metas = "with_meta (db_write_version db) accounts"
  have L: "layout_ok (env_layout E)" using E by (simp add: db_env_ok_def)
  have ix: "index_ok ?ix" "finite (dom (account_maps ?ix))" "0 < db_file_size db" "store_inv E P ?R db"
    using ok by (simp_all add: db_ok_def)
  have inv0: "store_inv E P (?R + mset (map (Pair f) [])) ?db"
    using ix(4) by (simp add: store_inv_cong [of ?db db])
  have fit: "\<forall>ma \<in> set ?metas. fits E ?db ma"
    using with_meta_fits [OF L st] by (simp add: fits_def)
  have fs: "0 < db_file_size ?db" using ix(3) by simp
  from store_loop_spec [where 'x = 'x, OF E f inv0 fs _ fit] obtain infos db1 where
    loop: "(db_store_accounts E f accounts db :: ('x, account_info list \<times> accounts_db) res option) = Some (Ok (infos, db1))"
      "length infos = length accounts" "store_inv E P (?R + mset (map (Pair f) infos)) db1"
      "same_reads E P ?R ?db db1" "same_meta ?db db1"
      "\<And>j. j < length infos \<Longrightarrow> stored_at E (db_storage db1) (infos ! j) = Some (as_stored (snd (?metas ! j)))"
    by (auto simp: db_store_accounts_def)
  let ?ps = "zip infos (map fst accounts)"
  obtain rvs ix' where ui: "update_index f ?ps ?ix = (rvs, ix')" by (cases "update_index f ?ps ?ix")
  note u = update_index_spec [OF ix(1,2) ui]
  have "map (\<lambda>p. (f, fst p)) ?ps = map (Pair f) infos" using loop(2) by (auto simp: list_eq_iff_nth_eq)
  then have refs: "?R + mset (map (Pair f) infos) = index_refs ix' + mset rvs"
    using u by (simp add: add.commute)
  let ?db1 = "db1\<lparr>db_index := ix'\<rparr>"
  have "store_inv E P (index_refs ix' + mset rvs) ?db1"
    using loop(3) unfolding refs by (simp add: store_inv_cong [of ?db1 db1])
  from remove_reclaims_spec [where 'x = 'x, OF this] obtain st2 where
    st2: "(remove_reclaims rvs (db_storage db1) :: ('x, account_storage) res) = Ok st2"
      "store_inv E P (index_refs ix') (?db1\<lparr>db_storage := st2\<rparr>)"
      "same_reads E P (index_refs ix') ?db1 (?db1\<lparr>db_storage := st2\<rparr>)" by auto
  let ?db2 = "?db1\<lparr>db_storage := st2\<rparr>" and ?dead = "filter (\<lambda>d. d < last_root ix') (dead_forks st2)"
  let ?ix2 = "fold cleanup_dead_fork ?dead ix'"
  let ?db3 = "?db2\<lparr>db_index := ?ix2\<rparr>"
  have dis: "distinct (map fst (db_storage ?db2))" using st2(2) by (simp add: store_inv_def)
  have dead: "unreferenced d ?db2 \<and> (\<exists>i e. map_of st2 i = Some e \<and> se_fork e = d)" if "d \<in> set ?dead" for d
    using dead_forks_unreferenced [OF dis, of d] that by simp
  have inv3: "store_inv E P (index_refs ix') ?db3" by (rule iffD2 [OF store_inv_cong st2(2)]) simp_all
  have "\<forall>d \<in> set ?dead. unreferenced d ?db3 \<and> d \<notin> roots (db_index ?db3)"
    using dead cleanup_fold [of ?dead ix'] by (auto simp: unreferenced_def)
  note pf = purge_fold [OF inv3 this]
  let ?db' = "fold db_purge_fork ?dead ?db3"
  have run: "(db_store E f accounts db :: ('x, accounts_db) res option) = Some (Ok ?db')"
    using loop(1,5) ui st2(1)
    by (simp add: db_store_def same_meta_def remove_dead_accounts_def cleanup_dead_forks_def Let_def)
  have reads: "stored_at E (db_storage ?db') info = stored_at E (db_storage db1) info"
    if "(g, info) \<in># index_refs ix'" "g \<notin> P" for g info
    using that st2(3) pf by (auto simp: same_reads_def)
  have notdead: "g \<notin> set ?dead" if gu: "(g, w) \<in># index_refs ix'" for g w
  proof
    assume g: "g \<in> set ?dead"
    then obtain i e where "map_of st2 i = Some e" "se_fork e = g" using dead by blast
    then have "g \<notin> P" using st2(2) by (auto simp: store_inv_def entry_inv_def)
    moreover have "ref_inv E P ?db2 g w" using st2(2) gu by (simp add: store_inv_def)
    ultimately obtain e where e: "map_of st2 (ai_id w) = Some e" "se_fork e = g" by (auto simp: ref_inv_def)
    then have "entry_inv E P (index_refs ix') ?db2 (ai_id w) e" using st2(2) by (simp add: store_inv_def)
    then have "se_count e \<noteq> 0" using gu by (auto simp: entry_inv_def)
    with dead [OF g] e show False by (auto simp: unreferenced_def)
  qed
  have sm: "db_index ?db' = ?ix2" "db_file_size ?db' = db_file_size db"
    using pf loop(5) by (simp_all add: same_meta_def)
  show thesis
  proof (rule that [OF run loop(2)])
    show "stored_at E (db_storage ?db') (infos ! j) = Some (as_stored (snd (accounts ! j)))"
      if "j < length accounts" "(f, infos ! j) \<in># index_refs ix'" for j
      using reads [OF that(2) f] loop(2) loop(6) [of j] that(1) by (simp add: with_meta_nth)
    show "same_reads E P (?R \<inter># index_refs ix') db ?db'"
      using reads loop(4) by (auto simp: same_reads_def)
  qed (use u sm pf cleanup_fold [of ?dead ix'] notdead in auto)
qed

text \<open>The reader's view after a store, key by key.\<close>

definition load_after_store ::
  "db_env \<Rightarrow> fork \<Rightarrow> (pubkey \<times> account) list \<Rightarrow> accounts_db \<Rightarrow> ancestors \<Rightarrow> pubkey \<Rightarrow> (account \<times> fork) option" where
  "load_after_store E f accounts db anc k =
     (case map_of (rev accounts) k of
        None \<Rightarrow> db_load E db anc k
      | Some a \<Rightarrow>
          if visible (db_index db) anc f \<and> last_root (db_index db) \<le> f \<and> (\<forall>g \<in> visible_forks (db_index db) k anc. g \<le> f)
          then Some (as_stored a, f)
          else case db_load E db anc k of
                 None \<Rightarrow> None
               | Some (a', g) \<Rightarrow> if last_root (db_index db) \<le> g then Some (a', g) else None)"

lemma db_store_load:
  assumes E: "db_env_ok E" and ok: "db_ok E P db" and f: "f \<notin> P" and st: "\<forall>ka \<in> set accounts. storable E db ka"
  shows "\<exists>db'. (db_store E f accounts db :: ('x, accounts_db) res option) = Some (Ok db') \<and> db_ok E P db' \<and>
    db_file_size db' = db_file_size db \<and> last_root (db_index db') = last_root (db_index db) \<and>
    roots (db_index db') \<subseteq> roots (db_index db) \<and>
    (\<forall>anc k. dom anc \<inter> P = {} \<longrightarrow> db_load E db' anc k = load_after_store E f accounts db anc k)"
proof -
  let ?ix = "db_index db"
  obtain infos db' ix' where
    run: "(db_store E f accounts db :: ('x, accounts_db) res option) = Some (Ok db')" "length infos = length accounts"
    and new: "\<And>j. j < length accounts \<Longrightarrow> (f, infos ! j) \<in># index_refs ix' \<Longrightarrow>
       stored_at E (db_storage db') (infos ! j) = Some (as_stored (snd (accounts ! j)))"
    and ix': "index_ok ix'" "finite (dom (account_maps ix'))" "roots ix' = roots ?ix" "last_root ix' = last_root ?ix"
    and ver: "\<And>k. if latest_info (zip infos (map fst accounts)) k = None then versions ix' k = versions ?ix k
         else \<forall>g u. (g, u) \<in> set (versions ix' k) \<longleftrightarrow> last_root ?ix \<le> g \<and>
           (if g = f then latest_info (zip infos (map fst accounts)) k = Some u else (g, u) \<in> set (versions ?ix k))"
    and db': "account_maps (db_index db') = account_maps ix'" "last_root (db_index db') = last_root ix'"
      "roots (db_index db') \<subseteq> roots ix'"
      "\<And>g u. (g, u) \<in># index_refs ix' \<Longrightarrow> g \<in> roots ix' \<Longrightarrow> g \<in> roots (db_index db')"
    and inv: "store_inv E P (index_refs ix') db'" "db_file_size db' = db_file_size db"
    and rd: "same_reads E P (index_refs ?ix \<inter># index_refs ix') db db'"
    by (rule db_store_steps [OF assms, where 'x = 'x]) blast
  have ixok: "index_ok ?ix" "finite (dom (account_maps ?ix))" "roots ?ix \<inter> P = {}" "0 < db_file_size db"
    using ok by (simp_all add: db_ok_def)
  have v: "versions (db_index db') k = versions ix' k" for k by (simp add: versions_def db'(1))
  have "index_refs (db_index db') = index_refs ix'" by (simp add: index_refs_def db'(1) versions_def)
  then have ok': "db_ok E P db'"
    using ix' ixok db' inv v by (auto simp: db_ok_def index_ok_def)
  have load: "db_load E db' anc k = load_after_store E f accounts db anc k" if anc: "dom anc \<inter> P = {}" for anc k
  proof -
    have mem: "(g, u) \<in># index_refs ix' \<longleftrightarrow> (\<exists>k. (g, u) \<in> set (versions ix' k))" for g u
      using index_refs_mem [OF ix'(2)] by blast
    have vis: "visible ix' = visible ?ix" by (auto simp: fun_eq_iff visible_def is_root_def ix'(3))
    have "index_get (db_index db') k anc = index_get ix' k anc"
    proof (rule index_get_cong)
      show "visible (db_index db') anc g = visible ix' anc g" if "(g, u) \<in> set (versions ix' k)" for g u
        using that mem [of g u] db'(3,4) by (auto simp: visible_def is_root_def)
    qed (rule v)
    then have get: "db_load E db' anc k =
        Option.bind (index_get ix' k anc) (\<lambda>r. map_option (\<lambda>a. (a, snd r)) (stored_at E (db_storage db') (fst r)))"
      by (simp add: db_load_alt)
    have old: "stored_at E (db_storage db') info = stored_at E (db_storage db) info"
      if "(g, info) \<in> set (versions ?ix k)" "(g, info) \<in> set (versions ix' k)" "visible ?ix anc g" for g info
    proof -
      have "(g, info) \<in># index_refs ?ix \<inter># index_refs ix'"
        using that index_refs_mem [OF ixok(2)] mem by auto
      moreover have "g \<notin> P" using visible_not_purged [OF ixok(3) anc that(3)] .
      ultimately show ?thesis using rd unfolding same_reads_def by blast
    qed
    have keep: "Option.bind (index_get ?ix k anc) (\<lambda>r. map_option (\<lambda>a. (a, snd r)) (stored_at E (db_storage db') (fst r))) = db_load E db anc k"
      if "\<And>info g. index_get ?ix k anc = Some (info, g) \<Longrightarrow> (g, info) \<in> set (versions ix' k)"
    proof (cases "index_get ?ix k anc")
      case (Some r)
      obtain info g where r: "r = (info, g)" by (cases r)
      have "stored_at E (db_storage db') info = stored_at E (db_storage db) info"
        using old [of g info] index_get_SomeD [OF Some [unfolded r]] that [OF Some [unfolded r]] by blast
      with Some r show ?thesis by (simp add: db_load_alt)
    qed (simp add: db_load_alt)
    show ?thesis
    proof (cases "latest_info (zip infos (map fst accounts)) k")
      case None
      then have vk: "versions ix' k = versions ?ix k" using ver [of k] by simp
      have "map_of (rev accounts) k = None" using latest_info_zip [OF run(2), of k] None by simp
      moreover have "index_get ix' k anc = index_get ?ix k anc"
        by (rule index_get_cong [OF vk]) (simp add: vis)
      moreover have "\<And>info g. index_get ?ix k anc = Some (info, g) \<Longrightarrow> (g, info) \<in> set (versions ix' k)"
        using index_get_SomeD vk by metis
      ultimately show ?thesis using get keep by (simp add: load_after_store_def)
    next
      case (Some t)
      from latest_info_zip [OF run(2), of k] Some obtain j where
        j: "j < length accounts" "infos ! j = t" "map_of (rev accounts) k = Some (snd (accounts ! j))" by auto
      have m: "(g, u) \<in> set (versions ix' k) \<longleftrightarrow> last_root ?ix \<le> g \<and> (if g = f then u = t else (g, u) \<in> set (versions ?ix k))" for g u
        using ver [of k] Some by auto
      note rep = index_get_replace [OF ixok(1) ix'(1) vis m, of anc]
      show ?thesis
      proof (cases "visible ?ix anc f \<and> last_root ?ix \<le> f \<and> (\<forall>g \<in> visible_forks ?ix k anc. g \<le> f)")
        case True
        have "(f, t) \<in># index_refs ix'" using m [of f t] True mem by auto
        then have "stored_at E (db_storage db') t = Some (as_stored (snd (accounts ! j)))"
          using new [of j] j by simp
        then show ?thesis using get rep True j by (simp add: load_after_store_def)
      next
        case False
        have r: "index_get ix' k anc = (case index_get ?ix k anc of None \<Rightarrow> None
            | Some (t', g) \<Rightarrow> if last_root ?ix \<le> g then Some (t', g) else None)"
          using rep unfolding if_not_P [OF False] .
        have l: "load_after_store E f accounts db anc k = (case db_load E db anc k of None \<Rightarrow> None
            | Some (a', g) \<Rightarrow> if last_root ?ix \<le> g then Some (a', g) else None)"
          unfolding load_after_store_def j(3) option.case if_not_P [OF False] ..
        show ?thesis
        proof (cases "index_get ?ix k anc")
          case None
          then show ?thesis unfolding get r l by (simp add: db_load_alt)
        next
          case (Some x)
          obtain info g where x: "x = (info, g)" by (cases x)
          note g = index_get_SomeD [OF Some [unfolded x]]
          show ?thesis
          proof (cases "last_root ?ix \<le> g")
            case True
            have "f \<noteq> g" using False g True by auto
            then have "stored_at E (db_storage db') info = stored_at E (db_storage db) info"
              using old [of g info] g True m [of g info] by auto
            then show ?thesis unfolding get r l using Some x True by (simp add: db_load_alt split: option.split)
          next
            case g': False
            then show ?thesis unfolding get r l using Some x by (simp add: db_load_alt split: option.split)
          qed
        qed
      qed
    qed
  qed
  have "roots (db_index db') \<subseteq> roots ?ix" "last_root (db_index db') = last_root ?ix" using db' ix' by auto
  with run(1) ok' inv(2) load show ?thesis by blast
qed

lemma db_new_ok: "0 < file_size \<Longrightarrow> db_ok E {} (accounts_db_new_with_file_size file_size)"
  by (simp add: db_ok_def accounts_db_new_with_file_size_def store_inv_def index_refs_def)
    (simp add: accounts_index_default_def)

lemma db_add_root_ok:
  assumes "db_ok E P db" "f \<notin> P" "(db_add_root f db :: ('x, accounts_db) res) = Ok db'"
  shows "db_ok E P db'"
proof -
  have db': "db' = db\<lparr>db_index := (db_index db)\<lparr>last_root := f, roots := insert f (roots (db_index db))\<rparr>\<rparr>"
    using assms(3) by (auto simp: db_add_root_def index_add_root_def split: if_splits)
  have "versions (db_index db') = versions (db_index db)" by (simp add: db' versions_def fun_eq_iff)
  then show ?thesis
    using assms(1,2) by (simp add: db_ok_def db' index_ok_def index_refs_def store_inv_cong [of "db\<lparr>db_index := _\<rparr>" db])
qed

lemma db_purge_ok:
  assumes "db_ok E P db"
  shows "db_ok E (if is_root (db_index db) f then P else insert f P) (db_purge_fork f db)"
proof (cases "is_root (db_index db) f")
  case True
  then show ?thesis using assms by (simp add: db_purge_fork_def)
next
  case False
  let ?db = "db\<lparr>db_storage := filter (\<lambda>p. se_fork (snd p) \<noteq> f) (db_storage db)\<rparr>" and ?R = "index_refs (db_index db)"
  have inv: "store_inv E P ?R db" using assms by (simp add: db_ok_def)
  then have dis: "distinct (map fst (db_storage db))" by (simp add: store_inv_def)
  have m: "map_of (db_storage ?db) i = (case map_of (db_storage db) i of None \<Rightarrow> None | Some e \<Rightarrow> if se_fork e \<noteq> f then Some e else None)" for i
    using map_of_filter_snd [OF dis, of "\<lambda>e. se_fork e \<noteq> f"] by simp
  have "entry_inv E (insert f P) ?R ?db i e" if i: "map_of (db_storage ?db) i = Some e" for i e
  proof -
    have ie: "map_of (db_storage db) i = Some e" "se_fork e \<noteq> f" using i m by (auto split: option.splits if_splits)
    then have "entry_inv E P ?R db i e" using inv by (simp add: store_inv_def)
    then show ?thesis using ie by (simp add: entry_inv_def)
  qed
  moreover have "ref_inv E (insert f P) ?db g info" if gi: "(g, info) \<in># ?R" for g info
  proof -
    have "ref_inv E P db g info" using inv gi by (simp add: store_inv_def)
    then show ?thesis using m [of "ai_id info"] by (auto simp: ref_inv_def stored_at_def split: option.splits if_splits)
  qed
  ultimately have "store_inv E (insert f P) ?R ?db"
    using dis unfolding store_inv_def by (simp add: distinct_map_filter)
  then show ?thesis using assms False by (simp add: db_ok_def db_purge_fork_def is_root_def)
qed

text \<open>The databases that the operations build, with the set of purged forks.\<close>

inductive db_reach :: "db_env \<Rightarrow> fork set \<Rightarrow> accounts_db \<Rightarrow> bool" for E where
  new: "0 < file_size \<Longrightarrow> db_reach E {} (accounts_db_new_with_file_size file_size)"
| store: "db_reach E P db \<Longrightarrow> f \<notin> P \<Longrightarrow> \<forall>ka \<in> set accounts. storable E db ka \<Longrightarrow>
    db_store E f accounts db = Some (Ok db' :: (unit, accounts_db) res) \<Longrightarrow> db_reach E P db'"
| add_root: "db_reach E P db \<Longrightarrow> f \<notin> P \<Longrightarrow> db_add_root f db = (Ok db' :: (unit, accounts_db) res) \<Longrightarrow> db_reach E P db'"
| purge: "db_reach E P db \<Longrightarrow> db_reach E (if is_root (db_index db) f then P else insert f P) (db_purge_fork f db)"

lemma db_reach_ok:
  assumes "db_reach E P db" "db_env_ok E"
  shows "db_ok E P db"
  using assms
proof (induction rule: db_reach.induct)
  case (store P db f accounts db')
  then show ?case using db_store_load [where 'x = unit, OF store.prems(1) store.IH [OF store.prems(1)] store.hyps(2,3)] by auto
next
  case (purge P db f)
  then show ?case by (intro db_purge_ok) simp
qed (auto intro: db_new_ok db_add_root_ok)

text \<open>
  C26: the database is a store of accounts per fork. In every database that the operations build,
  storing accounts that fit in a file always returns; afterwards every reader of forks that have
  not been purged loads, for each key, exactly what the contract \<open>load_after_store\<close> says: the last
  account stored for the key if the reader sees the fork and nothing newer (an account without
  difs reads back without its data), and otherwise the account it saw before, except one older
  than the last root, which the store has dropped. No store is reused or purged while one of its
  records is still referred to.
\<close>

theorem accounts_db_store_load:
  assumes "db_reach E P db" "db_env_ok E" "f \<notin> P" "\<forall>ka \<in> set accounts. storable E db ka"
  shows "\<exists>db'. db_store E f accounts db = Some (Ok db' :: (unit, accounts_db) res) \<and> db_reach E P db' \<and>
    (\<forall>anc k. dom anc \<inter> P = {} \<longrightarrow> db_load E db' anc k = load_after_store E f accounts db anc k)"
  using db_store_load [where 'x = unit, OF assms(2) db_reach_ok [OF assms(1,2)] assms(3,4)] assms
  by (blast intro: db_reach.store)

definition demo_db_env :: db_env where
  "demo_db_env = \<lparr>env_layout = packed_layout, env_gen_range = (\<lambda>_ _. 0)\<rparr>"

lemma demo_db_env_ok: "db_env_ok demo_db_env"
  by (simp add: db_env_ok_def demo_db_env_def packed_layout_ok)

theorem accounts_db_store_load_witness:
  "\<exists>db'. db_store demo_db_env 1 [(default_pubkey, account_new 7 0 2 default_pubkey)] (accounts_db_new_with_file_size 256)
      = Some (Ok db' :: (unit, accounts_db) res) \<and>
     db_load demo_db_env db' [1 \<mapsto> 0] default_pubkey = Some (account_new 7 0 2 default_pubkey, 1)"
proof -
  let ?as = "[(default_pubkey, account_new 7 0 2 default_pubkey)]" and ?db = "accounts_db_new_with_file_size 256"
  have r: "db_reach demo_db_env {} ?db" by (rule db_reach.new) simp
  have s: "\<forall>ka \<in> set ?as. storable demo_db_env ?db ka"
    by (simp add: storable_def valid_key_def default_pubkey_def account_new_def demo_db_env_def packed_layout_def
        align_up_def accounts_db_new_with_file_size_def)
  from accounts_db_store_load [OF r demo_db_env_ok _ s, of 1] obtain db' where
    "db_store demo_db_env 1 ?as ?db = Some (Ok db' :: (unit, accounts_db) res)"
    "db_load demo_db_env db' [1 \<mapsto> 0] default_pubkey = load_after_store demo_db_env 1 ?as ?db [1 \<mapsto> 0] default_pubkey"
    by auto
  then show ?thesis
    by (simp add: load_after_store_def visible_def visible_forks_def versions_def accounts_db_new_with_file_size_def
        accounts_index_default_def as_stored_def account_new_def)
qed

lemma append_end_mono: "a \<le> b \<Longrightarrow> append_end a vals \<le> append_end b vals"
proof (induction vals arbitrary: a b)
  case (Cons v vals)
  from Cons.IH [of "align_up a + length v" "align_up b + length v"] align_up_mono [OF Cons.prems] show ?case
    by (simp add: append_end_def)
qed (simp add: append_end_def)

lemma store_loop_diverges:
  assumes "(store_loop E f metas db infos :: ('x, account_info list \<times> accounts_db) res option) = Some y"
  shows "db_env_ok E \<longrightarrow> f \<notin> P \<longrightarrow> store_inv E P M db \<longrightarrow> 0 < db_file_size db \<longrightarrow> infos = [] \<longrightarrow> metas = [ma] \<longrightarrow>
    meta_of ma \<longrightarrow> db_file_size db < append_end 0 (account_ptrs (env_layout E) ma) \<longrightarrow> False"
proof (rule store_loop.raw_induct [OF _ assms], intro impI)
  fix loop :: "db_env \<Rightarrow> fork \<Rightarrow> (storage_meta \<times> account) list \<Rightarrow> accounts_db \<Rightarrow> account_info list \<Rightarrow>
       ('x, account_info list \<times> accounts_db) res option"
    and E f metas db infos and y :: "('x, account_info list \<times> accounts_db) res"
  assume IH: "\<And>E f metas db infos y. loop E f metas db infos = Some y \<Longrightarrow>
      db_env_ok E \<longrightarrow> f \<notin> P \<longrightarrow> store_inv E P M db \<longrightarrow> 0 < db_file_size db \<longrightarrow> infos = [] \<longrightarrow> metas = [ma] \<longrightarrow>
      meta_of ma \<longrightarrow> db_file_size db < append_end 0 (account_ptrs (env_layout E) ma) \<longrightarrow> False"
    and body: "(if length infos < length metas
        then case fork_storage E f db of
             Ok (i, db) \<Rightarrow> (case storage_append E i (drop (length infos) metas) db of (new, db) \<Rightarrow> loop E f metas db (infos @ new))
           | Err e \<Rightarrow> Some (Err e) | Panic \<Rightarrow> Some Panic
        else Some (Ok (infos, db))) = Some y"
    and h: "db_env_ok E" "f \<notin> P" "store_inv E P M db" "0 < db_file_size db" "infos = []" "metas = [ma]" "meta_of ma"
      "db_file_size db < append_end 0 (account_ptrs (env_layout E) ma)"
  obtain i db1 e where fs: "(fork_storage E f db :: ('x, nat \<times> accounts_db) res) = Ok (i, db1)"
    and inv1: "store_inv E P M db1" and sm1: "same_meta db db1"
    and e: "map_of (db_storage db1) i = Some e" "se_status e = StorageAvailable"
    using fork_storage_spec [where 'x = 'x, OF h(3,1,2,4)] by blast
  obtain nw db2 where sa: "storage_append E i [ma] db1 = (nw, db2)" by (cases "storage_append E i [ma] db1")
  note ap = storage_append_spec [OF inv1 h(1) e _ _ sa]
  have "entry_inv E P M db1 i e" using inv1 e by (simp add: store_inv_def)
  then have "av_file_size (se_accounts e) = db_file_size db" using sm1 by (simp add: entry_inv_def same_meta_def)
  then have "av_file_size (se_accounts e) < append_end (append_offset (se_accounts e)) (account_ptrs (env_layout E) ma)"
    using h(8) append_end_mono [of 0 "append_offset (se_accounts e)" "account_ptrs (env_layout E) ma"] by simp
  then have nil: "nw = []" using sa e by (auto simp: storage_append_def append_ptrs_locked_def Let_def)
  have inv2: "store_inv E P M db2" "same_meta db1 db2" using ap h(7) nil by simp_all
  have "loop E f metas db2 [] = Some y" using body fs sa h(5,6) nil by simp
  from IH [OF this] show False using inv2 sm1 h by (simp add: same_meta_def)
qed

text \<open>
  C27: an account with difs that does not fit in a store file is never stored: the loop finds the store full,
  resets it because it is empty, and tries again for ever.
\<close>

theorem accounts_db_store_diverges:
  assumes "db_reach E P db" "db_env_ok E" "f \<notin> P" "valid_key k" "valid_key (owner a)" "difs a \<noteq> 0"
    "length (data a) < 2 ^ 64"
    "db_file_size db < align_up (align_up (meta_size (env_layout E)) + balance_size (env_layout E)) + length (data a)"
  shows "db_store E f [(k, a)] db = (None :: (unit, accounts_db) res option)"
proof (rule ccontr)
  let ?db = "db\<lparr>db_write_version := db_write_version db + 1\<rparr>"
  let ?m = "\<lparr>write_version = of_nat (db_write_version db), meta_pubkey = k, data_len = of_nat (length (data a))\<rparr>"
  assume "db_store E f [(k, a)] db \<noteq> (None :: (unit, accounts_db) res option)"
  then obtain y where "(store_loop E f [(?m, a)] ?db [] :: (unit, account_info list \<times> accounts_db) res option) = Some y"
    using assms(6) by (auto simp: db_store_def db_store_accounts_def)
  from store_loop_diverges [OF this] have no: "\<not> (db_env_ok E \<and> f \<notin> P \<and> store_inv E P (index_refs (db_index db)) ?db \<and>
      0 < db_file_size ?db \<and> meta_of (?m, a) \<and> db_file_size ?db < append_end 0 (account_ptrs (env_layout E) (?m, a)))" by blast
  have L: "layout_ok (env_layout E)" using assms(2) by (simp add: db_env_ok_def)
  have "append_end 0 (account_ptrs (env_layout E) (?m, a)) =
      align_up (align_up (meta_size (env_layout E)) + balance_size (env_layout E)) + length (data a)"
    using L assms(4,5,7) by (simp add: append_end_def account_ptrs_def Let_def layout_ok_def unat_of_nat)
  moreover have "meta_of (?m, a)" using assms by (simp add: meta_of_def entry_ok_def unat_of_nat)
  moreover have "store_inv E P (index_refs (db_index db)) db" "0 < db_file_size db"
    using db_reach_ok [OF assms(1,2)] by (simp_all add: db_ok_def)
  then have "store_inv E P (index_refs (db_index db)) ?db" "0 < db_file_size db"
    by (auto intro: iffD2 [OF store_inv_cong])
  ultimately show False using no assms by simp
qed

theorem accounts_db_store_diverges_witness:
  "db_store demo_db_env 1 [(default_pubkey, account_new 7 0 256 default_pubkey)] (accounts_db_new_with_file_size 256)
     = (None :: (unit, accounts_db) res option)"
  by (rule accounts_db_store_diverges [OF db_reach.new demo_db_env_ok])
    (simp_all add: valid_key_def default_pubkey_def account_new_def accounts_db_new_with_file_size_def
      demo_db_env_def packed_layout_def align_up_def)

section \<open>The interface used by the bank\<close>

text \<open>The balances a reader sees, and their total over a set of keys.\<close>

definition balance_of :: "(pubkey \<Rightarrow> account option) \<Rightarrow> pubkey \<Rightarrow> u64" where
  "balance_of ld k = (case ld k of None \<Rightarrow> 0 | Some a \<Rightarrow> difs a)"

definition total_balance :: "pubkey set \<Rightarrow> (pubkey \<Rightarrow> account option) \<Rightarrow> u64" where
  "total_balance K ld = (\<Sum>k \<in> K. balance_of ld k)"

text \<open>
  What a client at the tip of a fork relies on: storing accounts returns, and afterwards a key reads
  back as the last account stored for it, or as before. Client lemmas are proved from this alone.
\<close>

locale account_store =
  fixes ok :: "'db \<Rightarrow> bool"
    and load :: "'db \<Rightarrow> pubkey \<Rightarrow> account option"
    and put :: "(pubkey \<times> account) list \<Rightarrow> 'db \<Rightarrow> (unit, 'db) res option"
    and can_store :: "'db \<Rightarrow> pubkey \<times> account \<Rightarrow> bool"
  assumes put_load: "ok db \<Longrightarrow> \<forall>ka \<in> set as. can_store db ka \<Longrightarrow>
    \<exists>db'. put as db = Some (Ok db') \<and> ok db' \<and> can_store db' = can_store db \<and>
      (\<forall>k. load db' k = (case map_of (rev as) k of None \<Rightarrow> load db k | Some a \<Rightarrow> Some (as_stored a)))"
begin

lemma put_loadE:
  assumes "ok db" "\<forall>ka \<in> set as. can_store db ka"
  obtains db' where "put as db = Some (Ok db')" "ok db'" "can_store db' = can_store db"
    "\<And>k. load db' k = (case map_of (rev as) k of None \<Rightarrow> load db k | Some a \<Rightarrow> Some (as_stored a))"
  using put_load [OF assms] by blast

lemma put_balance:
  assumes "ok db" "\<forall>ka \<in> set as. can_store db ka" "put as db = Some (Ok db')"
  shows "balance_of (load db') k = (case map_of (rev as) k of None \<Rightarrow> balance_of (load db) k | Some a \<Rightarrow> difs a)"
proof -
  obtain x where x: "put as db = Some (Ok x)"
    "\<And>k. load x k = (case map_of (rev as) k of None \<Rightarrow> load db k | Some a \<Rightarrow> Some (as_stored a))"
    using put_loadE [OF assms(1,2)] by blast
  then show ?thesis using assms(3) by (simp add: balance_of_def as_stored_def split: option.split)
qed

text \<open>Storing accounts under distinct keys moves the total by the change of those keys.\<close>

lemma put_total:
  assumes "ok db" "\<forall>ka \<in> set as. can_store db ka" "distinct (map fst as)" "finite K" "fst ` set as \<subseteq> K"
    "put as db = Some (Ok db')"
  shows "total_balance K (load db') = total_balance K (load db)
    - sum_list (map (\<lambda>ka. balance_of (load db) (fst ka)) as) + sum_list (map (\<lambda>ka. difs (snd ka)) as)"
proof -
  note bal = put_balance [OF assms(1,2,6)]
  have m: "map_of (rev as) = map_of as"
    using assms(3) by (simp add: map_of_inject_set rev_map [symmetric])
  let ?S = "fst ` set as"
  have out: "sum (balance_of (load db')) (K - ?S) = sum (balance_of (load db)) (K - ?S)"
    by (rule sum.cong) (auto simp: bal m map_of_eq_None_iff [THEN iffD2])
  have S: "sum g ?S = sum_list (map (\<lambda>ka. g (fst ka)) as)" for g :: "pubkey \<Rightarrow> u64"
    using sum.distinct_set_conv_list [OF assms(3), of g] by (simp add: comp_def)
  have "sum_list (map (\<lambda>ka. balance_of (load db') (fst ka)) as) = sum_list (map (\<lambda>ka. difs (snd ka)) as)"
    using assms(3) by (intro arg_cong [of _ _ sum_list] map_cong) (auto simp: bal m)
  then show ?thesis
    unfolding total_balance_def
    using sum.subset_diff [OF assms(5,4), of "balance_of (load db')"] sum.subset_diff [OF assms(5,4), of "balance_of (load db)"]
    by (simp add: out S)
qed

end

text \<open>
  The tip of a fork: the reader sees the fork it writes, nothing newer, and no purged fork, and the
  fork is not older than the last root.
\<close>

definition fork_tip :: "db_env \<Rightarrow> fork set \<Rightarrow> ancestors \<Rightarrow> fork \<Rightarrow> accounts_db \<Rightarrow> bool" where
  "fork_tip E P anc f db \<longleftrightarrow>
     db_env_ok E \<and> db_ok E P db \<and> f \<notin> P \<and> dom anc \<inter> P = {} \<and> f \<in> dom anc \<and> last_root (db_index db) \<le> f \<and>
     (\<forall>g \<in> dom anc \<union> roots (db_index db). g \<le> f)"

definition tip_load :: "db_env \<Rightarrow> ancestors \<Rightarrow> accounts_db \<Rightarrow> pubkey \<Rightarrow> account option" where
  "tip_load E anc db k = map_option fst (db_load E db anc k)"

interpretation tip: account_store "fork_tip E P anc f" "tip_load E anc" "db_store E f" "storable E"
proof
  fix db and as :: "(pubkey \<times> account) list"
  assume tip: "fork_tip E P anc f db" and st: "\<forall>ka \<in> set as. storable E db ka"
  then obtain db' where db': "db_store E f as db = Some (Ok db' :: (unit, accounts_db) res)" "db_ok E P db'"
    "db_file_size db' = db_file_size db" "last_root (db_index db') = last_root (db_index db)"
    "roots (db_index db') \<subseteq> roots (db_index db)"
    "\<And>k. db_load E db' anc k = load_after_store E f as db anc k"
    using db_store_load [where 'x = unit, of E P db f as] by (auto simp: fork_tip_def)
  have "visible (db_index db) anc f" "\<And>k. \<forall>g \<in> visible_forks (db_index db) k anc. g \<le> f"
    using tip by (auto simp: fork_tip_def visible_def visible_forks_def is_root_def)
  then have "tip_load E anc db' k = (case map_of (rev as) k of None \<Rightarrow> tip_load E anc db k | Some a \<Rightarrow> Some (as_stored a))" for k
    using tip by (simp add: tip_load_def db'(6) load_after_store_def fork_tip_def split: option.split)
  moreover have "storable E db' = storable E db" by (simp add: storable_def db'(3) fun_eq_iff)
  moreover have "fork_tip E P anc f db'" using tip db' by (auto simp: fork_tip_def)
  ultimately show "\<exists>db'. db_store E f as db = Some (Ok db' :: (unit, accounts_db) res) \<and> fork_tip E P anc f db' \<and> storable E db' = storable E db \<and>
      (\<forall>k. tip_load E anc db' k = (case map_of (rev as) k of None \<Rightarrow> tip_load E anc db k | Some a \<Rightarrow> Some (as_stored a)))"
    using db'(1) by (intro exI [of _ db']) simp
qed

end
