(* ===== verification/Account_Locks.thy ===== *)
theory Account_Locks
  imports Message_Model "HOL-Library.Sublist"
begin

text \<open>
  The account locks of a bank, \<^verbatim>\<open>src/runtime/src/accounts.rs\<close>. A bank locks the accounts of a batch of
  transactions before it loads them, and holds record locks from the moment a batch is recorded
  until it is committed; a child bank waits for the record locks of its ancestors.

  The sets of record locks are shared between a bank and its descendants (\<open>Arc<Mutex<HashSet>>\<close>): they
  live in a heap, and a bank holds the address of its own set and those of its ancestors. The result
  \<open>None\<close> of a lock operation means that it waits: an ancestor holds one of the keys, and the operation is
  tried again when the heap has changed. The counters of errors are metrics and are left out.
\<close>

section \<open>The locks\<close>

type_synonym 'a tx_result = "transaction_error + 'a"
type_synonym lock_heap = "nat \<Rightarrow> pubkey set"

datatype account_lock_type = AccountLock | RecordLock

record accounts_locks =
  account_locks :: "pubkey set"
  record_locks :: nat
  parent_record_locks :: "nat list"

definition accounts_locks_new :: "nat \<Rightarrow> lock_heap \<Rightarrow> accounts_locks \<times> lock_heap" where
  "accounts_locks_new p H =
     (\<lparr>account_locks = {}, record_locks = p, parent_record_locks = []\<rparr>, H(p := {}))"

text \<open>The child takes over the sets of its parent (those in use), the parent keeps its own only.\<close>

definition accounts_locks_new_from_parent ::
  "nat \<Rightarrow> accounts_locks \<Rightarrow> lock_heap \<Rightarrow> accounts_locks \<times> accounts_locks \<times> lock_heap" where
  "accounts_locks_new_from_parent p parent H =
     (let ps = filter (\<lambda>a. H a \<noteq> {}) (record_locks parent # parent_record_locks parent)
      in (\<lparr>account_locks = {}, record_locks = p, parent_record_locks = ps\<rparr>,
          parent\<lparr>parent_record_locks := []\<rparr>, H(p := {})))"

definition retain_parents :: "lock_heap \<Rightarrow> pubkey \<Rightarrow> nat list \<Rightarrow> nat list option" where
  "retain_parents H k ps =
     (if list_ex (\<lambda>p. k \<in> H p) ps then None else Some (filter (\<lambda>p. H p \<noteq> {}) ps))"

fun lock_check :: "lock_heap \<Rightarrow> pubkey set \<Rightarrow> pubkey list \<Rightarrow> nat list \<Rightarrow> (unit tx_result \<times> nat list) option" where
  "lock_check H L [] ps = Some (Inr (), ps)"
| "lock_check H L (k # ks) ps =
     (if k \<in> L then Some (Inl AccountInUse, ps)
      else case retain_parents H k ps of None \<Rightarrow> None | Some ps' \<Rightarrow> lock_check H L ks ps')"

definition lock_account ::
  "lock_heap \<Rightarrow> pubkey list \<Rightarrow> pubkey set \<times> nat list \<Rightarrow> (unit tx_result \<times> pubkey set \<times> nat list) option" where
  "lock_account H keys s =
     (case lock_check H (fst s) keys (snd s) of
        None \<Rightarrow> None
      | Some (Inl e, ps) \<Rightarrow> Some (Inl e, fst s, ps)
      | Some (Inr _, ps) \<Rightarrow> Some (Inr (), fst s \<union> set keys, ps))"

text \<open>The slice \<open>account_keys[..(len - num_credit_only_unsigned_accounts)]\<close>.\<close>

definition lock_keys :: "message \<Rightarrow> ('e, pubkey list) res" where
  "lock_keys m =
     (let n = unat (num_credit_only_unsigned_accounts (header m)); l = length (account_keys m)
      in if n \<le> l then Ok (take (l - n) (account_keys m)) else Panic)"

fun lock_accounts ::
  "lock_heap \<Rightarrow> transaction list \<Rightarrow> accounts_locks \<Rightarrow> ('e, unit tx_result list \<times> accounts_locks) res option" where
  "lock_accounts H [] a = Some (Ok ([], a))"
| "lock_accounts H (tx # txs) a =
     (case (lock_keys (tx_message tx) :: ('e, pubkey list) res) of
        Panic \<Rightarrow> Some Panic | Err e \<Rightarrow> Some (Err e)
      | Ok keys \<Rightarrow>
     (case lock_account H keys (account_locks a, parent_record_locks a) of
        None \<Rightarrow> None
      | Some (r, L, ps) \<Rightarrow>
          map_option (\<lambda>m. res_bind m (\<lambda>(rs, a'). Ok (r # rs, a')))
            (lock_accounts H txs (a\<lparr>account_locks := L, parent_record_locks := ps\<rparr>))))"

fun lock_record_account :: "pubkey list \<Rightarrow> pubkey set \<Rightarrow> ('e, pubkey set) res" where
  "lock_record_account [] R = Ok R"
| "lock_record_account (k # ks) R = (if k \<in> R then Panic else lock_record_account ks (insert k R))"

fun lock_record_accounts :: "transaction list \<Rightarrow> accounts_locks \<Rightarrow> lock_heap \<Rightarrow> ('e, lock_heap) res" where
  "lock_record_accounts [] a H = Ok H"
| "lock_record_accounts (tx # txs) a H =
     res_bind (lock_keys (tx_message tx)) (\<lambda>keys.
       res_bind (lock_record_account keys (H (record_locks a))) (\<lambda>R.
         lock_record_accounts txs a (H(record_locks a := R))))"

definition unlock_account :: "transaction \<Rightarrow> unit tx_result \<Rightarrow> pubkey set \<Rightarrow> pubkey set" where
  "unlock_account tx r L =
     (case r of Inl AccountInUse \<Rightarrow> L | _ \<Rightarrow> fold (\<lambda>k L. L - {k}) (account_keys (tx_message tx)) L)"

definition unlock_accounts :: "transaction list \<Rightarrow> unit tx_result list \<Rightarrow> accounts_locks \<Rightarrow> accounts_locks" where
  "unlock_accounts txs results a =
     a\<lparr>account_locks := fold (\<lambda>(tx, r) L. unlock_account tx r L) (zip txs results) (account_locks a)\<rparr>"

definition unlock_record_account :: "transaction \<Rightarrow> pubkey set \<Rightarrow> pubkey set" where
  "unlock_record_account tx R = fold (\<lambda>k R. R - {k}) (account_keys (tx_message tx)) R"

definition unlock_record_accounts :: "transaction list \<Rightarrow> accounts_locks \<Rightarrow> lock_heap \<Rightarrow> lock_heap" where
  "unlock_record_accounts txs a H = H(record_locks a := fold unlock_record_account txs (H (record_locks a)))"

section \<open>What one call does\<close>

lemma lock_check_spec:
  "lock_check H L ks ps = Some (r, ps') \<Longrightarrow>
     set ps' \<subseteq> set ps \<and> (r = Inr () \<longleftrightarrow> set ks \<inter> L = {}) \<and> (r = Inl AccountInUse \<longleftrightarrow> set ks \<inter> L \<noteq> {}) \<and>
     (r = Inr () \<longrightarrow> (\<forall>p \<in> set ps. set ks \<inter> H p = {}))"
proof (induction H L ks ps rule: lock_check.induct)
  case (2 H L k ks ps)
  show ?case
  proof (cases "k \<in> L")
    case False
    then obtain q where q: "retain_parents H k ps = Some q" "lock_check H L ks q = Some (r, ps')"
      using 2(2) by (auto split: option.splits)
    then have "q = filter (\<lambda>p. H p \<noteq> {}) ps" "\<forall>p \<in> set ps. k \<notin> H p"
      by (auto simp: retain_parents_def list_ex_iff split: if_splits)
    with 2(1) [OF False q] False show ?thesis by auto
  qed (use 2(2) in auto)
qed auto

lemma lock_account_spec:
  assumes "lock_account H ks (L, ps) = Some (r, L', ps')"
  shows "if set ks \<inter> L = {} then r = Inr () \<and> L' = L \<union> set ks \<and> (\<forall>p \<in> set ps. set ks \<inter> H p = {})
         else r = Inl AccountInUse \<and> L' = L"
proof -
  from assms obtain x where "lock_check H L ks ps = Some (x, ps')"
    by (auto simp: lock_account_def split: option.splits sum.splits prod.splits)
  with lock_check_spec [OF this] assms show ?thesis
    by (auto simp: lock_account_def split: sum.splits)
qed

lemma fold_Diff: "fold (\<lambda>k L. L - {k}) ks L = L - set ks"
  by (induction ks arbitrary: L) auto

section \<open>Batches in flight\<close>

text \<open>
  A batch in flight: its transactions, the results of locking them, and those of its transactions
  that hold record locks.
\<close>

record batch =
  batch_txs :: "transaction list"
  batch_results :: "unit tx_result list"
  batch_recorded :: "transaction list"

record pipeline =
  p_locks :: accounts_locks
  p_heap :: lock_heap
  p_batches :: "batch list"

definition locked_keys :: "transaction \<Rightarrow> pubkey set" where
  "locked_keys tx = (case lock_keys (tx_message tx) :: (unit, pubkey list) res of Ok ks \<Rightarrow> set ks | _ \<Rightarrow> {})"

definition locked_txs :: "batch \<Rightarrow> transaction list" where
  "locked_txs b = map fst (filter (\<lambda>p. snd p = Inr ()) (zip (batch_txs b) (batch_results b)))"

text \<open>
  The keys that are locked and the keys that are only read are apart: \<open>K\<close> are the former. The messages
  that the program compiles list as credit-only unsigned keys the programs they invoke.
\<close>

definition lockable :: "pubkey set \<Rightarrow> transaction \<Rightarrow> bool" where
  "lockable K tx \<longleftrightarrow>
     (\<exists>ks ros. account_keys (tx_message tx) = ks @ ros \<and>
        length ros = unat (num_credit_only_unsigned_accounts (header (tx_message tx))) \<and>
        set ks \<subseteq> K \<and> set ros \<inter> K = {})"

text \<open>
  The steps of the pipeline of one bank: a batch is locked, some of its locked transactions are
  recorded, the record locks are released, the batch is unlocked; and at any time other banks change
  their own sets of record locks, or a child takes over those of the ancestors.
\<close>

inductive pipeline_step :: "pubkey set \<Rightarrow> pipeline \<Rightarrow> pipeline \<Rightarrow> bool" for K where
  lock: "\<forall>tx \<in> set txs. lockable K tx \<Longrightarrow>
    lock_accounts (p_heap s) txs (p_locks s) = Some (Ok (rs, a) :: (unit, unit tx_result list \<times> accounts_locks) res) \<Longrightarrow>
    pipeline_step K s (s\<lparr>p_locks := a, p_batches := \<lparr>batch_txs = txs, batch_results = rs, batch_recorded = []\<rparr> # p_batches s\<rparr>)"
| recording: "p_batches s = bs @ b # cs \<Longrightarrow> batch_recorded b = [] \<Longrightarrow> subseq txs (locked_txs b) \<Longrightarrow>
    lock_record_accounts txs (p_locks s) (p_heap s) = (Ok H :: (unit, lock_heap) res) \<Longrightarrow>
    pipeline_step K s (s\<lparr>p_heap := H, p_batches := bs @ b\<lparr>batch_recorded := txs\<rparr> # cs\<rparr>)"
| recorded: "p_batches s = bs @ b # cs \<Longrightarrow>
    pipeline_step K s (s\<lparr>p_heap := unlock_record_accounts (batch_recorded b) (p_locks s) (p_heap s),
                       p_batches := bs @ b\<lparr>batch_recorded := []\<rparr> # cs\<rparr>)"
| unlock: "p_batches s = bs @ b # cs \<Longrightarrow> batch_recorded b = [] \<Longrightarrow>
    pipeline_step K s (s\<lparr>p_locks := unlock_accounts (batch_txs b) (batch_results b) (p_locks s), p_batches := bs @ cs\<rparr>)"
| others: "H (record_locks (p_locks s)) = p_heap s (record_locks (p_locks s)) \<Longrightarrow>
    pipeline_step K s (s\<lparr>p_heap := H, p_locks := (p_locks s)\<lparr>parent_record_locks := ps\<rparr>\<rparr>)"

inductive pipeline_reach :: "pubkey set \<Rightarrow> pipeline \<Rightarrow> bool" for K where
  init: "accounts_locks_new p H = (a, H') \<Longrightarrow> pipeline_reach K \<lparr>p_locks = a, p_heap = H', p_batches = []\<rparr>"
| step: "pipeline_reach K s \<Longrightarrow> pipeline_step K s s' \<Longrightarrow> pipeline_reach K s'"

section \<open>The invariant\<close>

abbreviation apart :: "pubkey set list \<Rightarrow> bool" where
  "apart \<equiv> sorted_wrt (\<lambda>A B. A \<inter> B = {})"

definition held :: "batch list \<Rightarrow> pubkey set list" where
  "held bs = concat (map (\<lambda>b. map locked_keys (locked_txs b)) bs)"

definition recorded :: "batch list \<Rightarrow> pubkey set" where
  "recorded bs = (\<Union>b \<in> set bs. \<Union>tx \<in> set (batch_recorded b). locked_keys tx)"

definition batch_ok :: "pubkey set \<Rightarrow> batch \<Rightarrow> bool" where
  "batch_ok K b \<longleftrightarrow>
     length (batch_results b) = length (batch_txs b) \<and> set (batch_results b) \<subseteq> {Inr (), Inl AccountInUse} \<and>
     (\<forall>tx \<in> set (batch_txs b). lockable K tx) \<and> subseq (batch_recorded b) (locked_txs b)"

definition pipeline_inv :: "pubkey set \<Rightarrow> pipeline \<Rightarrow> bool" where
  "pipeline_inv K s \<longleftrightarrow>
     (\<forall>b \<in> set (p_batches s). batch_ok K b) \<and> apart (held (p_batches s)) \<and>
     account_locks (p_locks s) = \<Union> (set (held (p_batches s))) \<and>
     p_heap s (record_locks (p_locks s)) = recorded (p_batches s)"

definition sliceable :: "transaction \<Rightarrow> bool" where
  "sliceable tx \<longleftrightarrow>
     unat (num_credit_only_unsigned_accounts (header (tx_message tx))) \<le> length (account_keys (tx_message tx))"

lemma lockable_sliceable: "lockable K tx \<Longrightarrow> sliceable tx"
  by (auto simp: lockable_def sliceable_def)

lemma sliceable_keys:
  assumes "sliceable tx"
  shows "lock_keys (tx_message tx) = Ok ks \<Longrightarrow> locked_keys tx = set ks"
    and "\<exists>ks. (lock_keys (tx_message tx) :: ('e, pubkey list) res) = Ok ks"
  using assms by (auto simp: sliceable_def locked_keys_def lock_keys_def Let_def)

lemma lockable_keys:
  assumes "lockable K tx"
  shows "lock_keys (tx_message tx) = Ok ks \<Longrightarrow> locked_keys tx = set ks"
    and "locked_keys tx \<subseteq> K" and "set (account_keys (tx_message tx)) \<inter> K = locked_keys tx"
    and "\<exists>ks. (lock_keys (tx_message tx) :: ('e, pubkey list) res) = Ok ks"
  using assms by (auto simp: lockable_def locked_keys_def lock_keys_def Let_def)

lemma lock_accounts_spec:
  assumes "(lock_accounts H txs a :: ('e, unit tx_result list \<times> accounts_locks) res option) = Some (Ok (rs, a'))"
    "\<forall>tx \<in> set txs. sliceable tx"
  defines "oks \<equiv> map locked_keys (map fst (filter (\<lambda>p. snd p = Inr ()) (zip txs rs)))"
  shows "length rs = length txs \<and> set rs \<subseteq> {Inr (), Inl AccountInUse} \<and> record_locks a' = record_locks a \<and>
    account_locks a' = account_locks a \<union> \<Union> (set oks) \<and> apart oks \<and> (\<forall>A \<in> set oks. A \<inter> account_locks a = {})"
  using assms(1,2) unfolding oks_def
proof (induction txs arbitrary: a rs)
  case (Cons tx txs)
  note lk = sliceable_keys [of tx]
  obtain ks where ks: "(lock_keys (tx_message tx) :: ('e, pubkey list) res) = Ok ks" using lk(2) Cons.prems by auto
  then have set_ks: "set ks = locked_keys tx" using lk(1) [OF _ ks] Cons.prems by auto
  from Cons.prems(1) ks obtain r L ps rs' where
    l: "lock_account H ks (account_locks a, parent_record_locks a) = Some (r, L, ps)" and rs: "rs = r # rs'" and
    rec: "(lock_accounts H txs (a\<lparr>account_locks := L, parent_record_locks := ps\<rparr>)
             :: ('e, unit tx_result list \<times> accounts_locks) res option) = Some (Ok (rs', a'))"
    by (auto split: option.splits)
  from Cons.IH [OF rec] Cons.prems(2) lock_account_spec [OF l] show ?case
    by (cases "set ks \<inter> account_locks a = {}") (auto simp: rs set_ks)
qed simp

lemma lock_record_account_Ok:
  "lock_record_account ks R = Ok R' \<Longrightarrow> R' = R \<union> set ks"
  by (induction ks R rule: lock_record_account.induct) (auto split: if_splits)

lemma lock_record_accounts_Ok:
  assumes "lock_record_accounts txs a H = (Ok H' :: ('e, lock_heap) res)" "\<forall>tx \<in> set txs. lockable K tx"
  shows "H' (record_locks a) = H (record_locks a) \<union> (\<Union>tx \<in> set txs. locked_keys tx) \<and>
    (\<forall>p. p \<noteq> record_locks a \<longrightarrow> H' p = H p)"
  using assms
proof (induction txs arbitrary: H)
  case (Cons tx txs)
  then obtain ks R where ks: "lock_keys (tx_message tx) = (Ok ks :: ('e, pubkey list) res)"
    "lock_record_account ks (H (record_locks a)) = (Ok R :: ('e, pubkey set) res)"
    and rec: "lock_record_accounts txs a (H(record_locks a := R)) = (Ok H' :: ('e, lock_heap) res)" by auto
  have "set ks = locked_keys tx" using lockable_keys(1) [OF _ ks(1)] Cons.prems(2) by auto
  with Cons.IH [OF rec] Cons.prems(2) lock_record_account_Ok [OF ks(2)] show ?case by auto
qed simp

lemma unlock_fold:
  assumes "\<forall>p \<in> set prs. snd p \<in> {Inr (), Inl AccountInUse}"
  shows "fold (\<lambda>(tx, r) L. unlock_account tx r L) prs L =
    L - (\<Union>p \<in> set (filter (\<lambda>p. snd p = Inr ()) prs). set (account_keys (tx_message (fst p))))"
  using assms by (induction prs arbitrary: L) (auto simp: unlock_account_def fold_Diff)

lemma unlock_record_fold:
  "fold unlock_record_account txs R = R - (\<Union>tx \<in> set txs. set (account_keys (tx_message tx)))"
  by (induction txs arbitrary: R) (auto simp: unlock_record_account_def fold_Diff)

lemma held_simps [simp]:
  "held [] = []" "held (b # bs) = map locked_keys (locked_txs b) @ held bs" "held (bs @ cs) = held bs @ held cs"
  by (simp_all add: held_def)

lemma recorded_simps [simp]:
  "recorded [] = {}" "recorded (b # bs) = (\<Union>tx \<in> set (batch_recorded b). locked_keys tx) \<union> recorded bs"
  "recorded (bs @ cs) = recorded bs \<union> recorded cs"
  by (auto simp: recorded_def)

lemma locked_txs_recorded [simp]: "locked_txs (b\<lparr>batch_recorded := x\<rparr>) = locked_txs b"
  by (simp add: locked_txs_def)

lemma batch_ok_locked:
  assumes "batch_ok K b" "tx \<in> set (locked_txs b)"
  shows "lockable K tx" "set (account_keys (tx_message tx)) \<inter> K = locked_keys tx" "locked_keys tx \<subseteq> K"
proof -
  have "tx \<in> set (batch_txs b)" using assms(2) by (auto simp: locked_txs_def dest: set_zip_leftD)
  then show l: "lockable K tx" using assms(1) by (auto simp: batch_ok_def)
  show "set (account_keys (tx_message tx)) \<inter> K = locked_keys tx" "locked_keys tx \<subseteq> K"
    using lockable_keys [OF l] by auto
qed

lemma subseq_set: "subseq xs ys \<Longrightarrow> set xs \<subseteq> set ys"
  by (induction rule: list_emb.induct) auto

lemma recorded_held: "\<forall>b \<in> set bs. batch_ok K b \<Longrightarrow> recorded bs \<subseteq> \<Union> (set (held bs))"
proof (induction bs)
  case (Cons b bs)
  then have "set (batch_recorded b) \<subseteq> set (locked_txs b)" by (auto simp: batch_ok_def intro!: subseq_set)
  with Cons show ?case by auto
qed simp

lemma held_K: "\<forall>b \<in> set bs. batch_ok K b \<Longrightarrow> \<Union> (set (held bs)) \<subseteq> K"
  by (induction bs) (auto dest: batch_ok_locked(3))

lemma apart_split:
  assumes "apart (As @ Bs @ Cs)"
  shows "\<Union> (set Bs) \<inter> \<Union> (set (As @ Cs)) = {}" "apart (As @ Cs)"
  using assms unfolding sorted_wrt_append set_append by blast+

lemma diff_apart: "U \<inter> K = A \<Longrightarrow> A \<inter> B = {} \<Longrightarrow> B \<subseteq> K \<Longrightarrow> (A \<union> B) - U = B"
  by blast

lemma sub_apart: "R \<subseteq> X \<Longrightarrow> X \<inter> Y = {} \<Longrightarrow> Z \<subseteq> Y \<Longrightarrow> R \<inter> Z = {}"
  by blast

lemma batch_keys:
  assumes "batch_ok K b" "set txs \<subseteq> set (locked_txs b)"
  shows "(\<Union>tx \<in> set txs. set (account_keys (tx_message tx))) \<inter> K = (\<Union>tx \<in> set txs. locked_keys tx)"
proof -
  have "set (account_keys (tx_message tx)) \<inter> K = locked_keys tx" if "tx \<in> set txs" for tx
    using batch_ok_locked(2) [OF assms(1)] assms(2) that by blast
  then show ?thesis by auto
qed

lemma pipeline_step_inv:
  assumes "pipeline_step K s s'" "pipeline_inv K s"
  shows "pipeline_inv K s'"
  using assms
proof (cases rule: pipeline_step.cases)
  case (lock txs rs a)
  let ?b = "\<lparr>batch_txs = txs, batch_results = rs, batch_recorded = []\<rparr>"
  let ?oks = "map locked_keys (locked_txs ?b)"
  have "\<forall>tx \<in> set txs. sliceable tx" using lock(2) lockable_sliceable by blast
  then have spec: "length rs = length txs" "set rs \<subseteq> {Inr (), Inl AccountInUse}" "record_locks a = record_locks (p_locks s)"
    "account_locks a = account_locks (p_locks s) \<union> \<Union> (set ?oks)" "apart ?oks" "\<forall>A \<in> set ?oks. A \<inter> account_locks (p_locks s) = {}"
    using lock_accounts_spec [OF lock(3)] by (simp_all add: locked_txs_def)
  have "apart (?oks @ held (p_batches s))" using spec(5,6) assms(2) unfolding pipeline_inv_def sorted_wrt_append by blast
  moreover have "batch_ok K ?b" using spec(1,2) lock(2) by (simp add: batch_ok_def)
  moreover have "account_locks a = \<Union> (set (?oks @ held (p_batches s)))" using spec(4) assms(2) by (auto simp: pipeline_inv_def)
  ultimately show ?thesis using assms(2) spec(3) unfolding lock(1) pipeline_inv_def by simp
next
  case (recording bs b cs txs H)
  have "\<forall>tx \<in> set txs. lockable K tx"
    using assms(2) recording(2) subseq_set [OF recording(4)] batch_ok_locked(1) [of K b] unfolding pipeline_inv_def by auto
  from lock_record_accounts_Ok [OF recording(5) this] show ?thesis
    using assms(2) recording(2,3,4) unfolding recording(1) pipeline_inv_def batch_ok_def by auto
next
  case (recorded bs b cs)
  let ?R = "\<Union>tx \<in> set (batch_recorded b). locked_keys tx"
  have ok: "\<forall>c \<in> set bs \<union> set cs. batch_ok K c" "batch_ok K b"
    and ap: "apart (held bs @ map locked_keys (locked_txs b) @ held cs)"
    and h: "p_heap s (record_locks (p_locks s)) = ?R \<union> Account_Locks.recorded (bs @ cs)"
    using assms(2) recorded(2) unfolding pipeline_inv_def by auto
  have r: "Account_Locks.recorded (bs @ cs) \<subseteq> \<Union> (set (held bs @ held cs))" "\<Union> (set (held bs @ held cs)) \<subseteq> K"
    using recorded_held [of "bs @ cs" K] held_K [of "bs @ cs" K] ok by auto
  have b: "set (batch_recorded b) \<subseteq> set (locked_txs b)" using ok(2) subseq_set by (auto simp: batch_ok_def)
  have "?R \<subseteq> \<Union> (set (map locked_keys (locked_txs b)))" using b by auto
  from sub_apart [OF this apart_split(1) [OF ap] r(1)] diff_apart [OF batch_keys [OF ok(2) b] _ order_trans [OF r]]
  have "p_heap s (record_locks (p_locks s)) - (\<Union>tx \<in> set (batch_recorded b). set (account_keys (tx_message tx))) =
      Account_Locks.recorded (bs @ cs)"
    unfolding h by simp
  then show ?thesis
    using assms(2) ok unfolding recorded(1) pipeline_inv_def
    by (auto simp: recorded(2) unlock_record_accounts_def unlock_record_fold batch_ok_def)
next
  case (unlock bs b cs)
  have ok: "\<forall>c \<in> set bs \<union> set cs. batch_ok K c" "batch_ok K b"
    and ap: "apart (held bs @ map locked_keys (locked_txs b) @ held cs)"
    and h: "account_locks (p_locks s) = \<Union> (set (held bs @ map locked_keys (locked_txs b) @ held cs))"
    using assms(2) unlock(2) unfolding pipeline_inv_def by auto
  have "\<forall>p \<in> set (zip (batch_txs b) (batch_results b)). snd p \<in> {Inr (), Inl AccountInUse}"
    using ok(2) by (auto simp: batch_ok_def dest!: set_zip_rightD)
  then have L: "account_locks (unlock_accounts (batch_txs b) (batch_results b) (p_locks s)) =
      account_locks (p_locks s) - (\<Union>tx \<in> set (locked_txs b). set (account_keys (tx_message tx)))"
    by (simp add: unlock_accounts_def unlock_fold locked_txs_def)
  let ?A = "\<Union>tx \<in> set (locked_txs b). locked_keys tx" and ?B = "\<Union> (set (held bs @ held cs))"
  have "?B \<subseteq> K" using held_K [of "bs @ cs" K] ok by auto
  moreover have "?A \<inter> ?B = {}" using apart_split(1) [OF ap] by simp
  ultimately have "(?A \<union> ?B) - (\<Union>tx \<in> set (locked_txs b). set (account_keys (tx_message tx))) = ?B"
    using diff_apart [OF batch_keys [OF ok(2) subset_refl]] by simp
  moreover have "account_locks (p_locks s) = ?A \<union> ?B" unfolding h by auto
  ultimately have "account_locks (unlock_accounts (batch_txs b) (batch_results b) (p_locks s)) = ?B" unfolding L by simp
  then show ?thesis
    using assms(2) ok apart_split(2) [OF ap] unlock(2,3) unfolding unlock(1) pipeline_inv_def
    by (auto simp: unlock_accounts_def)
next
  case (others H ps)
  then show ?thesis using assms(2) by (auto simp: pipeline_inv_def)
qed

lemma pipeline_reach_inv: "pipeline_reach K s \<Longrightarrow> pipeline_inv K s"
proof (induction rule: pipeline_reach.induct)
  case (init p H a H')
  then show ?case by (auto simp: accounts_locks_new_def pipeline_inv_def)
qed (rule pipeline_step_inv)

lemma held_alt: "held bs = map locked_keys (concat (map locked_txs bs))"
  by (induction bs) auto

text \<open>
  C32: account locks exclude. Let no transaction of the batches lock a key that another one only reads, that is
  has among its unsigned credit-only keys (\<open>lockable K\<close>, with \<open>K\<close> the keys that may be locked): unlocking a
  transaction removes those keys from the locks too. Then, whatever the order in which batches are locked, recorded
  and unlocked, and whatever other banks do, no two transactions in flight that obtained their locks share a locked
  key, and the set of locks is exactly the keys of those transactions: a batch that ends releases its keys and no
  others.
\<close>

theorem account_locks_exclusive:
  assumes "pipeline_reach K s" "i < j" "j < length (concat (map locked_txs (p_batches s)))"
  shows "locked_keys (concat (map locked_txs (p_batches s)) ! i) \<inter> locked_keys (concat (map locked_txs (p_batches s)) ! j) = {} \<and>
    account_locks (p_locks s) = (\<Union>tx \<in> set (concat (map locked_txs (p_batches s))). locked_keys tx)"
  using pipeline_reach_inv [OF assms(1)] assms(2,3)
  by (simp add: pipeline_inv_def held_alt sorted_wrt_iff_nth_less del: set_concat)

definition demo_lock_tx :: "u8 \<Rightarrow> transaction" where
  "demo_lock_tx n = \<lparr>signatures = [], tx_message = message_new_with_compiled_instructions 1 0 1
     [demo_key n, demo_key 9] default_hash []\<rparr>"

definition demo_pipeline :: "batch list \<Rightarrow> pubkey set \<Rightarrow> pipeline" where
  "demo_pipeline bs L = \<lparr>p_locks = \<lparr>account_locks = L, record_locks = 0, parent_record_locks = []\<rparr>, p_heap = (\<lambda>_. {}), p_batches = bs\<rparr>"

lemma demo_lock_tx_lockable: "n \<in> {1, 2} \<Longrightarrow> lockable {demo_key 1, demo_key 2} (demo_lock_tx n)"
  unfolding lockable_def
  by (rule exI [of _ "[demo_key n]"], rule exI [of _ "[demo_key 9]"])
    (auto simp: demo_lock_tx_def message_new_with_compiled_instructions_def demo_key_def)

definition demo_batch :: batch where
  "demo_batch = \<lparr>batch_txs = [demo_lock_tx 1, demo_lock_tx 1, demo_lock_tx 2],
     batch_results = [Inr (), Inl AccountInUse, Inr ()], batch_recorded = []\<rparr>"

lemma demo_pipeline_lock:
  "lock_accounts (\<lambda>_. {}) (batch_txs demo_batch) (p_locks (demo_pipeline [] {})) =
     (Some (Ok (batch_results demo_batch, p_locks (demo_pipeline [] {demo_key 1, demo_key 2})))
        :: (unit, unit tx_result list \<times> accounts_locks) res option)"
  by code_simp

lemma demo_pipeline_reach:
  "pipeline_reach {demo_key 1, demo_key 2} (demo_pipeline [demo_batch] {demo_key 1, demo_key 2})" (is "pipeline_reach ?K ?s")
proof -
  have "pipeline_reach ?K (demo_pipeline [] {})"
    using pipeline_reach.init [of 0 "\<lambda>_. {}" _ _ ?K] by (simp add: accounts_locks_new_def demo_pipeline_def fun_upd_idem)
  moreover have "\<forall>tx \<in> set (batch_txs demo_batch). lockable ?K tx" by (simp add: demo_batch_def demo_lock_tx_lockable)
  then have "pipeline_step ?K (demo_pipeline [] {}) ?s"
    using pipeline_step.lock [of "batch_txs demo_batch" ?K "demo_pipeline [] {}"] demo_pipeline_lock
    by (simp add: demo_pipeline_def demo_batch_def)
  ultimately show ?thesis by (rule pipeline_reach.step)
qed

theorem account_locks_exclusive_witness:
  "locked_keys (demo_lock_tx 1) \<inter> locked_keys (demo_lock_tx 2) = {}"
  using account_locks_exclusive [OF demo_pipeline_reach, of 0 1]
  by (simp add: demo_pipeline_def locked_txs_def demo_batch_def)

section \<open>Record locks\<close>

lemma lock_record_account_total:
  "distinct ks \<Longrightarrow> set ks \<inter> R = {} \<Longrightarrow> lock_record_account ks R = Ok (R \<union> set ks)"
  by (induction ks R rule: lock_record_account.induct) auto

lemma lock_record_accounts_total:
  assumes "\<forall>tx \<in> set txs. lockable K tx \<and> distinct (account_keys (tx_message tx)) \<and> locked_keys tx \<inter> H (record_locks a) = {}"
    "apart (map locked_keys txs)"
  shows "\<exists>H'. lock_record_accounts txs a H = (Ok H' :: ('e, lock_heap) res)"
  using assms
proof (induction txs arbitrary: H)
  case (Cons tx txs)
  then have tx: "lockable K tx" "distinct (account_keys (tx_message tx))" "locked_keys tx \<inter> H (record_locks a) = {}" by auto
  obtain ks where ks: "(lock_keys (tx_message tx) :: ('e, pubkey list) res) = Ok ks" using lockable_keys(4) [OF tx(1)] by blast
  have "distinct ks" using ks tx(2) by (auto simp: lock_keys_def Let_def split: if_splits)
  moreover have "set ks = locked_keys tx" using lockable_keys(1) [OF tx(1) ks] by simp
  ultimately have "lock_record_account ks (H (record_locks a)) = (Ok (H (record_locks a) \<union> locked_keys tx) :: ('e, pubkey set) res)"
    using tx(3) by (simp add: lock_record_account_total)
  moreover have "\<exists>H'. lock_record_accounts txs a (H(record_locks a := H (record_locks a) \<union> locked_keys tx)) = (Ok H' :: ('e, lock_heap) res)"
    using Cons.prems by (intro Cons.IH) auto
  ultimately show ?case using ks by simp
qed simp

lemma sorted_wrt_subseq: "subseq xs ys \<Longrightarrow> sorted_wrt P ys \<Longrightarrow> sorted_wrt P xs"
proof (induction rule: list_emb.induct)
  case (list_emb_Cons2 x y xs ys)
  then show ?case using subseq_set [OF list_emb_Cons2(2)] by auto
qed auto

text \<open>
  The assertion of \<open>lock_record_account\<close> never fails. In every reachable state, any of the locked
  transactions of a batch that is not being recorded can take their record locks, as long as no
  transaction lists a key twice (those are refused when their accounts are loaded).
\<close>

theorem record_locks_never_panic:
  assumes "pipeline_reach K s" "b \<in> set (p_batches s)" "batch_recorded b = []" "subseq txs (locked_txs b)"
    "\<forall>tx \<in> set txs. distinct (account_keys (tx_message tx))"
  shows "\<exists>H. lock_record_accounts txs (p_locks s) (p_heap s) = (Ok H :: (unit, lock_heap) res)"
proof (rule lock_record_accounts_total [of _ K])
  note inv = pipeline_reach_inv [OF assms(1)]
  obtain bs cs where bs: "p_batches s = bs @ b # cs" using assms(2) by (meson split_list)
  have ok: "\<forall>c \<in> set (bs @ cs). batch_ok K c" "batch_ok K b"
    and ap: "apart (held bs @ map locked_keys (locked_txs b) @ held cs)"
    and h: "p_heap s (record_locks (p_locks s)) = recorded (bs @ cs)"
    using inv assms(3) bs unfolding pipeline_inv_def by auto
  have "locked_keys tx \<subseteq> \<Union> (set (map locked_keys (locked_txs b)))" if "tx \<in> set txs" for tx
    using that subseq_set [OF assms(4)] by auto
  moreover have "recorded (bs @ cs) \<subseteq> \<Union> (set (held bs @ held cs))" using recorded_held [OF ok(1)] by simp
  ultimately have "locked_keys tx \<inter> recorded (bs @ cs) = {}" if "tx \<in> set txs" for tx
    using that sub_apart [OF _ apart_split(1) [OF ap]] by simp
  then show "\<forall>tx \<in> set txs. lockable K tx \<and> distinct (account_keys (tx_message tx)) \<and>
      locked_keys tx \<inter> p_heap s (record_locks (p_locks s)) = {}"
    using assms(5) batch_ok_locked(1) [OF ok(2)] subseq_set [OF assms(4)] h by auto
  have "apart (map locked_keys (locked_txs b))" using ap by (simp add: sorted_wrt_append)
  then show "apart (map locked_keys txs)" using subseq_map [OF assms(4)] sorted_wrt_subseq by blast
qed

theorem record_locks_never_panic_witness:
  "\<exists>H. lock_record_accounts [demo_lock_tx 1] \<lparr>account_locks = {demo_key 1, demo_key 2}, record_locks = 0, parent_record_locks = []\<rparr>
         (\<lambda>_. {}) = (Ok H :: (unit, lock_heap) res)"
  using record_locks_never_panic [OF demo_pipeline_reach, where txs = "[demo_lock_tx 1]"]
  by (simp add: demo_pipeline_def demo_batch_def locked_txs_def demo_lock_tx_def message_new_with_compiled_instructions_def demo_key_def)

text \<open>
  Without the separation of locked and read keys the locks do not exclude: a transaction that lists
  as credit-only a key that another one holds releases it.
\<close>

lemma unlock_releases_foreign_lock:
  "account_locks (unlock_accounts [demo_lock_tx 1] [Inr ()]
     \<lparr>account_locks = {demo_key 1, demo_key 9}, record_locks = 0, parent_record_locks = []\<rparr>) = {}"
  by (simp add: unlock_accounts_def unlock_account_def demo_lock_tx_def message_new_with_compiled_instructions_def)

end
