(* ===== verification/Accounts_Loader.thy ===== *)
theory Accounts_Loader
  imports Accounts_DB Account_Locks Message_Processor "HOL-Library.Product_Lexorder"
begin

text \<open>
  The accounts of transactions, \<^verbatim>\<open>src/runtime/src/accounts.rs\<close> and \<^verbatim>\<open>src/interface/src/fee_calculator.rs\<close>:
  loading the accounts and the loaders of a batch from the database, charging the fee, storing the
  results, and the scans of the accounts of a fork (by program, and for the hash of the state).

  \<open>ld\<close> is the reader \<open>AccountsDB::load(storage, ancestors, accounts_index, _)\<close> of a fork (\<open>tip_load\<close>). A panic
  ends the whole batch; an error is the result of its own transaction. SHA-256 is a parameter, and
  so is the serialisation of a balance. The counters of errors are metrics and are left out.
\<close>

section \<open>Fees\<close>

record fee_calculator =
  difs_per_signature :: u64

definition calculate_fee :: "fee_calculator \<Rightarrow> message \<Rightarrow> u64" where
  "calculate_fee fc m = difs_per_signature fc * ucast (num_required_signatures (header m))"

section \<open>Loading\<close>

fun called_accounts :: "(pubkey \<Rightarrow> account option) \<Rightarrow> message \<Rightarrow> pubkey list \<Rightarrow> ('e, account list) res" where
  "called_accounts ld m [] = Ok []"
| "called_accounts ld m (k # ks) =
     res_bind (program_ids m) (\<lambda>ids.
       res_bind (called_accounts ld m ks) (\<lambda>as.
         Ok (if k \<in> set ids then as else (case ld k of None \<Rightarrow> default_account | Some a \<Rightarrow> a) # as)))"

definition load_tx_accounts ::
  "(pubkey \<Rightarrow> account option) \<Rightarrow> transaction \<Rightarrow> u64 \<Rightarrow> ('e, account list tx_result) res" where
  "load_tx_accounts ld tx fee =
     (let m = tx_message tx in
      if signatures tx = [] \<and> fee \<noteq> 0 then Ok (Inl MissingSignatureForFee)
      else if has_duplicates (account_keys m) then Ok (Inl AccountLoadedTwice)
      else res_bind (called_accounts ld m (account_keys m)) (\<lambda>as.
        case as of
          [] \<Rightarrow> Ok (Inl AccountNotFound)
        | a # as' \<Rightarrow>
            if difs a = 0 then Ok (Inl AccountNotFound)
            else if owner a \<noteq> system_program_id then Ok (Inl InvalidAccountForFee)
            else if difs a < fee then Ok (Inl InsufficientFundsForFee)
            else Ok (Inr (a\<lparr>difs := difs a - fee\<rparr> # as'))))"

function executable_loop ::
  "(pubkey \<Rightarrow> account option) \<Rightarrow> nat \<Rightarrow> pubkey \<Rightarrow> (pubkey \<times> account) list \<Rightarrow> (pubkey \<times> account) list tx_result" where
  "executable_loop ld depth program_id as =
     (if program_id = native_loader_id then Inr as
      else if depth \<ge> 5 then Inl CallChainTooDeep
      else case ld program_id of
        None \<Rightarrow> Inl ProgramAccountNotFound
      | Some program \<Rightarrow>
          if \<not> executable program \<or> owner program = default_pubkey then Inl AccountNotFound
          else executable_loop ld (depth + 1) (owner program) ((owner program, program) # as))"
  by pat_completeness auto
termination
  by (relation "measure (\<lambda>(ld, depth, _). 5 - depth)") auto

declare executable_loop.simps [simp del]

definition load_executable_accounts ::
  "(pubkey \<Rightarrow> account option) \<Rightarrow> pubkey \<Rightarrow> (pubkey \<times> account) list tx_result" where
  "load_executable_accounts ld program_id = executable_loop ld 0 program_id []"

fun loaders_of ::
  "(pubkey \<Rightarrow> account option) \<Rightarrow> pubkey list \<Rightarrow> compiled_instruction list \<Rightarrow> loaders tx_result" where
  "loaders_of ld keys [] = Inr []"
| "loaders_of ld keys (ix # ixs) =
     (if length keys \<le> unat (program_ids_index ix) then Inl AccountNotFound
      else case load_executable_accounts ld (keys ! unat (program_ids_index ix)) of
        Inl e \<Rightarrow> Inl e
      | Inr l \<Rightarrow> (case loaders_of ld keys ixs of Inl e \<Rightarrow> Inl e | Inr ls \<Rightarrow> Inr (l # ls)))"

definition load_loaders :: "(pubkey \<Rightarrow> account option) \<Rightarrow> transaction \<Rightarrow> loaders tx_result" where
  "load_loaders ld tx = loaders_of ld (account_keys (tx_message tx)) (instructions (tx_message tx))"

type_synonym loaded = "(account list \<times> loaders) tx_result"

definition load_transaction ::
  "(pubkey \<Rightarrow> account option) \<Rightarrow> fee_calculator \<Rightarrow> transaction \<Rightarrow> unit tx_result \<Rightarrow> ('e, loaded) res" where
  "load_transaction ld fc tx r =
     (case r of
        Inl e \<Rightarrow> Ok (Inl e)
      | Inr _ \<Rightarrow>
          res_bind (load_tx_accounts ld tx (calculate_fee fc (tx_message tx))) (\<lambda>accounts.
            Ok (case accounts of
                  Inl e \<Rightarrow> Inl e
                | Inr as \<Rightarrow> (case load_loaders ld tx of Inl e \<Rightarrow> Inl e | Inr ls \<Rightarrow> Inr (as, ls)))))"

definition load_accounts ::
  "(pubkey \<Rightarrow> account option) \<Rightarrow> transaction list \<Rightarrow> unit tx_result list \<Rightarrow> fee_calculator \<Rightarrow> ('e, loaded list) res" where
  "load_accounts ld txs results fc = res_map (\<lambda>(tx, r). load_transaction ld fc tx r) (zip txs results)"

definition accounts_load_slow :: "db_env \<Rightarrow> accounts_db \<Rightarrow> ancestors \<Rightarrow> pubkey \<Rightarrow> (account \<times> fork) option" where
  "accounts_load_slow E db anc k =
     Option.bind (db_load E db anc k) (\<lambda>(a, f). if difs a \<noteq> 0 then Some (a, f) else None)"

section \<open>Storing\<close>

definition store_slow ::
  "db_env \<Rightarrow> fork \<Rightarrow> pubkey \<Rightarrow> account \<Rightarrow> accounts_db \<Rightarrow> ('e, accounts_db) res option" where
  "store_slow E f k a db = db_store E f [(k, a)] db"

text \<open>The accounts that a batch stores: those of the transactions that were loaded and executed.\<close>

definition accounts_to_store ::
  "transaction list \<Rightarrow> unit tx_result list \<Rightarrow> loaded list \<Rightarrow> (pubkey \<times> account) list" where
  "accounts_to_store txs executed lds =
     concat (map (\<lambda>(tx, r, l). case (r, l) of
                    (Inr _, Inr (as, _)) \<Rightarrow> zip (account_keys (tx_message tx)) as
                  | _ \<Rightarrow> [])
              (zip txs (zip executed lds)))"

definition store_accounts ::
  "db_env \<Rightarrow> fork \<Rightarrow> transaction list \<Rightarrow> unit tx_result list \<Rightarrow> loaded list \<Rightarrow> accounts_db \<Rightarrow>
     ('e, accounts_db) res option" where
  "store_accounts E f txs executed lds db = db_store E f (accounts_to_store txs executed lds) db"

section \<open>Scans of a fork\<close>

text \<open>The key of the sort: the key of the account, then the negated version (as \<open>i64\<close>).\<close>

definition version_rank :: "pubkey \<times> u64 \<times> 'a \<Rightarrow> pubkey \<times> int" where
  "version_rank s = (fst s, sint (- fst (snd s)))"

text \<open>\<open>dedup_by_key\<close> keeps the first of a run of equal keys.\<close>

fun dedup_by_key :: "('a \<Rightarrow> 'k) \<Rightarrow> 'a list \<Rightarrow> 'a list" where
  "dedup_by_key f [] = []"
| "dedup_by_key f [x] = [x]"
| "dedup_by_key f (x # y # zs) = (if f x = f y then dedup_by_key f (x # zs) else x # dedup_by_key f (y # zs))"

definition newest_versions :: "(pubkey \<times> u64 \<times> 'a) list \<Rightarrow> (pubkey \<times> u64 \<times> 'a) list" where
  "newest_versions vs = dedup_by_key fst (sort_key version_rank vs)"

fun all_some :: "'a option list \<Rightarrow> 'a list option" where
  "all_some [] = Some []"
| "all_some (x # xs) = Option.bind x (\<lambda>a. Option.bind (all_some xs) (\<lambda>as. Some (a # as)))"

definition load_by_program :: "db_env \<Rightarrow> accounts_db \<Rightarrow> fork \<Rightarrow> pubkey \<Rightarrow> (pubkey \<times> account) list option" where
  "load_by_program E db f program_id =
     map_option (\<lambda>stores.
       map (\<lambda>s. (fst s, snd (snd s)))
         (newest_versions (concat (map (\<lambda>records.
            map (\<lambda>r. (storage_meta.meta_pubkey (sa_meta r), write_version (sa_meta r), clone_account r))
              (filter (\<lambda>r. bal_owner (sa_balance r) = program_id) records)) stores))))
       (all_some (scan_account_storage E db f))"

text \<open>A \<open>Hasher\<close> that is fed several slices hashes their concatenation.\<close>

definition hash_account :: "(bytes \<Rightarrow> hash) \<Rightarrow> account_balance codec \<Rightarrow> stored_account \<Rightarrow> ('e, hash) res" where
  "hash_account sha c r =
     (case serialize c (sa_balance r) of Inl _ \<Rightarrow> Panic | Inr b \<Rightarrow> Ok (sha (b @ sa_data r)))"

definition hash_records ::
  "(bytes \<Rightarrow> hash) \<Rightarrow> account_balance codec \<Rightarrow> stored_account list \<Rightarrow> ('e, hash option) res" where
  "hash_records sha c records =
     res_bind (res_map (\<lambda>r. res_bind (hash_account sha c r) (\<lambda>h.
                 Ok (storage_meta.meta_pubkey (sa_meta r), write_version (sa_meta r), h))) records) (\<lambda>account_hashes.
       let hs = newest_versions account_hashes
       in Ok (if hs = [] then None else Some (sha (concat (map (\<lambda>s. hash_bytes (snd (snd s))) hs)))))"

definition accounts_hash_internal_state ::
  "db_env \<Rightarrow> (bytes \<Rightarrow> hash) \<Rightarrow> account_balance codec \<Rightarrow> accounts_db \<Rightarrow> fork \<Rightarrow> ('e, hash option) res option" where
  "accounts_hash_internal_state E sha c db f =
     map_option (\<lambda>stores. hash_records sha c (concat stores)) (all_some (scan_account_storage E db f))"

section \<open>Chains of loaders\<close>

text \<open>
  The specification of the chain from a program up to the native loader: every account in it is
  executable and is listed with its owner, the loader of the next turn.
\<close>

fun loader_chain :: "(pubkey \<Rightarrow> account option) \<Rightarrow> pubkey \<Rightarrow> (pubkey \<times> account) list \<Rightarrow> bool" where
  "loader_chain ld program_id [] \<longleftrightarrow> program_id = native_loader_id"
| "loader_chain ld program_id ((k, a) # as) \<longleftrightarrow>
     program_id \<noteq> native_loader_id \<and> ld program_id = Some a \<and> executable a \<and> owner a \<noteq> default_pubkey \<and> k = owner a \<and>
     loader_chain ld k as"

lemma executable_loop_iff:
  "executable_loop ld depth pid acc = Inr as \<longleftrightarrow>
     (\<exists>cs. as = rev cs @ acc \<and> loader_chain ld pid cs \<and> length cs \<le> 5 - depth)"
proof (induction ld depth pid acc rule: executable_loop.induct)
  case (1 ld depth pid acc)
  show ?case
  proof (cases "pid = native_loader_id \<or> depth \<ge> 5 \<or> ld pid = None")
    case True
    have "loader_chain ld pid cs \<Longrightarrow> length cs \<le> 5 - depth \<Longrightarrow> pid = native_loader_id \<and> cs = []" for cs
      using True by (cases cs) auto
    then show ?thesis using True by (subst executable_loop.simps) (auto split: option.splits)
  next
    case False
    then obtain p where p: "ld pid = Some p" "pid \<noteq> native_loader_id" "depth < 5" by auto
    show ?thesis
    proof (cases "\<not> executable p \<or> owner p = default_pubkey")
      case True
      have "\<not> loader_chain ld pid cs" for cs using True p by (cases cs) auto
      then show ?thesis using True p by (subst executable_loop.simps) auto
    next
      case exec: False
      have IH: "executable_loop ld (depth + 1) (owner p) ((owner p, p) # acc) = Inr as \<longleftrightarrow>
          (\<exists>cs. as = rev cs @ (owner p, p) # acc \<and> loader_chain ld (owner p) cs \<and> length cs \<le> 5 - (depth + 1))"
        using 1 p exec by auto
      have "executable_loop ld depth pid acc = executable_loop ld (depth + 1) (owner p) ((owner p, p) # acc)"
        using p exec by (subst executable_loop.simps) simp
      also have "\<dots> = Inr as \<longleftrightarrow> (\<exists>cs. as = rev cs @ acc \<and> loader_chain ld pid cs \<and> length cs \<le> 5 - depth)"
        unfolding IH
      proof (intro iffI; elim exE conjE)
        fix cs assume "as = rev cs @ (owner p, p) # acc" "loader_chain ld (owner p) cs" "length cs \<le> 5 - (depth + 1)"
        then show "\<exists>cs. as = rev cs @ acc \<and> loader_chain ld pid cs \<and> length cs \<le> 5 - depth"
          using p exec by (intro exI [of _ "(owner p, p) # cs"]) auto
      next
        fix cs assume cs: "as = rev cs @ acc" "loader_chain ld pid cs" "length cs \<le> 5 - depth"
        then obtain c where "cs = (owner p, p) # c" using p by (cases cs) auto
        then show "\<exists>cs. as = rev cs @ (owner p, p) # acc \<and> loader_chain ld (owner p) cs \<and> length cs \<le> 5 - (depth + 1)"
          using cs p by (intro exI [of _ c]) auto
      qed
      finally show ?thesis .
    qed
  qed
qed

text \<open>
  What \<open>load_executable_accounts\<close> accepts. It returns exactly the chains of at most five executable
  accounts that lead from the program to the native loader, loader first; it always returns, also
  when programs own each other in a cycle.
\<close>

theorem load_executable_accounts_spec:
  "load_executable_accounts ld program_id = Inr as \<longleftrightarrow> loader_chain ld program_id (rev as) \<and> length as \<le> 5"
proof -
  have "load_executable_accounts ld program_id = Inr as \<longleftrightarrow>
      (\<exists>cs. as = rev cs \<and> loader_chain ld program_id cs \<and> length cs \<le> 5)"
    by (simp add: load_executable_accounts_def executable_loop_iff)
  also have "\<dots> \<longleftrightarrow> loader_chain ld program_id (rev as) \<and> length as \<le> 5"
    by (metis length_rev rev_rev_ident)
  finally show ?thesis .
qed

section \<open>The newest version of every account\<close>

lemma dedup_by_key_set: "set (dedup_by_key f xs) \<subseteq> set xs" "f ` set (dedup_by_key f xs) = f ` set xs"
  by (induction f xs rule: dedup_by_key.induct) auto

lemma dedup_by_key_sorted:
  assumes "sorted (map f xs)"
  shows "sorted_wrt (<) (map f (dedup_by_key f xs))"
  using assms
proof (induction f xs rule: dedup_by_key.induct)
  case (3 f x y zs)
  show ?case
  proof (cases "f x = f y")
    case False
    then have "f x < f y" "\<forall>z \<in> set zs. f y \<le> f z" using 3(3) by auto
    then have "\<forall>z \<in> set (dedup_by_key f (y # zs)). f x < f z"
      using dedup_by_key_set(1) [of f "y # zs"] by fastforce
    then show ?thesis using 3(2) [OF False] 3(3) False by simp
  qed (use 3 in auto)
qed auto

text \<open>The element kept is the first of its run.\<close>

lemma dedup_by_key_first:
  assumes "sorted (map f xs)" "s \<in> set (dedup_by_key f xs)"
  shows "\<exists>ys zs. xs = ys @ s # zs \<and> f s \<notin> f ` set ys"
  using assms
proof (induction f xs rule: dedup_by_key.induct)
  case (2 f x)
  then show ?case by (intro exI [of _ "[]"]) simp
next
  case (3 f x y zs)
  show ?case
  proof (cases "f x = f y")
    case True
    then obtain ys ws where ys: "x # zs = ys @ s # ws" "f s \<notin> f ` set ys" using 3 by auto
    show ?thesis
    proof (cases ys)
      case Nil
      then show ?thesis using ys by (intro exI [of _ "[]"] exI [of _ "y # zs"]) simp
    next
      case (Cons a ys')
      then show ?thesis using ys True by (intro exI [of _ "x # y # ys'"] exI [of _ ws]) auto
    qed
  next
    case False
    show ?thesis
    proof (cases "s = x")
      case True
      then show ?thesis by (intro exI [of _ "[]"] exI [of _ "y # zs"]) simp
    next
      case s: False
      then have "s \<in> set (dedup_by_key f (y # zs))" using 3(4) False by simp
      then obtain ys ws where ys: "y # zs = ys @ s # ws" "f s \<notin> f ` set ys" using 3(2) [OF False] 3(3) by auto
      have "s \<in> set (y # zs)" by (simp add: ys(1))
      then have "f s \<noteq> f x" using 3(3) False by auto
      then show ?thesis using ys by (intro exI [of _ "x # ys"] exI [of _ ws]) auto
    qed
  qed
qed simp

lemma version_rank_neg:
  assumes "v < 2 ^ 63"
  shows "sint (- v :: u64) = - uint v"
proof -
  have v: "0 \<le> uint v" "uint v < 2 ^ 63" using assms by (simp_all add: word_less_def)
  then have "- (2 ^ 63) \<le> uint v" "- (2 ^ 63) \<le> - uint v" "- uint v < 2 ^ 63" by linarith+
  note self = signed_take_bit_int_eq_self [OF this(1) v(2)] signed_take_bit_int_eq_self [OF this(2,3)]
  have "sint v = uint v" using self(1) by (simp add: sint_uint)
  then show ?thesis using self(2) by (simp add: sint_word_minus)
qed

lemma newest_versions_spec:
  assumes "\<forall>s \<in> set vs. fst (snd s) < 2 ^ 63"
  shows "sorted_wrt (<) (map fst (newest_versions vs))" "fst ` set (newest_versions vs) = fst ` set vs"
    "set (newest_versions vs) \<subseteq> set vs"
    "\<forall>s \<in> set (newest_versions vs). \<forall>t \<in> set vs. fst t = fst s \<longrightarrow> fst (snd t) \<le> fst (snd s)"
proof -
  let ?xs = "sort_key version_rank vs"
  have g: "sorted (map version_rank ?xs)" by simp
  have f: "sorted (map fst ?xs)"
    using sorted_map [of version_rank ?xs] g
    by (auto simp: sorted_wrt_map version_rank_def less_eq_prod_def elim!: sorted_wrt_mono_rel [rotated])
  show "sorted_wrt (<) (map fst (newest_versions vs))" unfolding newest_versions_def by (rule dedup_by_key_sorted [OF f])
  show "fst ` set (newest_versions vs) = fst ` set vs" "set (newest_versions vs) \<subseteq> set vs"
    using dedup_by_key_set [of fst ?xs] by (simp_all add: newest_versions_def)
  show "\<forall>s \<in> set (newest_versions vs). \<forall>t \<in> set vs. fst t = fst s \<longrightarrow> fst (snd t) \<le> fst (snd s)"
  proof (intro ballI impI)
    fix s t assume s: "s \<in> set (newest_versions vs)" and t: "t \<in> set vs" "fst t = fst s"
    from s obtain ys zs where ys: "?xs = ys @ s # zs" "fst s \<notin> fst ` set ys"
      using dedup_by_key_first [OF f] unfolding newest_versions_def by blast
    have "t \<in> set ?xs" using t(1) by simp
    moreover have "s \<in> set ?xs" unfolding ys(1) by simp
    ultimately have m: "t \<in> set (ys @ s # zs)" "s \<in> set vs" unfolding ys(1) [symmetric] by simp_all
    have "t \<in> set (s # zs)" using m(1) t(2) ys(2) by (auto intro: rev_image_eqI)
    then have "version_rank s \<le> version_rank t" using g unfolding ys(1) by (auto simp: sorted_append)
    then have "sint (- fst (snd s)) \<le> sint (- fst (snd t))" using t(2) by (auto simp: version_rank_def less_eq_prod_def)
    moreover have "fst (snd s) < 2 ^ 63" "fst (snd t) < 2 ^ 63" using assms m t by auto
    ultimately show "fst (snd t) \<le> fst (snd s)" by (simp add: version_rank_neg word_le_def)
  qed
qed

abbreviation record_key :: "stored_account \<Rightarrow> pubkey" where
  "record_key r \<equiv> storage_meta.meta_pubkey (sa_meta r)"

abbreviation record_version :: "stored_account \<Rightarrow> u64" where
  "record_version r \<equiv> write_version (sa_meta r)"

lemma all_some_total: "\<forall>x \<in> set xs. x \<noteq> None \<Longrightarrow> \<exists>ys. all_some xs = Some ys"
  by (induction xs) auto

lemma scan_total: "layout_ok (env_layout E) \<Longrightarrow> \<exists>stores. all_some (scan_account_storage E db f) = Some stores"
  by (rule all_some_total) (auto simp: scan_account_storage_def dest: av_accounts_total)

text \<open>
  The accounts of a program. The scan of a fork by program always returns; the result has one
  account per key, in the order of the keys, for exactly the keys that the program owns in some
  record of the fork, and the account is the newest of those records. (Versions are below \<open>2 ^ 63\<close>; a
  newer record of the key under another owner does not count.)
\<close>

theorem load_by_program_newest:
  assumes "layout_ok (env_layout E)"
  shows "\<exists>stores accounts. all_some (scan_account_storage E db f) = Some stores \<and>
    load_by_program E db f program_id = Some accounts \<and>
    ((\<forall>r \<in> set (concat stores). record_version r < 2 ^ 63) \<longrightarrow>
       sorted_wrt (<) (map fst accounts) \<and>
       fst ` set accounts = record_key ` {r \<in> set (concat stores). bal_owner (sa_balance r) = program_id} \<and>
       (\<forall>(k, a) \<in> set accounts. \<exists>r \<in> set (concat stores).
          bal_owner (sa_balance r) = program_id \<and> record_key r = k \<and> clone_account r = a \<and>
          (\<forall>r' \<in> set (concat stores). bal_owner (sa_balance r') = program_id \<and> record_key r' = k \<longrightarrow>
             record_version r' \<le> record_version r)))"
proof -
  from scan_total [OF assms] obtain stores where st: "all_some (scan_account_storage E db f) = Some stores" by blast
  define vs where "vs = concat (map (\<lambda>records. map (\<lambda>r. (record_key r, record_version r, clone_account r))
      (filter (\<lambda>r. bal_owner (sa_balance r) = program_id) records)) stores)"
  have vs: "set vs = (\<lambda>r. (record_key r, record_version r, clone_account r)) `
      {r \<in> set (concat stores). bal_owner (sa_balance r) = program_id}" by (auto simp: vs_def)
  have res: "load_by_program E db f program_id = Some (map (\<lambda>s. (fst s, snd (snd s))) (newest_versions vs))"
    by (simp add: load_by_program_def st vs_def)
  have "sorted_wrt (<) (map fst (map (\<lambda>s. (fst s, snd (snd s))) (newest_versions vs))) \<and>
       fst ` set (map (\<lambda>s. (fst s, snd (snd s))) (newest_versions vs)) =
         record_key ` {r \<in> set (concat stores). bal_owner (sa_balance r) = program_id} \<and>
       (\<forall>(k, a) \<in> set (map (\<lambda>s. (fst s, snd (snd s))) (newest_versions vs)). \<exists>r \<in> set (concat stores).
          bal_owner (sa_balance r) = program_id \<and> record_key r = k \<and> clone_account r = a \<and>
          (\<forall>r' \<in> set (concat stores). bal_owner (sa_balance r') = program_id \<and> record_key r' = k \<longrightarrow>
             record_version r' \<le> record_version r))"
    if "\<forall>r \<in> set (concat stores). record_version r < 2 ^ 63"
  proof -
    have "\<forall>s \<in> set vs. fst (snd s) < 2 ^ 63" using that vs by auto
    note spec = newest_versions_spec [OF this]
    have "\<exists>r \<in> set (concat stores). bal_owner (sa_balance r) = program_id \<and> record_key r = fst s \<and> clone_account r = snd (snd s) \<and>
        (\<forall>r' \<in> set (concat stores). bal_owner (sa_balance r') = program_id \<and> record_key r' = fst s \<longrightarrow> record_version r' \<le> record_version r)"
      if s: "s \<in> set (newest_versions vs)" for s
    proof -
      from s spec(3) vs obtain r where r: "r \<in> set (concat stores)" "bal_owner (sa_balance r) = program_id"
        "s = (record_key r, record_version r, clone_account r)" by blast
      then show ?thesis using spec(4) s unfolding vs by (intro bexI [of _ r]) fastforce+
    qed
    then show ?thesis using spec(1,2) vs by (auto simp: comp_def image_image)
  qed
  with st res show ?thesis by blast
qed

section \<open>The hash of the state\<close>

lemma newest_versions_perm:
  assumes "mset vs = mset ws" "inj_on version_rank (set vs)"
  shows "newest_versions vs = newest_versions ws"
proof -
  have "sort_key version_rank vs = sort_key version_rank ws"
    by (rule sort_key_inj_key_eq) (use assms in auto)
  then show ?thesis by (simp add: newest_versions_def)
qed

lemma res_map_perm:
  assumes "mset xs = mset ys" "\<forall>x \<in> set xs. \<forall>e. f x \<noteq> Err e"
  shows "(\<exists>g. res_map f xs = Ok (map g xs) \<and> res_map f ys = Ok (map g ys)) \<or> (res_map f xs = Panic \<and> res_map f ys = Panic)"
proof (cases "\<exists>x \<in> set xs. f x = Panic")
  case True
  have "res_map f zs = Panic" if "x \<in> set zs" "f x = Panic" "\<forall>z \<in> set zs. \<forall>e. f z \<noteq> Err e" for zs and x
    using that
  proof (induction zs)
    case (Cons z zs)
    then show ?case by (cases "f z") auto
  qed simp
  then show ?thesis using True assms(2) mset_eq_setD [OF assms(1)] by metis
next
  case False
  then have "\<forall>x \<in> set xs. \<exists>y. f x = Ok y" using assms(2) by (metis res.exhaust)
  then obtain g where "\<forall>x \<in> set xs. f x = Ok (g x)" by metis
  then have "res_map f xs = Ok (map g xs)" "res_map f ys = Ok (map g ys)"
    using mset_eq_setD [OF assms(1)] by (auto intro!: res_map_Ok_map)
  then show ?thesis by blast
qed

lemma sint_uminus_eq: "sint (- v) = sint (- w :: u64) \<longleftrightarrow> v = w"
  using word_eq_iff_signed [where 'a = int, of "- v" "- w"] by simp

lemma hash_records_perm:
  assumes "mset rs = mset rs'" "inj_on (\<lambda>r. (record_key r, record_version r)) (set rs)"
  shows "hash_records sha c rs = (hash_records sha c rs' :: ('e, hash option) res)"
proof -
  let ?f = "\<lambda>r. res_bind (hash_account sha c r :: ('e, hash) res) (\<lambda>h. Ok (record_key r, record_version r, h))"
  have "\<forall>r \<in> set rs. \<forall>e. ?f r \<noteq> Err e" by (auto simp: hash_account_def res_bind_Err_iff split: sum.splits)
  from res_map_perm [OF assms(1) this] show ?thesis
  proof
    assume "\<exists>g. res_map ?f rs = Ok (map g rs) \<and> res_map ?f rs' = Ok (map g rs')"
    then obtain g where g: "res_map ?f rs = Ok (map g rs)" "res_map ?f rs' = Ok (map g rs')" by blast
    have "\<forall>r \<in> set rs. fst (g r) = record_key r \<and> fst (snd (g r)) = record_version r"
      using g(1) by (auto simp: res_map_Ok_iff list_all2_conv_all_nth in_set_conv_nth) (metis fst_conv snd_conv)+
    then have "inj_on version_rank (set (map g rs))"
      using assms(2) by (auto simp: inj_on_def version_rank_def sint_uminus_eq)
    then have "newest_versions (map g rs) = newest_versions (map g rs')"
      by (intro newest_versions_perm) (use assms(1) in auto)
    then show ?thesis by (simp add: hash_records_def g)
  qed (simp add: hash_records_def)
qed

lemma all_some_map: "(\<And>x. x \<in> set xs \<Longrightarrow> f x = Some (g x)) \<Longrightarrow> all_some (map f xs) = Some (map g xs)"
  by (induction xs) auto

text \<open>
  C33: the hash of the state does not depend on the iteration order of the stores. Two databases whose
  stores are the same up to the order of the hash map have the same hash for every fork, whatever
  SHA-256 and the serialisation are, because the versions of the records of a key are all different.
\<close>

theorem state_hash_order_independent:
  assumes "layout_ok (env_layout E)" "mset (db_storage db') = mset (db_storage db)"
    "all_some (scan_account_storage E db f) = Some stores"
    "inj_on (\<lambda>r. (record_key r, record_version r)) (set (concat stores))"
  shows "accounts_hash_internal_state E sha c db' f = (accounts_hash_internal_state E sha c db f :: (unit, hash option) res option)"
proof -
  define g where "g p = the (av_accounts (env_layout E) (se_accounts (snd p)) 0)" for p :: "nat \<times> storage_entry"
  have g: "av_accounts (env_layout E) (se_accounts (snd p)) 0 = Some (g p)" for p :: "nat \<times> storage_entry"
    using av_accounts_total [OF assms(1)] by (metis g_def option.sel)
  let ?st = "\<lambda>db. filter (\<lambda>p. se_fork (snd p) = f) (db_storage db)"
  have scan: "all_some (scan_account_storage E d f) = Some (map g (?st d))" for d
    unfolding scan_account_storage_def by (rule all_some_map) (rule g)
  have "mset (concat (map g (?st d))) = sum_mset (image_mset (\<lambda>p. mset (g p)) (filter_mset (\<lambda>p. se_fork (snd p) = f) (mset (db_storage d))))" for d
    by (simp add: mset_concat sum_mset_sum_list [symmetric] comp_def flip: mset_filter mset_map)
  from this [of db] this [of db'] have "mset (concat (map g (?st db))) = mset (concat (map g (?st db')))"
    by (simp only: assms(2))
  moreover have "inj_on (\<lambda>r. (record_key r, record_version r)) (set (concat (map g (?st db))))"
    using assms(3,4) scan [of db] by simp
  ultimately have "hash_records sha c (concat (map g (?st db))) = (hash_records sha c (concat (map g (?st db'))) :: (unit, hash option) res)"
    by (rule hash_records_perm)
  then show ?thesis by (simp add: accounts_hash_internal_state_def scan)
qed

text \<open>Two stores of one fork, each with one record; the second is the newer version of the first's key.\<close>

definition demo_version :: "nat \<Rightarrow> storage_meta \<times> account" where
  "demo_version n =
     (\<lparr>write_version = of_nat n, meta_pubkey = default_pubkey, data_len = 1\<rparr>, account_new (of_nat n) 0 1 default_pubkey)"

definition demo_store :: "nat \<Rightarrow> storage_entry" where
  "demo_store n =
     \<lparr>se_id = n, se_fork = 1, se_accounts = snd (append_accounts packed_layout demo_vec [demo_version n]),
      se_count = 1, se_status = StorageAvailable\<rparr>"

definition demo_stores_db :: "nat list \<Rightarrow> accounts_db" where
  "demo_stores_db ns = (accounts_db_new_with_file_size 256)\<lparr>db_storage := map (\<lambda>n. (n, demo_store n)) ns\<rparr>"

lemma demo_store_scan:
  "av_accounts packed_layout (se_accounts (demo_store n)) 0 = Some [stored (fst (demo_version n)) (snd (demo_version n))]"
proof -
  have ok: "av_ok demo_vec" "av_chain packed_layout demo_vec 0 []" by (simp_all add: av_ok_def demo_vec_def)
  have e: "\<And>ma. ma \<in> set [demo_version n] \<Longrightarrow> entry_ok ma"
    by (auto simp: demo_version_def entry_ok_def valid_key_def account_new_def default_pubkey_def)
  have "fst (append_accounts packed_layout demo_vec [demo_version n]) = [0]"
    by (simp add: demo_version_def demo_vec_def append_ptrs_locked_alt append_end_def
        account_ptrs_def packed_layout_def align_up_def account_new_def default_pubkey_def case_prod_beta)
  then obtain v where v: "append_accounts packed_layout demo_vec [demo_version n] = ([0], v)" by (metis prod.collapse)
  from append_accounts_spec [OF packed_layout_ok ok(1) e ok(2) v]
  have "av_ok v" "av_chain packed_layout v 0 [stored (fst (demo_version n)) (snd (demo_version n))]" by simp_all
  from av_chain_accounts [OF this(1) packed_layout_ok this(2)] show ?thesis by (simp add: demo_store_def v del: append_accounts.simps)
qed

lemma demo_stores_scan:
  "all_some (scan_account_storage demo_db_env (demo_stores_db ns) 1) =
     Some (map (\<lambda>n. [stored (fst (demo_version n)) (snd (demo_version n))]) ns)"
proof -
  have "filter (\<lambda>p. se_fork (snd p) = 1) (map (\<lambda>n. (n, demo_store n)) ns) = map (\<lambda>n. (n, demo_store n)) ns"
    by (rule filter_True) (auto simp: demo_store_def)
  then show ?thesis
    by (simp add: scan_account_storage_def demo_stores_db_def demo_db_env_def comp_def demo_store_scan all_some_map)
qed

theorem load_by_program_newest_witness:
  "load_by_program demo_db_env (demo_stores_db [2, 1]) 1 default_pubkey = Some [(default_pubkey, account_new 2 0 1 default_pubkey)]"
proof -
  let ?rs = "[stored (fst (demo_version 2)) (snd (demo_version 2)), stored (fst (demo_version 1)) (snd (demo_version 1))]"
  have "layout_ok (env_layout demo_db_env)" by (simp add: demo_db_env_def packed_layout_ok)
  from load_by_program_newest [OF this, of "demo_stores_db [2, 1]" 1 default_pubkey] obtain accounts where
    a: "load_by_program demo_db_env (demo_stores_db [2, 1]) 1 default_pubkey = Some accounts"
    and spec: "(\<forall>r \<in> set ?rs. record_version r < 2 ^ 63) \<longrightarrow>
       sorted_wrt (<) (map fst accounts) \<and>
       fst ` set accounts = record_key ` {r \<in> set ?rs. bal_owner (sa_balance r) = default_pubkey} \<and>
       (\<forall>(k, a) \<in> set accounts. \<exists>r \<in> set ?rs. bal_owner (sa_balance r) = default_pubkey \<and> record_key r = k \<and> clone_account r = a \<and>
          (\<forall>r' \<in> set ?rs. bal_owner (sa_balance r') = default_pubkey \<and> record_key r' = k \<longrightarrow> record_version r' \<le> record_version r))"
    by (auto simp: demo_stores_scan)
  have rs: "\<forall>r \<in> set ?rs. record_version r < 2 ^ 63 \<and> bal_owner (sa_balance r) = default_pubkey \<and> record_key r = default_pubkey"
    by (simp add: demo_version_def stored_def account_new_def)
  then have "\<forall>r \<in> set ?rs. record_version r < 2 ^ 63" by blast
  note spec = spec [THEN mp, OF this]
  have "{r \<in> set ?rs. bal_owner (sa_balance r) = default_pubkey} = set ?rs" using rs by blast
  moreover have "record_key ` set ?rs = {default_pubkey}" by (simp add: demo_version_def stored_def)
  ultimately have "record_key ` {r \<in> set ?rs. bal_owner (sa_balance r) = default_pubkey} = {default_pubkey}" by simp
  with spec [THEN conjunct2, THEN conjunct1] have "fst ` set accounts = {default_pubkey}" by (rule trans)
  note keys = spec [THEN conjunct1] this and newest = spec [THEN conjunct2, THEN conjunct2]
  have "a = account_new 2 0 1 default_pubkey" if ka: "(k, a) \<in> set accounts" for k a
  proof -
    have k: "k = default_pubkey" using keys(2) ka by force
    from bspec [OF newest ka] obtain r where r: "r \<in> set ?rs" "clone_account r = a"
      "\<forall>r' \<in> set ?rs. bal_owner (sa_balance r') = default_pubkey \<and> record_key r' = k \<longrightarrow> record_version r' \<le> record_version r"
      unfolding prod.case by (elim bexE conjE)
    then have "record_version (hd ?rs) \<le> record_version r" using rs k by simp
    then have "r \<noteq> ?rs ! 1" by (auto simp: demo_version_def stored_def word_le_nat_alt)
    then have "r = hd ?rs" using r(1) by auto
    then show ?thesis using r(2) by (simp add: demo_version_def stored_def clone_account_def account_new_def)
  qed
  with keys have "sorted_wrt (<) (map fst accounts)" "fst ` set accounts = {default_pubkey}"
    "\<forall>ka \<in> set accounts. snd ka = account_new 2 0 1 default_pubkey" by auto
  then have "accounts = [(default_pubkey, account_new 2 0 1 default_pubkey)]"
    by (cases accounts rule: remdups_adj.cases) auto
  then show ?thesis using a by simp
qed

text \<open>A codec that writes every balance, as one byte with its difs.\<close>

definition demo_balance_codec :: "account_balance codec" where
  "demo_balance_codec =
     \<lparr>serialize = (\<lambda>x. Inr [ucast (bal_difs x)]), serialize_into = (\<lambda>x b. Inr (ucast (bal_difs x) # tl b)),
      deserialize = (\<lambda>b. None), serialized_size = (\<lambda>_. Inr 1)\<rparr>"

lemma demo_hash: "accounts_hash_internal_state demo_db_env Hash demo_balance_codec (demo_stores_db [1, 2]) 1 =
  (Some (Ok (Some (Hash [2, 0]))) :: (unit, hash option) res option)"
  by (simp add: accounts_hash_internal_state_def demo_stores_scan hash_records_def hash_account_def demo_balance_codec_def demo_version_def
      stored_def account_new_def newest_versions_def version_rank_def)

theorem state_hash_order_independent_witness:
  "accounts_hash_internal_state demo_db_env Hash demo_balance_codec (demo_stores_db [2, 1]) 1 =
     (Some (Ok (Some (Hash [2, 0]))) :: (unit, hash option) res option)"
proof -
  have "accounts_hash_internal_state demo_db_env Hash demo_balance_codec (demo_stores_db [2, 1]) 1 =
      (accounts_hash_internal_state demo_db_env Hash demo_balance_codec (demo_stores_db [1, 2]) 1 :: (unit, hash option) res option)"
    by (rule state_hash_order_independent [OF _ _ demo_stores_scan])
      (auto simp: demo_db_env_def packed_layout_ok demo_stores_db_def demo_version_def stored_def inj_on_def)
  then show ?thesis unfolding demo_hash .
qed

end
