(* ===== verification/Status_Cache.thy ===== *)
theory Status_Cache
  imports Accounts_Index
begin

text \<open>
  The cache of transaction signatures, \<^verbatim>\<open>src/runtime/src/status_cache.rs\<close>: per block hash, a map from a
  20-byte slice of the signature (at an offset drawn when the block hash is first seen) to the
  forks that hold the transaction. The random draw of the offset is an argument. The map of block
  hashes and the set of roots are iterated and are lists without repetition.
\<close>

section \<open>The cache\<close>

definition MAX_CACHE_ENTRIES :: nat where
  "MAX_CACHE_ENTRIES = 120"

definition CACHED_SIGNATURE_SIZE :: nat where
  "CACHED_SIGNATURE_SIZE = 20"

type_synonym 't fork_status = "(fork \<times> 't) list"
type_synonym 't signature_map = "bytes \<rightharpoonup> 't fork_status"

record 't status_cache =
  sc_cache :: "(hash \<times> (fork \<times> nat \<times> 't signature_map)) list"
  sc_roots :: "fork list"

definition status_cache_default :: "'t status_cache" where
  "status_cache_default = \<lparr>sc_cache = [], sc_roots = []\<rparr>"

definition sig_slice :: "signature \<Rightarrow> nat \<Rightarrow> ('e, bytes) res" where
  "sig_slice sig i =
     (if i + CACHED_SIGNATURE_SIZE \<le> length (signature_bytes sig)
      then Ok (take CACHED_SIGNATURE_SIZE (drop i (signature_bytes sig))) else Panic)"

definition get_signature_status ::
  "'t status_cache \<Rightarrow> signature \<Rightarrow> hash \<Rightarrow> ancestors \<Rightarrow> ('e, (fork \<times> 't) option) res" where
  "get_signature_status c sig bh anc =
     (case map_of (sc_cache c) bh of
        None \<Rightarrow> Ok None
      | Some (_, i, sigmap) \<Rightarrow>
          res_bind (sig_slice sig i) (\<lambda>s.
            case sigmap s of
              None \<Rightarrow> Ok None
            | Some stored_forks \<Rightarrow>
                Ok (nth_opt (filter (\<lambda>p. anc (fst p) \<noteq> None \<or> fst p \<in> set (sc_roots c)) stored_forks) 0)))"

fun status_slow_loop ::
  "'t status_cache \<Rightarrow> signature \<Rightarrow> ancestors \<Rightarrow> nat \<Rightarrow> hash list \<Rightarrow> ('e, (nat \<times> 't) option) res" where
  "status_slow_loop c sig anc n [] = Ok None"
| "status_slow_loop c sig anc n (bh # bhs) =
     res_bind (get_signature_status c sig bh anc) (\<lambda>r.
       case r of
         Some (f, t) \<Rightarrow> Ok (Some (case anc f of Some d \<Rightarrow> (d, t) | None \<Rightarrow> (n, t)))
       | None \<Rightarrow> status_slow_loop c sig anc n bhs)"

text \<open>The number of ancestors, \<open>ancestors.len()\<close>, is an argument.\<close>

definition get_signature_status_slow ::
  "'t status_cache \<Rightarrow> signature \<Rightarrow> ancestors \<Rightarrow> nat \<Rightarrow> ('e, (nat \<times> 't) option) res" where
  "get_signature_status_slow c sig anc n = status_slow_loop c sig anc n (map fst (sc_cache c))"

definition sc_add_root :: "fork \<Rightarrow> 't status_cache \<Rightarrow> 't status_cache" where
  "sc_add_root f c =
     (let rs = List.insert f (sc_roots c)
      in if length rs > MAX_CACHE_ENTRIES
         then let m = fold min (tl rs) (hd rs)
              in c\<lparr>sc_roots := filter (\<lambda>r. r \<noteq> m) rs, sc_cache := filter (\<lambda>p. fst (snd p) > m) (sc_cache c)\<rparr>
         else c\<lparr>sc_roots := rs\<rparr>)"

definition sc_insert ::
  "nat \<Rightarrow> hash \<Rightarrow> signature \<Rightarrow> fork \<Rightarrow> 't \<Rightarrow> 't status_cache \<Rightarrow> ('e, 't status_cache) res" where
  "sc_insert rnd bh sig f t c =
     (let (g, i, sigmap) = (case map_of (sc_cache c) bh of None \<Rightarrow> (f, rnd, Map.empty) | Some e \<Rightarrow> e);
          g = max f g
      in res_bind (sig_slice sig i) (\<lambda>s.
           let forks = (case sigmap s of None \<Rightarrow> [] | Some l \<Rightarrow> l)
           in Ok (c\<lparr>sc_cache := AList.update bh (g, i, sigmap(s \<mapsto> forks @ [(f, t)])) (sc_cache c)\<rparr>)))"

definition clear_signatures :: "'t status_cache \<Rightarrow> 't status_cache" where
  "clear_signatures c = c\<lparr>sc_cache := map (\<lambda>p. (fst p, fst (snd p), fst (snd (snd p)), Map.empty)) (sc_cache c)\<rparr>"

section \<open>No replay\<close>

datatype 't sc_op = ScInsert nat hash signature fork 't | ScAddRoot fork

fun sc_apply :: "'t sc_op \<Rightarrow> 't status_cache \<Rightarrow> ('e, 't status_cache) res" where
  "sc_apply (ScInsert rnd bh sig f t) c = sc_insert rnd bh sig f t c"
| "sc_apply (ScAddRoot f) c = Ok (sc_add_root f c)"

fun sc_run :: "'t sc_op list \<Rightarrow> 't status_cache \<Rightarrow> ('e, 't status_cache) res" where
  "sc_run [] c = Ok c"
| "sc_run (op # ops) c = res_bind (sc_apply op c) (sc_run ops)"

text \<open>Signatures have 64 bytes and offsets are drawn below 12, the size of a hash less the slice.\<close>

fun sc_op_ok :: "'t sc_op \<Rightarrow> bool" where
  "sc_op_ok (ScInsert rnd bh sig f t) \<longleftrightarrow> rnd < 32 - CACHED_SIGNATURE_SIZE \<and> length (signature_bytes sig) = 64"
| "sc_op_ok (ScAddRoot f) \<longleftrightarrow> True"

text \<open>No root added along the way pushes out a root as recent as fork \<open>f\<close>.\<close>

fun sc_keeps :: "fork \<Rightarrow> 't sc_op list \<Rightarrow> fork list \<Rightarrow> bool" where
  "sc_keeps f [] rs \<longleftrightarrow> True"
| "sc_keeps f (ScInsert rnd bh sig g t # ops) rs \<longleftrightarrow> sc_keeps f ops rs"
| "sc_keeps f (ScAddRoot r # ops) rs \<longleftrightarrow>
     (let rs = List.insert r rs; m = fold min (tl rs) (hd rs)
      in if length rs > MAX_CACHE_ENTRIES then m < f \<and> sc_keeps f ops (filter (\<lambda>x. x \<noteq> m) rs) else sc_keeps f ops rs)"

definition sc_ok :: "'t status_cache \<Rightarrow> bool" where
  "sc_ok c \<longleftrightarrow> distinct (map fst (sc_cache c)) \<and>
     (\<forall>bh g i sm. map_of (sc_cache c) bh = Some (g, i, sm) \<longrightarrow> i < 32 - CACHED_SIGNATURE_SIZE)"

definition sc_holds :: "'t status_cache \<Rightarrow> hash \<Rightarrow> signature \<Rightarrow> fork \<Rightarrow> bool" where
  "sc_holds c bh sig f \<longleftrightarrow>
     (\<exists>g i sm l. map_of (sc_cache c) bh = Some (g, i, sm) \<and> f \<le> g \<and>
        sm (take CACHED_SIGNATURE_SIZE (drop i (signature_bytes sig))) = Some l \<and> f \<in> fst ` set l)"

lemma sig_slice_ok:
  assumes "i < 32 - CACHED_SIGNATURE_SIZE" "length (signature_bytes sig) = 64"
  shows "sig_slice sig i = Ok (take CACHED_SIGNATURE_SIZE (drop i (signature_bytes sig)))"
  using assms by (simp add: sig_slice_def CACHED_SIGNATURE_SIZE_def)

lemma sc_insert_spec:
  assumes "sc_ok c" "rnd < 32 - CACHED_SIGNATURE_SIZE" "length (signature_bytes sig) = 64"
  shows "\<exists>c'. (sc_insert rnd bh sig f t c :: ('x, 't status_cache) res) = Ok c' \<and> sc_ok c' \<and> sc_roots c' = sc_roots c \<and>
    sc_holds c' bh sig f \<and> (\<forall>bh' sig' f'. sc_holds c bh' sig' f' \<longrightarrow> sc_holds c' bh' sig' f')"
proof -
  obtain g i sm where e: "(case map_of (sc_cache c) bh of None \<Rightarrow> (f, rnd, Map.empty) | Some e \<Rightarrow> e) = (g, i, sm)"
    by (cases "case map_of (sc_cache c) bh of None \<Rightarrow> (f, rnd, Map.empty) | Some e \<Rightarrow> e") auto
  have i: "i < 32 - CACHED_SIGNATURE_SIZE"
    using e assms(1,2) by (auto simp: sc_ok_def split: option.splits)
  let ?s = "take CACHED_SIGNATURE_SIZE (drop i (signature_bytes sig))"
  let ?l = "(case sm ?s of None \<Rightarrow> [] | Some l \<Rightarrow> l) @ [(f, t)]"
  let ?c = "c\<lparr>sc_cache := AList.update bh (max f g, i, sm(?s \<mapsto> ?l)) (sc_cache c)\<rparr>"
  have r: "(sc_insert rnd bh sig f t c :: ('x, 't status_cache) res) = Ok ?c"
    by (simp add: sc_insert_def e sig_slice_ok [OF i assms(3)])
  have m: "map_of (sc_cache ?c) = (map_of (sc_cache c))(bh \<mapsto> (max f g, i, sm(?s \<mapsto> ?l)))"
    by (simp add: update_conv')
  have ok: "sc_ok ?c" using assms(1) i unfolding sc_ok_def m by (auto simp: distinct_update)
  have "sc_holds ?c bh sig f" unfolding sc_holds_def m by (auto split: option.splits)
  moreover have "sc_holds ?c bh' sig' f'" if h: "sc_holds c bh' sig' f'" for bh' sig' f'
  proof (cases "bh' = bh")
    case False
    then show ?thesis using h unfolding sc_holds_def m by auto
  next
    case True
    from h obtain g' i' sm' l where l: "map_of (sc_cache c) bh = Some (g', i', sm')" "f' \<le> g'"
        "sm' (take CACHED_SIGNATURE_SIZE (drop i' (signature_bytes sig'))) = Some l" "f' \<in> fst ` set l"
      unfolding sc_holds_def True by blast
    then have "g' = g" "i' = i" "sm' = sm" using e by simp_all
    then show ?thesis unfolding sc_holds_def m True
      using l by (auto intro: order_trans max.cobounded2)
  qed
  ultimately show ?thesis using r ok by auto
qed

lemma sc_add_root_spec:
  assumes "sc_ok c"
  shows "sc_ok (sc_add_root r c) \<and>
    (let rs = List.insert r (sc_roots c); m = fold min (tl rs) (hd rs)
     in if length rs > MAX_CACHE_ENTRIES
        then sc_roots (sc_add_root r c) = filter (\<lambda>x. x \<noteq> m) rs \<and>
             (\<forall>bh sig f. m < f \<longrightarrow> sc_holds c bh sig f \<longrightarrow> sc_holds (sc_add_root r c) bh sig f)
        else sc_roots (sc_add_root r c) = rs \<and> (\<forall>bh sig f. sc_holds c bh sig f \<longrightarrow> sc_holds (sc_add_root r c) bh sig f))"
proof -
  let ?rs = "List.insert r (sc_roots c)"
  let ?m = "fold min (tl ?rs) (hd ?rs)"
  have dis: "distinct (map fst (sc_cache c))" using assms by (simp add: sc_ok_def)
  show ?thesis
  proof (cases "length ?rs > MAX_CACHE_ENTRIES")
    case False
    then show ?thesis using assms by (simp add: sc_add_root_def Let_def sc_ok_def sc_holds_def)
  next
    case True
    let ?c = "sc_add_root r c"
    have c: "sc_cache ?c = filter (\<lambda>p. fst (snd p) > ?m) (sc_cache c)" "sc_roots ?c = filter (\<lambda>x. x \<noteq> ?m) ?rs"
      using True by (simp_all add: sc_add_root_def Let_def)
    have m: "map_of (sc_cache ?c) bh =
        (case map_of (sc_cache c) bh of None \<Rightarrow> None | Some e \<Rightarrow> if fst e > ?m then Some e else None)" for bh
      unfolding c by (rule map_of_filter_snd [OF dis])
    have "map_of (sc_cache c) bh = Some e" if "map_of (sc_cache ?c) bh = Some e" for bh e
      using that m [of bh] by (auto split: option.splits if_splits)
    then have "sc_ok ?c" using assms dis unfolding sc_ok_def by (simp add: c distinct_map_filter) blast
    moreover have "sc_holds ?c bh sig f" if "?m < f" "sc_holds c bh sig f" for bh sig f
    proof -
      from that(2) obtain g i sm l where h: "map_of (sc_cache c) bh = Some (g, i, sm)" "f \<le> g"
        "sm (take CACHED_SIGNATURE_SIZE (drop i (signature_bytes sig))) = Some l" "f \<in> fst ` set l"
        unfolding sc_holds_def by blast
      have "?m < g" using that(1) h(2) by (rule less_le_trans)
      then have "map_of (sc_cache ?c) bh = Some (g, i, sm)" using m [of bh] h(1) by simp
      then show ?thesis unfolding sc_holds_def using h by blast
    qed
    ultimately show ?thesis using True c(2) by (simp add: Let_def)
  qed
qed

lemma sc_run_keeps:
  assumes "sc_ok c" "\<forall>op \<in> set ops. sc_op_ok op" "sc_keeps f ops (sc_roots c)" "sc_holds c bh sig f"
  shows "\<exists>c'. (sc_run ops c :: ('x, 't status_cache) res) = Ok c' \<and> sc_ok c' \<and> sc_holds c' bh sig f"
  using assms
proof (induction ops arbitrary: c)
  case (Cons op ops)
  show ?case
  proof (cases op)
    case (ScInsert rnd bh' sig' g t)
    from sc_insert_spec [where 'x = 'x, OF Cons.prems(1), of rnd sig' bh' g t] Cons.prems(2) obtain c1 where
      c1: "(sc_insert rnd bh' sig' g t c :: ('x, 't status_cache) res) = Ok c1" "sc_ok c1" "sc_roots c1 = sc_roots c"
        "sc_holds c1 bh sig f" using Cons.prems(4) by (auto simp: ScInsert)
    then show ?thesis using Cons.IH [of c1] Cons.prems(2,3) by (simp add: ScInsert)
  next
    case (ScAddRoot r)
    let ?c = "sc_add_root r c"
    have "sc_ok ?c \<and> sc_keeps f ops (sc_roots ?c) \<and> sc_holds ?c bh sig f"
      using sc_add_root_spec [OF Cons.prems(1), of r] Cons.prems(3,4)
      by (auto simp: ScAddRoot Let_def split: if_splits)
    then show ?thesis using Cons.IH [of ?c] Cons.prems(2) by (simp add: ScAddRoot)
  qed
qed simp

lemma sc_run_ok:
  assumes "sc_ok c" "\<forall>op \<in> set ops. sc_op_ok op"
  shows "\<exists>c'. (sc_run ops c :: ('x, 't status_cache) res) = Ok c' \<and> sc_ok c'"
  using assms
proof (induction ops arbitrary: c)
  case (Cons op ops)
  show ?case
  proof (cases op)
    case (ScInsert rnd bh' sig' g t)
    from sc_insert_spec [where 'x = 'x, OF Cons.prems(1), of rnd sig' bh' g t] Cons.prems(2) obtain c1 where
      "(sc_insert rnd bh' sig' g t c :: ('x, 't status_cache) res) = Ok c1" "sc_ok c1" by (auto simp: ScInsert)
    then show ?thesis using Cons.IH [of c1] Cons.prems(2) by (simp add: ScInsert)
  next
    case (ScAddRoot r)
    then show ?thesis using Cons.IH [of "sc_add_root r c"] sc_add_root_spec [OF Cons.prems(1), of r] Cons.prems(2) by simp
  qed
qed simp

lemma sc_holds_status:
  assumes "sc_ok c" "sc_holds c bh sig f" "length (signature_bytes sig) = 64" "anc f \<noteq> None \<or> f \<in> set (sc_roots c)"
  shows "\<exists>r. (get_signature_status c sig bh anc :: ('x, (fork \<times> 't) option) res) = Ok (Some r)"
proof -
  from assms(2) obtain g i sm l where h: "map_of (sc_cache c) bh = Some (g, i, sm)"
    "sm (take CACHED_SIGNATURE_SIZE (drop i (signature_bytes sig))) = Some l" "f \<in> fst ` set l"
    unfolding sc_holds_def by blast
  have "i < 32 - CACHED_SIGNATURE_SIZE" using assms(1) h(1) unfolding sc_ok_def by blast
  then have s: "(sig_slice sig i :: ('x, bytes) res) = Ok (take CACHED_SIGNATURE_SIZE (drop i (signature_bytes sig)))"
    using assms(3) by (rule sig_slice_ok)
  let ?l = "filter (\<lambda>p. anc (fst p) \<noteq> None \<or> fst p \<in> set (sc_roots c)) l"
  have "?l \<noteq> []" using h(3) assms(4) by (auto simp: filter_empty_conv)
  then have "nth_opt ?l 0 = Some (?l ! 0)" by simp
  then show ?thesis using h(1,2) s by (simp add: get_signature_status_def)
qed

text \<open>
  C29: no replay. Once the status of a transaction is in the cache, every bank that descends from
  its fork (or sees it as a root) finds the signature, after any further inserts and roots, as long
  as no root as recent as that fork has been pushed out of the set of roots. The operations do not
  panic on signatures of 64 bytes.
\<close>

theorem status_cache_no_replay:
  assumes "\<forall>op \<in> set ops. sc_op_ok op" "\<forall>op \<in> set ops'. sc_op_ok op"
    "rnd < 32 - CACHED_SIGNATURE_SIZE" "length (signature_bytes sig) = 64"
    "sc_run ops status_cache_default = (Ok c :: ('x, 't status_cache) res)"
    "sc_insert rnd bh sig f t c = (Ok c1 :: ('x, 't status_cache) res)" "sc_keeps f ops' (sc_roots c1)"
  shows "\<exists>c2. (sc_run ops' c1 :: ('x, 't status_cache) res) = Ok c2 \<and>
    (\<forall>anc. anc f \<noteq> None \<or> f \<in> set (sc_roots c2) \<longrightarrow>
       (\<exists>r. (get_signature_status c2 sig bh anc :: ('x, (fork \<times> 't) option) res) = Ok (Some r)))"
proof -
  have "sc_ok (status_cache_default :: 't status_cache)" by (simp add: sc_ok_def status_cache_default_def)
  from sc_run_ok [where 'x = 'x, OF this assms(1)] assms(5) have "sc_ok c" by simp
  from sc_insert_spec [where 'x = 'x, OF this assms(3,4), of bh f t] assms(6)
  have "sc_ok c1" "sc_holds c1 bh sig f" by auto
  from sc_run_keeps [where 'x = 'x, OF this(1) assms(2,7) this(2)] obtain c2 where
    "(sc_run ops' c1 :: ('x, 't status_cache) res) = Ok c2" "sc_ok c2" "sc_holds c2 bh sig f" by blast
  then show ?thesis using sc_holds_status [where 'x = 'x] assms(4) by blast
qed

definition demo_signature :: "u8 \<Rightarrow> signature" where
  "demo_signature b = Signature (replicate 64 b)"

definition demo_status_cache :: "bool status_cache" where
  "demo_status_cache = \<lparr>sc_cache = [(default_hash, 5, 3, [replicate 20 1 \<mapsto> [(5, True)]])], sc_roots = []\<rparr>"

lemma demo_insert:
  "sc_insert 3 default_hash (demo_signature 1) 5 True status_cache_default = (Ok demo_status_cache :: (unit, bool status_cache) res)"
  by (simp add: sc_insert_def status_cache_default_def sig_slice_def demo_signature_def CACHED_SIGNATURE_SIZE_def
      demo_status_cache_def)

theorem status_cache_no_replay_witness:
  "\<exists>c2. sc_run [ScAddRoot 6] demo_status_cache = (Ok c2 :: (unit, bool status_cache) res) \<and>
     (\<exists>r. get_signature_status c2 (demo_signature 1) default_hash [5 \<mapsto> 0] = (Ok (Some r) :: (unit, (fork \<times> bool) option) res))"
proof -
  have "\<forall>op \<in> set ([] :: bool sc_op list). sc_op_ok op" "\<forall>op \<in> set [ScAddRoot 6 :: bool sc_op]. sc_op_ok op"
    "3 < 32 - CACHED_SIGNATURE_SIZE" "length (signature_bytes (demo_signature 1)) = 64"
    "sc_run [] status_cache_default = (Ok status_cache_default :: (unit, bool status_cache) res)"
    by (simp_all add: CACHED_SIGNATURE_SIZE_def demo_signature_def)
  moreover have "sc_keeps 5 [ScAddRoot 6 :: bool sc_op] (sc_roots demo_status_cache)"
    by (simp add: demo_status_cache_def MAX_CACHE_ENTRIES_def)
  ultimately obtain c2 where "sc_run [ScAddRoot 6] demo_status_cache = (Ok c2 :: (unit, bool status_cache) res)"
    "\<forall>anc. anc 5 \<noteq> None \<or> 5 \<in> set (sc_roots c2) \<longrightarrow>
       (\<exists>r. get_signature_status c2 (demo_signature 1) default_hash anc = (Ok (Some r) :: (unit, (fork \<times> bool) option) res))"
    using status_cache_no_replay [where 'x = unit, OF _ _ _ _ _ demo_insert] by blast
  then show ?thesis by (metis fun_upd_same option.distinct(1))
qed

end
