(* ===== verification/Blockhash_Queue.thy ===== *)
theory Blockhash_Queue
  imports Account_Model
begin

text \<open>
  The recent block hashes of a bank, \<^verbatim>\<open>src/runtime/src/blockhash_queue.rs\<close>. The clock is an argument
  of the operations that read it. The hash map of ages is an association list, because it is
  pruned and searched by value.
\<close>

section \<open>The queue\<close>

record hash_age =
  ha_timestamp :: u64
  ha_height :: u64

record blockhash_queue =
  hash_height :: u64
  last_hash :: "hash option"
  ages :: "(hash \<times> hash_age) list"
  bq_max_age :: nat

definition blockhash_queue_new :: "nat \<Rightarrow> blockhash_queue" where
  "blockhash_queue_new m = \<lparr>hash_height = 0, last_hash = None, ages = [], bq_max_age = m\<rparr>"

definition bq_last_hash :: "blockhash_queue \<Rightarrow> ('e, hash) res" where
  "bq_last_hash q = unwrap (last_hash q)"

definition check_hash_age :: "blockhash_queue \<Rightarrow> hash \<Rightarrow> nat \<Rightarrow> bool" where
  "check_hash_age q h m =
     (case map_of (ages q) h of
        Some age \<Rightarrow> hash_height q - ha_height age \<le> of_nat m
      | None \<Rightarrow> False)"

definition genesis_hash :: "u64 \<Rightarrow> hash \<Rightarrow> blockhash_queue \<Rightarrow> blockhash_queue" where
  "genesis_hash now h q =
     q\<lparr>ages := AList.update h \<lparr>ha_timestamp = now, ha_height = 0\<rparr> (ages q), last_hash := Some h\<rparr>"

definition bq_check_age :: "u64 \<Rightarrow> nat \<Rightarrow> hash_age \<Rightarrow> bool" where
  "bq_check_age height m age = (height - ha_height age \<le> of_nat m)"

definition register_hash :: "u64 \<Rightarrow> hash \<Rightarrow> blockhash_queue \<Rightarrow> blockhash_queue" where
  "register_hash now h q =
     (let height = hash_height q + 1;
          kept = (if bq_max_age q \<le> length (ages q)
                  then filter (\<lambda>p. bq_check_age height (bq_max_age q) (snd p)) (ages q)
                  else ages q)
      in q\<lparr>hash_height := height, ages := AList.update h \<lparr>ha_timestamp = now, ha_height = height\<rparr> kept,
           last_hash := Some h\<rparr>)"

definition hash_height_to_timestamp :: "blockhash_queue \<Rightarrow> u64 \<Rightarrow> u64 option" where
  "hash_height_to_timestamp q height =
     map_option (\<lambda>p. ha_timestamp (snd p)) (List.find (\<lambda>p. ha_height (snd p) = height) (ages q))"

section \<open>The queue as the list of the hashes registered\<close>

text \<open>
  A run of the queue: the genesis hash (last in the list), then the hashes registered, newest first,
  each with the time of its registration.
\<close>

fun bq_run :: "nat \<Rightarrow> (u64 \<times> hash) list \<Rightarrow> blockhash_queue" where
  "bq_run m [] = blockhash_queue_new m"
| "bq_run m [(now, h)] = genesis_hash now h (blockhash_queue_new m)"
| "bq_run m ((now, h) # ths) = register_hash now h (bq_run m ths)"

text \<open>A hash is known with the height of its latest registration, as long as that is recent.\<close>

definition bq_inv :: "hash list \<Rightarrow> blockhash_queue \<Rightarrow> bool" where
  "bq_inv hs q \<longleftrightarrow>
     distinct (map fst (ages q)) \<and> hash_height q = of_nat (length hs - 1) \<and> last_hash q = Some (hd hs) \<and>
     (\<forall>h. case position (\<lambda>x. x = h) hs of
            None \<Rightarrow> map_of (ages q) h = None
          | Some i \<Rightarrow>
              (case map_of (ages q) h of
                 None \<Rightarrow> bq_max_age q < i
               | Some age \<Rightarrow> ha_height age = of_nat (length hs - 1 - i)))"

lemma bq_inv_position:
  assumes "bq_inv hs q" "map_of (ages q) h = Some age"
  shows "\<exists>i < length hs. position (\<lambda>x. x = h) hs = Some i \<and> ha_height age = of_nat (length hs - 1 - i)"
proof -
  from assms obtain i where "position (\<lambda>x. x = h) hs = Some i" "ha_height age = of_nat (length hs - 1 - i)"
    by (auto simp: bq_inv_def dest!: spec [of _ h] split: option.splits)
  then show ?thesis using position_Some by blast
qed

lemma height_diff:
  assumes "i \<le> n" "n < 2 ^ 64"
  shows "unat (of_nat n - of_nat (n - i) :: u64) = i"
proof -
  have "(of_nat n - of_nat (n - i) :: u64) = of_nat i" using assms(1) by (simp add: of_nat_diff)
  then show ?thesis using assms by (simp add: unat_of_nat)
qed

lemma register_hash_inv:
  assumes inv: "bq_inv hs q" and ne: "hs \<noteq> []" and n: "length hs < 2 ^ 64" and m: "bq_max_age q < 2 ^ 64"
  shows "bq_inv (h # hs) (register_hash now h q) \<and> bq_max_age (register_hash now h q) = bq_max_age q"
proof -
  let ?q = "register_hash now h q" and ?H = "of_nat (length hs) :: u64"
  define kept where "kept = (if bq_max_age q \<le> length (ages q)
      then filter (\<lambda>p. bq_check_age ?H (bq_max_age q) (snd p)) (ages q) else ages q)"
  have H: "hash_height q + 1 = ?H" using inv ne by (cases hs) (simp_all add: bq_inv_def)
  have q: "?q = q\<lparr>hash_height := ?H, ages := AList.update h \<lparr>ha_timestamp = now, ha_height = ?H\<rparr> kept, last_hash := Some h\<rparr>"
    by (simp add: register_hash_def Let_def H kept_def)
  have dis: "distinct (map fst (ages q))" using inv by (simp add: bq_inv_def)
  have kept_dis: "distinct (map fst kept)" using dis by (simp add: kept_def distinct_map_filter)
  have old: "map_of kept x = (case map_of (ages q) x of None \<Rightarrow> None
      | Some age \<Rightarrow> if bq_max_age q \<le> length (ages q) \<and> \<not> bq_check_age ?H (bq_max_age q) age then None else Some age)" for x
    using map_of_filter_snd [OF dis, of "bq_check_age ?H (bq_max_age q)" x]
    by (auto simp: kept_def split: option.splits)
  have age: "bq_check_age ?H (bq_max_age q) a \<longleftrightarrow> Suc i \<le> bq_max_age q"
    if "ha_height a = of_nat (length hs - 1 - i)" "i < length hs" for a i
  proof -
    have "length hs - 1 - i = length hs - Suc i" by simp
    then have "unat (?H - ha_height a) = Suc i" using that height_diff [of "Suc i" "length hs"] n by simp
    then show ?thesis using m by (simp add: bq_check_age_def word_le_nat_alt unat_of_nat)
  qed
  have "case position (\<lambda>x. x = k) (h # hs) of
            None \<Rightarrow> map_of (ages ?q) k = None
          | Some i \<Rightarrow> (case map_of (ages ?q) k of
                 None \<Rightarrow> bq_max_age ?q < i
               | Some a \<Rightarrow> ha_height a = of_nat (length (h # hs) - 1 - i))" for k
  proof (cases "k = h")
    case True
    then show ?thesis by (simp add: q update_conv')
  next
    case False
    have mk: "map_of (ages ?q) k = map_of kept k" using False by (simp add: q update_conv')
    show ?thesis
    proof (cases "position (\<lambda>x. x = k) hs")
      case None
      then have "map_of (ages q) k = None" using inv by (auto simp: bq_inv_def dest!: spec [of _ k])
      then show ?thesis using False None mk old [of k] by simp
    next
      case (Some i)
      then have i: "i < length hs" using position_Some by blast
      show ?thesis
      proof (cases "map_of (ages q) k")
        case None
        then have "bq_max_age q < i" using inv Some by (auto simp: bq_inv_def dest!: spec [of _ k])
        then show ?thesis using False Some None mk old [of k] by (simp add: q)
      next
        case s: (Some a)
        have a: "ha_height a = of_nat (length hs - 1 - i)"
          using bq_inv_position [OF inv s] Some by auto
        have "length hs - Suc i = length hs - 1 - i" by simp
        then show ?thesis using False Some s mk old [of k] age [OF a i] a by (auto simp: q)
      qed
    qed
  qed
  moreover have "distinct (map fst (ages ?q))" using kept_dis by (simp add: q distinct_update)
  moreover have "hash_height ?q = of_nat (length (h # hs) - 1)" "last_hash ?q = Some (hd (h # hs))"
    "bq_max_age ?q = bq_max_age q" by (simp_all add: q)
  ultimately show ?thesis unfolding bq_inv_def by blast
qed

lemma bq_run_inv:
  assumes "ths \<noteq> []" "length ths < 2 ^ 64" "m < 2 ^ 64"
  shows "bq_inv (map snd ths) (bq_run m ths) \<and> bq_max_age (bq_run m ths) = m"
  using assms
proof (induction m ths rule: bq_run.induct)
  case (2 m now h)
  then show ?case by (auto simp: bq_inv_def genesis_hash_def blockhash_queue_new_def)
next
  case (3 m now h th ths)
  then have "bq_inv (map snd (th # ths)) (bq_run m (th # ths)) \<and> bq_max_age (bq_run m (th # ths)) = m" by simp
  then show ?case using register_hash_inv [of "map snd (th # ths)" "bq_run m (th # ths)" h now] 3 by simp
qed simp

text \<open>
  C28: the queue refines the list of registered hashes. A transaction's hash is accepted at age \<open>k\<close>
  exactly when the hash was registered among the last \<open>k + 1\<close> (the newest has age 0), for every
  \<open>k\<close> up to the queue's maximal age: nothing recent is ever dropped by the pruning, nothing older is
  accepted, and the last hash is the newest.
\<close>

theorem blockhash_queue_refines:
  assumes "ths \<noteq> []" "length ths < 2 ^ 64" "m < 2 ^ 64" "k \<le> m"
  shows "(check_hash_age (bq_run m ths) h k \<longleftrightarrow> h \<in> set (take (Suc k) (map snd ths))) \<and>
    bq_last_hash (bq_run m ths) = (Ok (snd (hd ths)) :: ('e, hash) res)"
proof -
  let ?q = "bq_run m ths" and ?hs = "map snd ths"
  have inv: "bq_inv ?hs ?q" "bq_max_age ?q = m" using bq_run_inv [OF assms(1-3)] by simp_all
  have pos: "h \<in> set (take (Suc k) ?hs) \<longleftrightarrow> (\<exists>i \<le> k. position (\<lambda>x. x = h) ?hs = Some i)"
  proof
    assume "h \<in> set (take (Suc k) ?hs)"
    then obtain j where j: "j \<le> k" "j < length ?hs" "?hs ! j = h" by (auto simp: in_set_conv_nth less_Suc_eq_le)
    then have "h \<in> set ?hs" by (metis nth_mem)
    then obtain i where i: "position (\<lambda>x. x = h) ?hs = Some i" by (rule position_eq_nth)
    have "i \<le> j" using position_first [OF i, of j] j by (auto simp: not_less [symmetric])
    then show "\<exists>i \<le> k. position (\<lambda>x. x = h) ?hs = Some i" using i j by auto
  next
    assume "\<exists>i \<le> k. position (\<lambda>x. x = h) ?hs = Some i"
    then obtain i where i: "i \<le> k" "position (\<lambda>x. x = h) ?hs = Some i" by blast
    with position_Some [OF i(2)] show "h \<in> set (take (Suc k) ?hs)"
      by (auto simp: in_set_conv_nth intro!: exI [of _ i])
  qed
  have "check_hash_age ?q h k \<longleftrightarrow> (\<exists>i \<le> k. position (\<lambda>x. x = h) ?hs = Some i)"
  proof (cases "map_of (ages ?q) h")
    case None
    then have "position (\<lambda>x. x = h) ?hs = None \<or> (\<exists>i. position (\<lambda>x. x = h) ?hs = Some i \<and> m < i)"
      using inv by (auto simp: bq_inv_def dest!: spec [of _ h] split: option.splits)
    then show ?thesis using None assms(4) by (auto simp: check_hash_age_def)
  next
    case (Some age)
    from bq_inv_position [OF inv(1) Some] obtain i where
      i: "i < length ?hs" "position (\<lambda>x. x = h) ?hs = Some i" "ha_height age = of_nat (length ?hs - 1 - i)" by blast
    have "hash_height ?q = of_nat (length ?hs - 1)" using inv(1) by (simp add: bq_inv_def)
    then have "unat (hash_height ?q - ha_height age) = i"
      using i height_diff [of i "length ?hs - 1"] assms(2) by simp
    then show ?thesis
      using Some i assms(3,4) by (auto simp: check_hash_age_def word_le_nat_alt unat_of_nat)
  qed
  moreover have "last_hash ?q = Some (snd (hd ths))" using inv(1) assms(1) by (simp add: bq_inv_def hd_map)
  ultimately show ?thesis using pos by (simp add: bq_last_hash_def unwrap_def)
qed

theorem blockhash_queue_refines_witness:
  "check_hash_age (bq_run 1 [(0, Hash [3]), (0, Hash [2]), (0, Hash [1])]) (Hash [2]) 1 \<and>
   \<not> check_hash_age (bq_run 1 [(0, Hash [3]), (0, Hash [2]), (0, Hash [1])]) (Hash [1]) 1"
  using blockhash_queue_refines [where 'e = unit, of "[(0, Hash [3]), (0, Hash [2]), (0, Hash [1])]" 1 1 "Hash [2]"]
    blockhash_queue_refines [where 'e = unit, of "[(0, Hash [3]), (0, Hash [2]), (0, Hash [1])]" 1 1 "Hash [1]"]
  by simp

end
