(* ===== verification/Vote_Program.thy ===== *)
theory Vote_Program
  imports Message_Processor
begin

text \<open>
  The vote program, \<^verbatim>\<open>src/controllers/vote_api/src\<close>: the vote state with its lockout tower
  (\<^verbatim>\<open>vote_state.rs\<close>), the instructions and the processor (\<^verbatim>\<open>vote_instruction.rs\<close>), and the slot
  hashes that votes are checked against (\<^verbatim>\<open>src/interface/src/syscall/slot_hashes.rs\<close>). A deque is a
  list whose head is the front. 64-bit floats are a parameter: the operations the code uses.
\<close>

section \<open>Slot hashes\<close>

definition syscall_id :: pubkey where
  "syscall_id = Pubkey
     [6, 167, 211, 138, 69, 216, 137, 185, 198, 189, 33, 204, 111, 12, 217, 220, 229, 201, 34, 52,
      253, 202, 87, 144, 232, 16, 195, 192, 0, 0, 0, 0]"

definition slot_hashes_id :: pubkey where
  "slot_hashes_id = Pubkey
     [6, 167, 211, 138, 69, 219, 186, 157, 48, 170, 46, 66, 2, 146, 193, 59, 39, 59, 245, 188, 30,
      60, 130, 78, 86, 27, 113, 191, 208, 0, 0, 0]"

definition slot_hashes_check_id :: "pubkey \<Rightarrow> bool" where
  "slot_hashes_check_id k \<longleftrightarrow> k = slot_hashes_id"

definition MAX_SLOT_HASHES :: nat where
  "MAX_SLOT_HASHES = 512"

type_synonym slot_hashes = "(u64 \<times> hash) list"

definition slot_hashes_from :: "slot_hashes codec \<Rightarrow> account \<Rightarrow> slot_hashes option" where
  "slot_hashes_from c a = (case account_state c a of Ok x \<Rightarrow> Some x | _ \<Rightarrow> None)"

definition slot_hashes_to :: "slot_hashes codec \<Rightarrow> slot_hashes \<Rightarrow> account \<Rightarrow> account option" where
  "slot_hashes_to c sh a = (case account_set_state c sh a of Ok a' \<Rightarrow> Some a' | _ \<Rightarrow> None)"

definition slot_hashes_size_of :: "slot_hashes codec \<Rightarrow> ('e, nat) res" where
  "slot_hashes_size_of c = size_of_value c (replicate MAX_SLOT_HASHES (0, default_hash))"

definition slot_hashes_add :: "u64 \<Rightarrow> hash \<Rightarrow> slot_hashes \<Rightarrow> slot_hashes" where
  "slot_hashes_add slot h sh = take MAX_SLOT_HASHES ((slot, h) # sh)"

definition slot_hashes_create_account :: "slot_hashes codec \<Rightarrow> u64 \<Rightarrow> ('e, account) res" where
  "slot_hashes_create_account c d =
     res_bind (slot_hashes_size_of c) (\<lambda>n. Ok (account_new d 0 n syscall_id))"

section \<open>Votes and lockouts\<close>

definition vote_program_id :: pubkey where
  "vote_program_id = Pubkey
     [7, 97, 72, 29, 53, 116, 116, 187, 124, 77, 118, 36, 235, 211, 189, 179, 216, 53, 94, 115, 209,
      16, 67, 252, 13, 163, 83, 128, 0, 0, 0, 0]"

definition MAX_LOCKOUT_HISTORY :: nat where
  "MAX_LOCKOUT_HISTORY = 31"

definition INITIAL_LOCKOUT :: nat where
  "INITIAL_LOCKOUT = 2"

record vote =
  vote_slot :: u64
  vote_hash :: hash

record lockout =
  slot :: u64
  confirmation_count :: u32

definition lockout_new :: "vote \<Rightarrow> lockout" where
  "lockout_new v = \<lparr>slot = vote_slot v, confirmation_count = 1\<rparr>"

text \<open>\<open>u64::pow\<close> wraps around.\<close>

definition lockout_slots :: "lockout \<Rightarrow> u64" where
  "lockout_slots l = of_nat INITIAL_LOCKOUT ^ unat (confirmation_count l)"

definition expiration_slot :: "lockout \<Rightarrow> u64" where
  "expiration_slot l = slot l + lockout_slots l"

definition is_expired :: "lockout \<Rightarrow> u64 \<Rightarrow> bool" where
  "is_expired l s \<longleftrightarrow> expiration_slot l < s"

section \<open>Vote state\<close>

record vote_state =
  votes :: "lockout list"
  node_pubkey :: pubkey
  authorized_voter_pubkey :: pubkey
  commission :: u32
  root_slot :: "u64 option"
  credits :: u64

definition vote_state_new :: "pubkey \<Rightarrow> pubkey \<Rightarrow> u32 \<Rightarrow> vote_state" where
  "vote_state_new vote_pubkey node comm =
     \<lparr>votes = [], node_pubkey = node, authorized_voter_pubkey = vote_pubkey, commission = comm,
      root_slot = None, credits = 0\<rparr>"

definition default_vote_state :: vote_state where
  "default_vote_state =
     \<lparr>votes = [], node_pubkey = default_pubkey, authorized_voter_pubkey = default_pubkey,
      commission = 0, root_slot = None, credits = 0\<rparr>"

definition vote_state_size_of :: "vote_state codec \<Rightarrow> ('e, nat) res" where
  "vote_state_size_of c =
     size_of_value c (default_vote_state
       \<lparr>votes := replicate MAX_LOCKOUT_HISTORY \<lparr>slot = 0, confirmation_count = 0\<rparr>,
        root_slot := Some (- 1)\<rparr>)"

definition vote_state_from :: "vote_state codec \<Rightarrow> account \<Rightarrow> vote_state option" where
  "vote_state_from c a = (case account_state c a of Ok x \<Rightarrow> Some x | _ \<Rightarrow> None)"

definition vote_state_deserialize :: "vote_state codec \<Rightarrow> bytes \<Rightarrow> vote_state ix_result" where
  "vote_state_deserialize c b = ok_or InvalidAccountData (deserialize c b)"

definition vote_state_serialize :: "vote_state codec \<Rightarrow> vote_state \<Rightarrow> bytes \<Rightarrow> bytes ix_result" where
  "vote_state_serialize c vs b =
     (case serialize_into c vs b of
        Inr d \<Rightarrow> Ok d
      | Inl SizeLimit \<Rightarrow> Err AccountDataTooSmall
      | Inl _ \<Rightarrow> Err GenericError)"

text \<open>The 64-bit float operations the programs use, over an abstract type of floats.\<close>

record 'f f64_ops =
  f64_zero :: 'f
  f64_one :: 'f
  f64_of_u64 :: "u64 \<Rightarrow> 'f"
  f64_of_u32 :: "u32 \<Rightarrow> 'f"
  f64_mul :: "'f \<Rightarrow> 'f \<Rightarrow> 'f"
  f64_div :: "'f \<Rightarrow> 'f \<Rightarrow> 'f"
  f64_sub :: "'f \<Rightarrow> 'f \<Rightarrow> 'f"
  f64_lt :: "'f \<Rightarrow> 'f \<Rightarrow> bool"
  f64_to_u64 :: "'f \<Rightarrow> u64"

definition commission_split :: "'f f64_ops \<Rightarrow> vote_state \<Rightarrow> 'f \<Rightarrow> 'f \<times> 'f \<times> bool" where
  "commission_split F vs on =
     (if commission vs = 0 then (f64_zero F, on, False)
      else if commission vs = - 1 then (on, f64_zero F, False)
      else let mine = f64_div F (f64_mul F on (f64_of_u32 F (commission vs))) (f64_of_u32 F (- 1))
           in (mine, f64_sub F on mine, True))"

function pop_expired_loop :: "u64 \<Rightarrow> lockout list \<Rightarrow> lockout list" where
  "pop_expired_loop s vs =
     (if vs \<noteq> [] \<and> is_expired (last vs) s then pop_expired_loop s (butlast vs) else vs)"
  by pat_completeness auto
termination by (relation "measure (\<lambda>(s, vs). length vs)") auto

declare pop_expired_loop.simps [simp del]

definition pop_expired_votes :: "u64 \<Rightarrow> vote_state \<Rightarrow> vote_state" where
  "pop_expired_votes s vs = vs\<lparr>votes := pop_expired_loop s (votes vs)\<rparr>"

definition double_lockouts :: "vote_state \<Rightarrow> vote_state" where
  "double_lockouts vs =
     (let stack_depth = length (votes vs) in
      vs\<lparr>votes := map (\<lambda>(i, v). if stack_depth > i + unat (confirmation_count v)
                                 then v\<lparr>confirmation_count := confirmation_count v + 1\<rparr> else v)
                     (enumerate 0 (votes vs))\<rparr>)"

definition process_vote :: "vote \<Rightarrow> slot_hashes \<Rightarrow> vote_state \<Rightarrow> vote_state" where
  "process_vote v sh vs =
     (if votes vs \<noteq> [] \<and> slot (last (votes vs)) \<ge> vote_slot v then vs
      else if \<not> list_ex (\<lambda>(s, h). vote_slot v = s \<and> vote_hash v = h) sh then vs
      else
        let l = lockout_new v;
            vs = pop_expired_votes (slot l) vs;
            vs = (if length (votes vs) = MAX_LOCKOUT_HISTORY
                  then vs\<lparr>votes := tl (votes vs), root_slot := Some (slot (hd (votes vs))),
                          credits := credits vs + 1\<rparr>
                  else vs)
        in double_lockouts (vs\<lparr>votes := votes vs @ [l]\<rparr>))"

definition process_votes :: "vote list \<Rightarrow> slot_hashes \<Rightarrow> vote_state \<Rightarrow> vote_state" where
  "process_votes vts sh vs = fold (\<lambda>v. process_vote v sh) vts vs"

definition process_vote_unchecked :: "vote \<Rightarrow> vote_state \<Rightarrow> vote_state" where
  "process_vote_unchecked v vs = process_vote v [(vote_slot v, vote_hash v)] vs"

definition process_slot_vote_unchecked :: "u64 \<Rightarrow> vote_state \<Rightarrow> vote_state" where
  "process_slot_vote_unchecked s vs =
     process_vote_unchecked \<lparr>vote_slot = s, vote_hash = default_hash\<rparr> vs"

definition nth_recent_vote :: "vote_state \<Rightarrow> nat \<Rightarrow> lockout option" where
  "nth_recent_vote vs p =
     (if p < length (votes vs) then nth_opt (votes vs) (length (votes vs) - 1 - p) else None)"

section \<open>Handlers\<close>

definition signed_by :: "pubkey \<Rightarrow> keyed_account \<Rightarrow> keyed_account list \<Rightarrow> bool" where
  "signed_by authorized vote_account other_signers \<longleftrightarrow>
     \<not> (signer_key vote_account \<noteq> Some authorized \<and>
        list_all (\<lambda>a. signer_key a \<noteq> Some authorized) other_signers)"

definition authorize_voter ::
  "vote_state codec \<Rightarrow> keyed_account \<Rightarrow> keyed_account list \<Rightarrow> pubkey \<Rightarrow> keyed_account ix_result" where
  "authorize_voter c vote_account other_signers new_voter =
     res_bind (keyed_state c vote_account) (\<lambda>vs.
       if \<not> signed_by (authorized_voter_pubkey vs) vote_account other_signers
       then Err MissingRequiredSignature
       else keyed_set_state c (vs\<lparr>authorized_voter_pubkey := new_voter\<rparr>) vote_account)"

definition vote_initialize_account ::
  "vote_state codec \<Rightarrow> keyed_account \<Rightarrow> pubkey \<Rightarrow> u32 \<Rightarrow> keyed_account ix_result" where
  "vote_initialize_account c vote_account node comm =
     res_bind (keyed_state c vote_account) (\<lambda>vs.
       if authorized_voter_pubkey vs \<noteq> default_pubkey then Err AccountAlreadyInitialized
       else keyed_set_state c (vote_state_new (unsigned_key vote_account) node comm) vote_account)"

definition process_votes_handler ::
  "vote_state codec \<Rightarrow> slot_hashes codec \<Rightarrow> keyed_account \<Rightarrow> keyed_account \<Rightarrow> keyed_account list \<Rightarrow>
     vote list \<Rightarrow> keyed_account ix_result" where
  "process_votes_handler c shc vote_account slot_hashes_account other_signers vts =
     res_bind (keyed_state c vote_account) (\<lambda>vs.
       if authorized_voter_pubkey vs = default_pubkey then Err UninitializedAccount
       else if \<not> slot_hashes_check_id (unsigned_key slot_hashes_account) then Err InvalidArgument
       else res_bind (keyed_state shc slot_hashes_account) (\<lambda>sh.
         if \<not> signed_by (authorized_voter_pubkey vs) vote_account other_signers
         then Err MissingRequiredSignature
         else keyed_set_state c (process_votes vts sh vs) vote_account))"

definition vote_create_account ::
  "vote_state codec \<Rightarrow> pubkey \<Rightarrow> pubkey \<Rightarrow> u32 \<Rightarrow> u64 \<Rightarrow> ('e, account) res" where
  "vote_create_account c vote_pubkey node comm d =
     res_bind (vote_state_size_of c) (\<lambda>n.
     res_bind (unwrap_res (vote_initialize_account c
         (keyed_account_new vote_pubkey False (account_new d 0 n vote_program_id)) node comm)) (\<lambda>ka.
       Ok (account ka)))"

definition create_bootstrap_leader_account ::
  "vote_state codec \<Rightarrow> pubkey \<Rightarrow> pubkey \<Rightarrow> u32 \<Rightarrow> u64 \<Rightarrow> ('e, account \<times> vote_state) res" where
  "create_bootstrap_leader_account c vote_pubkey node comm d =
     res_bind (vote_create_account c vote_pubkey node comm d) (\<lambda>a.
     res_bind (unwrap_res (account_state c a)) (\<lambda>vs.
       let vs = process_slot_vote_unchecked 0 vs in
     res_bind (unwrap_res (account_set_state c vs a)) (\<lambda>a. Ok (a, vs))))"

section \<open>Instructions and the processor\<close>

datatype vote_instruction =
    VoteInitializeAccount pubkey u32
  | AuthorizeVoter pubkey
  | VoteVotes "vote list"

definition vote_initialize_account_ix ::
  "vote_instruction codec \<Rightarrow> pubkey \<Rightarrow> pubkey \<Rightarrow> pubkey \<Rightarrow> u32 \<Rightarrow> ('e, instruction) res" where
  "vote_initialize_account_ix c from vote_pubkey node comm =
     instruction_new c vote_program_id (VoteInitializeAccount node comm)
       [account_meta_new from True, account_meta_new vote_pubkey False]"

definition vote_create_account_ixs ::
  "vote_state codec \<Rightarrow> system_instruction codec \<Rightarrow> vote_instruction codec \<Rightarrow> pubkey \<Rightarrow> pubkey \<Rightarrow>
     pubkey \<Rightarrow> u32 \<Rightarrow> u64 \<Rightarrow> ('e, instruction list) res" where
  "vote_create_account_ixs vc sc c from vote_pubkey node comm d =
     res_bind (vote_state_size_of vc) (\<lambda>space.
     res_bind (system_create_account sc from vote_pubkey d (of_nat space) vote_program_id) (\<lambda>create_ix.
     res_bind (vote_initialize_account_ix c from vote_pubkey node comm) (\<lambda>init_ix.
       Ok [create_ix, init_ix])))"

definition metas_for_authorized_signer :: "pubkey \<Rightarrow> pubkey \<Rightarrow> pubkey \<Rightarrow> account_meta list" where
  "metas_for_authorized_signer from vote_pubkey authorized =
     (let is_own_signer = (authorized = vote_pubkey) in
      [account_meta_new from True, account_meta_new vote_pubkey is_own_signer] @
      (if \<not> is_own_signer then [account_meta_new authorized True] else []))"

definition authorize_voter_ix ::
  "vote_instruction codec \<Rightarrow> pubkey \<Rightarrow> pubkey \<Rightarrow> pubkey \<Rightarrow> pubkey \<Rightarrow> ('e, instruction) res" where
  "authorize_voter_ix c from vote_pubkey authorized new_authorized =
     instruction_new c vote_program_id (AuthorizeVoter new_authorized)
       (metas_for_authorized_signer from vote_pubkey authorized)"

definition vote_ix ::
  "vote_instruction codec \<Rightarrow> pubkey \<Rightarrow> pubkey \<Rightarrow> pubkey \<Rightarrow> vote list \<Rightarrow> ('e, instruction) res" where
  "vote_ix c from vote_pubkey authorized recent_votes =
     (let metas = metas_for_authorized_signer from vote_pubkey authorized in
      instruction_new c vote_program_id (VoteVotes recent_votes)
        (take 2 metas @ [account_meta_new slot_hashes_id False] @ drop 2 metas))"

record vote_codecs =
  vote_state_codec :: "vote_state codec"
  slot_hashes_codec :: "slot_hashes codec"
  vote_instruction_codec :: "vote_instruction codec"

definition vote_process_instruction :: "vote_codecs \<Rightarrow> process_instruction" where
  "vote_process_instruction C program_id kas ix tick_height =
     (case kas of
        payer # me # rest \<Rightarrow>
          res_bind (ok_or InvalidInstructionData (deserialize (vote_instruction_codec C) ix)) (\<lambda>i.
          res_bind (case i of
              VoteInitializeAccount node comm \<Rightarrow>
                vote_initialize_account (vote_state_codec C) me node comm
            | AuthorizeVoter voter \<Rightarrow> authorize_voter (vote_state_codec C) me rest voter
            | VoteVotes vts \<Rightarrow>
                (case rest of
                   [] \<Rightarrow> Panic
                 | slot_hashes_account # other_signers \<Rightarrow>
                     process_votes_handler (vote_state_codec C) (slot_hashes_codec C) me
                       slot_hashes_account other_signers vts)) (\<lambda>me'.
            Ok (payer # me' # rest)))
      | _ \<Rightarrow> Err InvalidInstructionData)"

section \<open>The lockout tower\<close>

abbreviation conf :: "lockout \<Rightarrow> nat" where
  "conf l \<equiv> unat (confirmation_count l)"

text \<open>
  The tower invariant. Slots increase from the front to the back; there are at most
  \<open>MAX_LOCKOUT_HISTORY\<close> votes; each vote has been confirmed at least by itself and the votes on
  top of it, and by no more than the history; and position plus confirmations never grows
  towards the back, so confirmation counts strictly decrease.
\<close>

definition tower_ok :: "lockout list \<Rightarrow> bool" where
  "tower_ok ls \<longleftrightarrow>
     sorted_wrt (\<lambda>a b. slot a < slot b) ls \<and>
     length ls \<le> MAX_LOCKOUT_HISTORY \<and>
     (\<forall>i < length ls. length ls \<le> i + conf (ls ! i) \<and> 1 \<le> conf (ls ! i) \<and>
                       conf (ls ! i) \<le> MAX_LOCKOUT_HISTORY) \<and>
     (\<forall>i j. i < j \<and> j < length ls \<longrightarrow> j + conf (ls ! j) \<le> i + conf (ls ! i))"

definition vote_state_ok :: "vote_state \<Rightarrow> bool" where
  "vote_state_ok vs \<longleftrightarrow>
     tower_ok (votes vs) \<and>
     (\<forall>r. root_slot vs = Some r \<longrightarrow> votes vs \<noteq> [] \<and> (\<forall>l \<in> set (votes vs). r < slot l))"

lemma tower_ok_Nil [simp]: "tower_ok []"
  by (simp add: tower_ok_def)

lemma tower_ok_take: "tower_ok ls \<Longrightarrow> tower_ok (take n ls)"
  by (auto simp: tower_ok_def sorted_wrt_take min_def intro: order.trans [of _ "length ls"])

lemma tower_ok_tl:
  assumes "tower_ok ls"
  shows "tower_ok (tl ls)"
proof (cases ls)
  case (Cons l ls')
  have at: "length ls' \<le> i + conf (ls' ! i) \<and> 1 \<le> conf (ls' ! i) \<and> conf (ls' ! i) \<le> MAX_LOCKOUT_HISTORY"
    if "i < length ls'" for i
    using assms that unfolding tower_ok_def Cons by (auto dest: spec [of _ "Suc i"])
  have "j + conf (ls' ! j) \<le> i + conf (ls' ! i)" if "i < j" "j < length ls'" for i j
  proof -
    have "Suc j + conf (ls ! Suc j) \<le> Suc i + conf (ls ! Suc i)"
      using assms that unfolding tower_ok_def Cons by (metis Suc_less_eq length_Cons)
    then show ?thesis by (simp add: Cons)
  qed
  with at show ?thesis using assms by (auto simp: tower_ok_def Cons)
qed simp

lemma pop_expired_loop_take: "\<exists>n. pop_expired_loop s ls = take n ls"
proof (induction s ls rule: pop_expired_loop.induct)
  case (1 s ls)
  show ?case
  proof (cases "ls \<noteq> [] \<and> is_expired (last ls) s")
    case True
    then obtain n where "pop_expired_loop s (butlast ls) = take n (butlast ls)" using 1 by blast
    then have "pop_expired_loop s ls = take (min n (length ls - 1)) ls"
      using True by (subst pop_expired_loop.simps) (simp add: butlast_conv_take min.commute)
    then show ?thesis ..
  qed (subst pop_expired_loop.simps, auto intro: exI [of _ "length ls"])
qed

lemma pop_expired_loop_subset: "set (pop_expired_loop s ls) \<subseteq> set ls"
  using pop_expired_loop_take [of s ls] set_take_subset by metis

text \<open>Only expired votes are popped, and the vote left on top has not expired.\<close>

lemma pop_expired_loop_drops:
  "v \<in> set ls \<Longrightarrow> \<not> is_expired v s \<Longrightarrow> v \<in> set (pop_expired_loop s ls)"
proof (induction s ls rule: pop_expired_loop.induct)
  case (1 s ls)
  show ?case
  proof (cases "ls \<noteq> [] \<and> is_expired (last ls) s")
    case True
    then have "v \<in> set (butlast ls)"
      using 1(2,3) by (cases ls rule: rev_cases) auto
    then show ?thesis using 1 True by (subst pop_expired_loop.simps) simp
  qed (use 1 in \<open>subst pop_expired_loop.simps, auto\<close>)
qed

lemma pop_expired_loop_top:
  "pop_expired_loop s ls \<noteq> [] \<Longrightarrow> \<not> is_expired (last (pop_expired_loop s ls)) s"
proof (induction s ls rule: pop_expired_loop.induct)
  case (1 s ls)
  show ?case
  proof (cases "ls \<noteq> [] \<and> is_expired (last ls) s")
    case True
    then show ?thesis using 1 by (simp add: pop_expired_loop.simps [of s ls])
  next
    case False
    then have "pop_expired_loop s ls = ls" by (subst pop_expired_loop.simps) auto
    with False 1(2) show ?thesis by auto
  qed
qed

lemma double_lockouts_votes:
  "votes (double_lockouts vs) =
     map (\<lambda>(i, v). if length (votes vs) > i + conf v
                   then v\<lparr>confirmation_count := confirmation_count v + 1\<rparr> else v)
         (enumerate 0 (votes vs))"
  by (simp add: double_lockouts_def Let_def)

lemma double_lockouts_frame [simp]:
  "root_slot (double_lockouts vs) = root_slot vs" "credits (double_lockouts vs) = credits vs"
  "authorized_voter_pubkey (double_lockouts vs) = authorized_voter_pubkey vs"
  "node_pubkey (double_lockouts vs) = node_pubkey vs"
  "commission (double_lockouts vs) = commission vs"
  by (simp_all add: double_lockouts_def Let_def)

lemma double_lockouts_length [simp]: "length (votes (double_lockouts vs)) = length (votes vs)"
  by (simp add: double_lockouts_votes)

lemma double_lockouts_nth:
  "i < length (votes vs) \<Longrightarrow>
     votes (double_lockouts vs) ! i =
       (if length (votes vs) > i + conf (votes vs ! i)
        then (votes vs ! i)\<lparr>confirmation_count := confirmation_count (votes vs ! i) + 1\<rparr>
        else votes vs ! i)"
  by (simp add: double_lockouts_votes nth_enumerate_eq)

lemma double_lockouts_slots: "map slot (votes (double_lockouts vs)) = map slot (votes vs)"
  by (rule nth_equalityI) (simp_all add: double_lockouts_nth)

lemma unat_conf_Suc: "conf l \<le> MAX_LOCKOUT_HISTORY \<Longrightarrow> unat (confirmation_count l + 1) = Suc (conf l)"
  by (simp add: MAX_LOCKOUT_HISTORY_def unat_plus_no_overflow)

text \<open>Pushing a vote and doubling the lockouts it confirms.\<close>

lemma double_lockouts_tower:
  assumes "tower_ok ls" "length ls < MAX_LOCKOUT_HISTORY" "confirmation_count l = 1"
    "\<And>v. v \<in> set ls \<Longrightarrow> slot v < slot l" "votes vs = ls @ [l]"
  shows "tower_ok (votes (double_lockouts vs))"
proof -
  let ?n = "Suc (length ls)" and ?ds = "votes (double_lockouts vs)"
  have len: "length ?ds = ?n" by (simp add: assms(5))
  have old: "length ls \<le> i + conf (ls ! i) \<and> 1 \<le> conf (ls ! i) \<and> conf (ls ! i) \<le> MAX_LOCKOUT_HISTORY"
    if "i < length ls" for i
    using assms(1) that by (auto simp: tower_ok_def)
  have mono: "j + conf (ls ! j) \<le> i + conf (ls ! i)" if "i < j" "j < length ls" for i j
    using assms(1) that by (auto simp: tower_ok_def)
  have new: "conf (?ds ! i) = max (conf (ls ! i)) (?n - i)" if "i < length ls" for i
    using that old [OF that]
    by (auto simp: double_lockouts_nth assms(5) nth_append unat_conf_Suc)
  have top: "conf (?ds ! length ls) = 1"
    by (simp add: double_lockouts_nth assms(3,5))
  have "sorted_wrt (<) (map slot ?ds)"
    unfolding double_lockouts_slots assms(5) using assms(1,4)
    by (auto simp: tower_ok_def sorted_wrt_append sorted_wrt_map)
  then have "sorted_wrt (\<lambda>a b. slot a < slot b) ?ds" by (simp add: sorted_wrt_map)
  moreover have "?n \<le> i + conf (?ds ! i) \<and> 1 \<le> conf (?ds ! i) \<and> conf (?ds ! i) \<le> MAX_LOCKOUT_HISTORY"
    if "i < ?n" for i
    using that old [of i] new [of i] top assms(2)
    by (cases "i = length ls") (auto simp: MAX_LOCKOUT_HISTORY_def)
  moreover have "j + conf (?ds ! j) \<le> i + conf (?ds ! i)" if "i < j" "j < ?n" for i j
    using that new [of i] new [of j] mono [of i j] top
    by (cases "j = length ls") auto
  ultimately show ?thesis using assms(2) len by (auto simp: tower_ok_def)
qed

text \<open>The three outcomes of \<open>process_vote\<close>.\<close>

definition accepts_vote :: "vote \<Rightarrow> slot_hashes \<Rightarrow> vote_state \<Rightarrow> bool" where
  "accepts_vote v sh vs \<longleftrightarrow>
     (votes vs = [] \<or> slot (last (votes vs)) < vote_slot v) \<and> (vote_slot v, vote_hash v) \<in> set sh"

abbreviation remaining :: "vote \<Rightarrow> vote_state \<Rightarrow> lockout list" where
  "remaining v vs \<equiv> pop_expired_loop (vote_slot v) (votes vs)"

lemma process_vote_ignored: "\<not> accepts_vote v sh vs \<Longrightarrow> process_vote v sh vs = vs"
  by (auto simp: process_vote_def accepts_vote_def list_ex_iff not_less)

lemma process_vote_pushed:
  "accepts_vote v sh vs \<Longrightarrow> length (remaining v vs) \<noteq> MAX_LOCKOUT_HISTORY \<Longrightarrow>
     process_vote v sh vs = double_lockouts (vs\<lparr>votes := remaining v vs @ [lockout_new v]\<rparr>)"
  by (auto simp: process_vote_def accepts_vote_def list_ex_iff not_less pop_expired_votes_def Let_def
      lockout_new_def)

lemma process_vote_rooted:
  "accepts_vote v sh vs \<Longrightarrow> length (remaining v vs) = MAX_LOCKOUT_HISTORY \<Longrightarrow>
     process_vote v sh vs =
       double_lockouts (vs\<lparr>root_slot := Some (slot (hd (remaining v vs))), credits := credits vs + 1,
                           votes := tl (remaining v vs) @ [lockout_new v]\<rparr>)"
  by (auto simp: process_vote_def accepts_vote_def list_ex_iff not_less pop_expired_votes_def Let_def
      lockout_new_def)

lemma tower_slots_below:
  assumes "tower_ok (votes vs)" "accepts_vote v sh vs" "l \<in> set (votes vs)"
  shows "slot l < vote_slot v"
proof -
  have "slot l \<le> slot (last (votes vs))"
    using assms(1,3)
    by (cases "votes vs" rule: rev_cases) (auto simp: tower_ok_def sorted_wrt_append)
  moreover have "slot (last (votes vs)) < vote_slot v" using assms(2,3) by (auto simp: accepts_vote_def)
  ultimately show ?thesis by simp
qed

lemma double_lockouts_slot_set: "slot ` set (votes (double_lockouts vs)) = slot ` set (votes vs)"
  using arg_cong [OF double_lockouts_slots, of set] by simp

lemma vote_state_ok_double:
  assumes "tower_ok ls" "length ls < MAX_LOCKOUT_HISTORY" "votes vs = ls @ [lockout_new v]"
    "\<And>l. l \<in> set ls \<Longrightarrow> slot l < vote_slot v"
    "\<And>r. root_slot vs = Some r \<Longrightarrow> r < vote_slot v \<and> (\<forall>l \<in> set ls. r < slot l)"
  shows "vote_state_ok (double_lockouts vs)"
proof -
  have "tower_ok (votes (double_lockouts vs))"
    by (rule double_lockouts_tower [OF assms(1,2) _ _ assms(3)])
      (use assms(4) in \<open>simp_all add: lockout_new_def\<close>)
  moreover have "r < slot l" if "root_slot vs = Some r" "l \<in> set (votes (double_lockouts vs))" for r l
  proof -
    have "slot l \<in> slot ` set (ls @ [lockout_new v])"
      using that(2) double_lockouts_slot_set [of vs] by (auto simp: assms(3))
    with assms(5) [OF that(1)] show ?thesis by (auto simp: lockout_new_def)
  qed
  moreover have "votes (double_lockouts vs) \<noteq> []"
  proof
    assume "votes (double_lockouts vs) = []"
    from arg_cong [OF this, of length] show False by (simp add: assms(3))
  qed
  ultimately show ?thesis by (simp add: vote_state_ok_def)
qed

lemma process_vote_ok:
  assumes "vote_state_ok vs"
  shows "vote_state_ok (process_vote v sh vs)"
proof (cases "accepts_vote v sh vs")
  case acc: True
  let ?rs = "remaining v vs"
  have T: "tower_ok (votes vs)" using assms by (simp add: vote_state_ok_def)
  obtain n where n: "?rs = take n (votes vs)" using pop_expired_loop_take by blast
  have rs: "tower_ok ?rs" using T n tower_ok_take by simp
  have below: "slot l < vote_slot v" if "l \<in> set (votes vs)" for l
    using that tower_slots_below [OF T acc] by simp
  note sub = subsetD [OF pop_expired_loop_subset]
  show ?thesis
  proof (cases "length ?rs = MAX_LOCKOUT_HISTORY")
    case True
    then obtain l ls where l: "?rs = l # ls" by (cases ?rs) (auto simp: MAX_LOCKOUT_HISTORY_def)
    have "slot l < slot l'" if "l' \<in> set ls" for l'
      using rs that by (simp add: tower_ok_def l)
    moreover have "length ls < MAX_LOCKOUT_HISTORY" using True l by simp
    moreover have "tower_ok ls" using tower_ok_tl [OF rs] l by simp
    moreover have "slot l' < vote_slot v" if "l' \<in> set (l # ls)" for l'
      using that below sub [of l' "vote_slot v" "votes vs"] l by simp
    ultimately show ?thesis
      unfolding process_vote_rooted [OF acc True] l
      by (intro vote_state_ok_double [of ls]) auto
  next
    case False
    then have len: "length ?rs < MAX_LOCKOUT_HISTORY" using rs by (simp add: tower_ok_def)
    have root: "r < vote_slot v \<and> (\<forall>l \<in> set ?rs. r < slot l)" if "root_slot vs = Some r" for r
    proof -
      have "votes vs \<noteq> []" "\<forall>l \<in> set (votes vs). r < slot l"
        using assms that by (auto simp: vote_state_ok_def)
      then show ?thesis using below sub by (metis last_in_set order.strict_trans)
    qed
    show ?thesis
      unfolding process_vote_pushed [OF acc False]
      by (rule vote_state_ok_double [OF rs len]) (use below sub root in auto)
  qed
qed (use assms in \<open>simp add: process_vote_ignored\<close>)

lemma process_vote_frame [simp]:
  "authorized_voter_pubkey (process_vote v sh vs) = authorized_voter_pubkey vs"
  "node_pubkey (process_vote v sh vs) = node_pubkey vs"
  "commission (process_vote v sh vs) = commission vs"
  by (simp_all add: process_vote_def pop_expired_votes_def Let_def)

lemma process_votes_frame [simp]:
  "authorized_voter_pubkey (process_votes vts sh vs) = authorized_voter_pubkey vs"
  "node_pubkey (process_votes vts sh vs) = node_pubkey vs"
  "commission (process_votes vts sh vs) = commission vs"
  by (induction vts arbitrary: vs) (simp_all add: process_votes_def)

section \<open>The processor\<close>

lemma signed_by_iff:
  "signed_by k a others \<longleftrightarrow> (\<exists>ka \<in> set (a # others). is_signer ka \<and> key ka = k)"
  by (auto simp: signed_by_def list_all_iff)

lemma authorize_voter_Ok:
  "authorize_voter c me others k = Ok me' \<Longrightarrow>
     \<exists>vs. keyed_state c me = Ok vs \<and> signed_by (authorized_voter_pubkey vs) me others \<and>
          keyed_set_state c (vs\<lparr>authorized_voter_pubkey := k\<rparr>) me = Ok me'"
  by (auto simp: authorize_voter_def split: if_splits)

lemma vote_initialize_account_Ok:
  "vote_initialize_account c me node comm = Ok me' \<Longrightarrow>
     \<exists>vs. keyed_state c me = Ok vs \<and> authorized_voter_pubkey vs = default_pubkey \<and>
          keyed_set_state c (vote_state_new (key me) node comm) me = Ok me'"
  by (auto simp: vote_initialize_account_def unsigned_key_def split: if_splits)

lemma process_votes_handler_iff:
  "process_votes_handler c shc me sha others vts = Ok me' \<longleftrightarrow>
     (\<exists>vs sh. keyed_state c me = Ok vs \<and> authorized_voter_pubkey vs \<noteq> default_pubkey \<and>
          key sha = slot_hashes_id \<and> keyed_state shc sha = Ok sh \<and>
          signed_by (authorized_voter_pubkey vs) me others \<and>
          keyed_set_state c (process_votes vts sh vs) me = Ok me')"
  by (auto simp: process_votes_handler_def slot_hashes_check_id_def unsigned_key_def split: if_splits)

text \<open>The effect of a vote instruction on the vote state, or none.\<close>

definition vote_effect ::
  "vote_instruction \<Rightarrow> pubkey \<Rightarrow> slot_hashes \<Rightarrow> vote_state \<Rightarrow> vote_state" where
  "vote_effect i self sh vs =
     (case i of
        VoteInitializeAccount node comm \<Rightarrow> vote_state_new self node comm
      | AuthorizeVoter k \<Rightarrow> vs\<lparr>authorized_voter_pubkey := k\<rparr>
      | VoteVotes vts \<Rightarrow> process_votes vts sh vs)"

lemma vote_process_Ok:
  assumes "vote_process_instruction C pid kas ix tick = Ok kas'"
  shows "\<exists>payer me rest i vs sh me'.
     kas = payer # me # rest \<and> deserialize (vote_instruction_codec C) ix = Some i \<and>
     keyed_state (vote_state_codec C) me = Ok vs \<and>
     keyed_set_state (vote_state_codec C) (vote_effect i (key me) sh vs) me = Ok me' \<and>
     kas' = payer # me' # rest \<and>
     (authorized_voter_pubkey vs \<noteq> default_pubkey \<longrightarrow>
        signed_by (authorized_voter_pubkey vs) me rest) \<and>
     (\<forall>vts. i = VoteVotes vts \<longrightarrow> rest \<noteq> [] \<and> key (hd rest) = slot_hashes_id \<and>
        keyed_state (slot_hashes_codec C) (hd rest) = Ok sh \<and>
        authorized_voter_pubkey vs \<noteq> default_pubkey)"
proof -
  from assms obtain payer me rest i me' where
    k: "kas = payer # me # rest" "deserialize (vote_instruction_codec C) ix = Some i"
      "kas' = payer # me' # rest"
    and r: "(case i of
              VoteInitializeAccount node comm \<Rightarrow>
                vote_initialize_account (vote_state_codec C) me node comm
            | AuthorizeVoter voter \<Rightarrow> authorize_voter (vote_state_codec C) me rest voter
            | VoteVotes vts \<Rightarrow>
                (case rest of
                   [] \<Rightarrow> Panic
                 | sha # others \<Rightarrow>
                     process_votes_handler (vote_state_codec C) (slot_hashes_codec C) me
                       sha others vts)) = Ok me'"
    by (auto simp: vote_process_instruction_def split: list.splits)
  show ?thesis
  proof (cases i)
    case (VoteInitializeAccount node comm)
    then show ?thesis
      using k r vote_initialize_account_Ok [of "vote_state_codec C" me node comm me']
      by (auto simp: vote_effect_def)
  next
    case (AuthorizeVoter voter)
    then show ?thesis
      using k r authorize_voter_Ok [of "vote_state_codec C" me rest voter me']
      by (auto simp: vote_effect_def)
  next
    case (VoteVotes vts)
    then obtain sha others where rest: "rest = sha # others"
      using r by (cases rest) auto
    then have "process_votes_handler (vote_state_codec C) (slot_hashes_codec C) me sha others vts = Ok me'"
      using r VoteVotes by simp
    from this [unfolded process_votes_handler_iff] show ?thesis
      using k VoteVotes rest by (fastforce simp: vote_effect_def signed_by_iff)
  qed
qed

interpretation vote: native_program "vote_process_instruction C"
  by unfold_locales
    (auto simp: same_keys_def dest!: vote_process_Ok keyed_set_state_frame)

section \<open>Properties\<close>

text \<open>The life of a vote state: created, voted on, handed to another voter.\<close>

inductive vote_reachable :: "vote_state \<Rightarrow> bool" where
  vote_new: "vote_reachable (vote_state_new k node comm)"
| vote_vote: "vote_reachable vs \<Longrightarrow> vote_reachable (process_vote v sh vs)"
| vote_authorize: "vote_reachable vs \<Longrightarrow> vote_reachable (vs\<lparr>authorized_voter_pubkey := k\<rparr>)"

lemma vote_reachable_ok: "vote_reachable vs \<Longrightarrow> vote_state_ok vs"
proof (induction rule: vote_reachable.induct)
  case (vote_vote vs v sh)
  then show ?case by (simp add: process_vote_ok)
qed (simp_all add: vote_state_ok_def vote_state_new_def)

lemma lockout_slots_bound:
  assumes "1 \<le> conf l" "conf l \<le> MAX_LOCKOUT_HISTORY"
  shows "unat (lockout_slots l) = 2 ^ conf l"
proof -
  have "(2::nat) ^ conf l < 2 ^ 64"
    using assms(2) by (intro power_strict_increasing) (auto simp: MAX_LOCKOUT_HISTORY_def)
  then have "unat (of_nat (2 ^ conf l) :: u64) = 2 ^ conf l"
    by (simp only: unat_of_nat) simp
  then show ?thesis by (simp add: lockout_slots_def INITIAL_LOCKOUT_def)
qed

text \<open>
  C20: the shape of the lockout tower. In every vote state that creation, votes and
  authorisations can produce there are at most 31 votes; from the oldest to the newest, slots
  strictly increase and confirmation counts strictly decrease; every vote has at least as
  many confirmations as there are votes from it to the top; the lockout is exactly two to
  the confirmation count, without wrap-around; and the root lies below every vote.
\<close>

theorem vote_tower_invariant:
  assumes "vote_reachable vs"
  shows "length (votes vs) \<le> 31 \<and>
    sorted_wrt (\<lambda>a b. slot a < slot b \<and> conf b < conf a) (votes vs) \<and>
    (\<forall>i < length (votes vs). length (votes vs) - i \<le> conf (votes vs ! i) \<and>
       unat (lockout_slots (votes vs ! i)) = 2 ^ conf (votes vs ! i)) \<and>
    (\<forall>r. root_slot vs = Some r \<longrightarrow> (\<forall>l \<in> set (votes vs). r < slot l))"
proof -
  have ok: "tower_ok (votes vs)" "\<forall>r. root_slot vs = Some r \<longrightarrow> (\<forall>l \<in> set (votes vs). r < slot l)"
    using vote_reachable_ok [OF assms] by (auto simp: vote_state_ok_def)
  have at: "length (votes vs) \<le> i + conf (votes vs ! i)" "1 \<le> conf (votes vs ! i)"
    "conf (votes vs ! i) \<le> MAX_LOCKOUT_HISTORY" if "i < length (votes vs)" for i
    using ok(1) that by (auto simp: tower_ok_def)
  have "slot (votes vs ! i) < slot (votes vs ! j) \<and> conf (votes vs ! j) < conf (votes vs ! i)"
    if "i < j" "j < length (votes vs)" for i j
  proof -
    have "j + conf (votes vs ! j) \<le> i + conf (votes vs ! i)" using ok(1) that by (auto simp: tower_ok_def)
    moreover have "slot (votes vs ! i) < slot (votes vs ! j)"
      using ok(1) that by (auto simp: tower_ok_def sorted_wrt_iff_nth_less)
    ultimately show ?thesis using that by linarith
  qed
  then have "sorted_wrt (\<lambda>a b. slot a < slot b \<and> conf b < conf a) (votes vs)"
    by (simp add: sorted_wrt_iff_nth_less)
  moreover have "\<forall>i < length (votes vs). length (votes vs) - i \<le> conf (votes vs ! i) \<and>
       unat (lockout_slots (votes vs ! i)) = 2 ^ conf (votes vs ! i)"
    using at by (auto simp: lockout_slots_bound le_diff_conv add.commute)
  moreover have "length (votes vs) \<le> 31" using ok(1) by (simp add: tower_ok_def MAX_LOCKOUT_HISTORY_def)
  ultimately show ?thesis using ok(2) by blast
qed

definition demo_vote_state :: vote_state where
  "demo_vote_state = (vote_state_new (demo_key 1) (demo_key 2) 0)
     \<lparr>votes := [\<lparr>slot = 5, confirmation_count = 2\<rparr>, \<lparr>slot = 6, confirmation_count = 1\<rparr>]\<rparr>"

lemma demo_vote_state_eq:
  "process_vote \<lparr>vote_slot = 6, vote_hash = default_hash\<rparr> [(6, default_hash)]
     (process_vote \<lparr>vote_slot = 5, vote_hash = default_hash\<rparr> [(5, default_hash)]
       (vote_state_new (demo_key 1) (demo_key 2) 0)) = demo_vote_state"
  by (simp add: demo_vote_state_def process_vote_def vote_state_new_def pop_expired_votes_def
      pop_expired_loop.simps [of _ "[]"] pop_expired_loop.simps [of _ "[_]"] is_expired_def
      expiration_slot_def lockout_slots_def INITIAL_LOCKOUT_def
      lockout_new_def double_lockouts_def MAX_LOCKOUT_HISTORY_def Let_def)

lemma demo_vote_state_reachable: "vote_reachable demo_vote_state"
  by (subst demo_vote_state_eq [symmetric]) (intro vote_vote vote_new)

theorem vote_tower_invariant_witness:
  "sorted_wrt (\<lambda>a b. slot a < slot b \<and> conf b < conf a) (votes demo_vote_state) \<and>
   votes demo_vote_state = [\<lparr>slot = 5, confirmation_count = 2\<rparr>, \<lparr>slot = 6, confirmation_count = 1\<rparr>]"
  using vote_tower_invariant [OF demo_vote_state_reachable] by (simp add: demo_vote_state_def)

text \<open>
  Rooting. A vote either leaves root and credits alone, or it roots the oldest vote of a full
  tower: the root becomes that vote's slot, which is above the old root, and the credits grow by
  one.
\<close>

theorem process_vote_root:
  assumes "vote_state_ok vs"
  shows "root_slot (process_vote v sh vs) = root_slot vs \<and> credits (process_vote v sh vs) = credits vs \<or>
    length (votes vs) = 31 \<and>
    root_slot (process_vote v sh vs) = Some (slot (hd (votes vs))) \<and>
    (\<forall>r. root_slot vs = Some r \<longrightarrow> r < slot (hd (votes vs))) \<and>
    credits (process_vote v sh vs) = credits vs + 1"
proof (cases "accepts_vote v sh vs \<and> length (remaining v vs) = MAX_LOCKOUT_HISTORY")
  case True
  obtain n where n: "remaining v vs = take n (votes vs)" using pop_expired_loop_take by blast
  have "length (votes vs) \<le> MAX_LOCKOUT_HISTORY" using assms by (simp add: vote_state_ok_def tower_ok_def)
  with True n have "remaining v vs = votes vs" by (auto simp: min_def split: if_splits)
  with True process_vote_rooted [of v sh vs] show ?thesis
    using assms by (auto simp: vote_state_ok_def MAX_LOCKOUT_HISTORY_def)
next
  case False
  then show ?thesis
    by (cases "accepts_vote v sh vs") (simp_all add: process_vote_pushed process_vote_ignored)
qed

theorem process_vote_root_witness:
  "root_slot (process_vote \<lparr>vote_slot = 7, vote_hash = default_hash\<rparr> [] demo_vote_state) = None"
  using process_vote_root [OF vote_reachable_ok [OF demo_vote_state_reachable],
      of "\<lparr>vote_slot = 7, vote_hash = default_hash\<rparr>" "[]"]
  by (simp add: demo_vote_state_def vote_state_new_def)

text \<open>A vote that is still locked out stays in the tower or becomes the root.\<close>

lemma process_vote_keeps:
  assumes "l \<in> set (votes vs)" "\<not> is_expired l (vote_slot v)"
  shows "slot l \<in> slot ` set (votes (process_vote v sh vs)) \<or>
         root_slot (process_vote v sh vs) = Some (slot l)"
proof (cases "accepts_vote v sh vs")
  case acc: True
  have l: "l \<in> set (remaining v vs)" using pop_expired_loop_drops [OF assms] .
  show ?thesis
  proof (cases "length (remaining v vs) = MAX_LOCKOUT_HISTORY")
    case True
    then show ?thesis
      using l by (cases "remaining v vs")
        (auto simp: process_vote_rooted [OF acc True] double_lockouts_slot_set)
  next
    case False
    then show ?thesis
      using l by (simp add: process_vote_pushed [OF acc False] double_lockouts_slot_set)
  qed
qed (use assms in \<open>simp add: process_vote_ignored\<close>)

text \<open>What an instruction may do to a vote account: the guards of its handler and the state it writes.\<close>

definition vote_allows ::
  "vote_codecs \<Rightarrow> vote_instruction \<Rightarrow> keyed_account \<Rightarrow> keyed_account list \<Rightarrow> vote_state \<Rightarrow> vote_state \<Rightarrow> bool" where
  "vote_allows C i me rest vs vs' \<longleftrightarrow>
     (case i of
        VoteInitializeAccount node comm \<Rightarrow>
          authorized_voter_pubkey vs = default_pubkey \<and> vs' = vote_state_new (key me) node comm
      | AuthorizeVoter k \<Rightarrow>
          (\<exists>ka \<in> set (me # rest). is_signer ka \<and> key ka = authorized_voter_pubkey vs) \<and>
          vs' = vs\<lparr>authorized_voter_pubkey := k\<rparr>
      | VoteVotes vts \<Rightarrow>
          (\<exists>slot_hashes_account others sh.
             rest = slot_hashes_account # others \<and> key slot_hashes_account = slot_hashes_id \<and>
             keyed_state (slot_hashes_codec C) slot_hashes_account = Ok sh \<and> authorized_voter_pubkey vs \<noteq> default_pubkey \<and>
             (\<exists>ka \<in> set (me # others). is_signer ka \<and> key ka = authorized_voter_pubkey vs) \<and>
             vs' = process_votes vts sh vs))"

lemma vote_allows_run:
  assumes "keyed_state (vote_state_codec C) me = Ok vs"
  shows "(case i of
      VoteInitializeAccount node comm \<Rightarrow> vote_initialize_account (vote_state_codec C) me node comm
    | AuthorizeVoter voter \<Rightarrow> authorize_voter (vote_state_codec C) me rest voter
    | VoteVotes vts \<Rightarrow>
        (case rest of
           [] \<Rightarrow> Panic
         | slot_hashes_account # other_signers \<Rightarrow>
             process_votes_handler (vote_state_codec C) (slot_hashes_codec C) me slot_hashes_account other_signers vts)) = Ok me' \<longleftrightarrow>
    (\<exists>vs'. vote_allows C i me rest vs vs' \<and> keyed_set_state (vote_state_codec C) vs' me = Ok me')"
proof (cases i)
  case (VoteInitializeAccount node comm)
  then show ?thesis using assms by (simp add: vote_allows_def vote_initialize_account_def unsigned_key_def)
next
  case (AuthorizeVoter voter)
  then show ?thesis using assms by (simp add: vote_allows_def authorize_voter_def signed_by_iff)
next
  case (VoteVotes vts)
  show ?thesis
  proof (cases rest)
    case (Cons sha others)
    then show ?thesis using assms VoteVotes by (auto simp: vote_allows_def process_votes_handler_iff signed_by_iff)
  qed (use VoteVotes in \<open>simp add: vote_allows_def\<close>)
qed

text \<open>
  C21: what a vote instruction does. It succeeds exactly when there are two accounts, the instruction and the state of the
  second account can be read, the instruction allows the change and the new state fits. Initialising is allowed on a state
  without an authorised voter; handing over the vote when the authorised voter signed; and voting when the account is initialised, the next account
  is the one of the slot hashes and can be read, and the authorised voter signed, which makes the tower that of the votes checked against those
  slot hashes. Then only the data of the second account has changed, and it holds the new state.
\<close>

theorem vote_process_authorized:
  assumes "codec_ok (vote_state_codec C)"
  shows "vote_process_instruction C pid kas ix tick = Ok kas' \<longleftrightarrow>
    (\<exists>payer me rest me' i vs vs'.
       kas = payer # me # rest \<and> kas' = payer # me' # rest \<and>
       deserialize (vote_instruction_codec C) ix = Some i \<and>
       keyed_state (vote_state_codec C) me = Ok vs \<and> vote_allows C i me rest vs vs' \<and>
       keyed_set_state (vote_state_codec C) vs' me = Ok me' \<and>
       account me' = (account me)\<lparr>data := data (account me')\<rparr> \<and> key me' = key me \<and>
       keyed_state (vote_state_codec C) me' = Ok vs')"
    (is "?run \<longleftrightarrow> ?spec")
proof
  assume run: ?run
  then obtain payer me rest i me' where
    k: "kas = payer # me # rest" "deserialize (vote_instruction_codec C) ix = Some i" "kas' = payer # me' # rest"
    and r: "(case i of
      VoteInitializeAccount node comm \<Rightarrow> vote_initialize_account (vote_state_codec C) me node comm
    | AuthorizeVoter voter \<Rightarrow> authorize_voter (vote_state_codec C) me rest voter
    | VoteVotes vts \<Rightarrow>
        (case rest of
           [] \<Rightarrow> Panic
         | slot_hashes_account # other_signers \<Rightarrow>
             process_votes_handler (vote_state_codec C) (slot_hashes_codec C) me slot_hashes_account other_signers vts)) = Ok me'"
    by (auto simp: vote_process_instruction_def split: list.splits)
  obtain vs where vs: "keyed_state (vote_state_codec C) me = Ok vs" using vote_process_Ok [OF run] k(1) by blast
  obtain vs' where vs': "vote_allows C i me rest vs vs'" "keyed_set_state (vote_state_codec C) vs' me = Ok me'"
    using r vote_allows_run [OF vs] by blast
  moreover have "account me' = (account me)\<lparr>data := data (account me')\<rparr>" "key me' = key me"
    using vs'(2) by (auto simp: keyed_set_state_Ok_iff)
  ultimately show ?spec using k vs keyed_state_set_state [OF assms vs'(2)] by blast
next
  assume ?spec
  then obtain payer me rest me' i vs vs' where
    k: "kas = payer # me # rest" "kas' = payer # me' # rest" "deserialize (vote_instruction_codec C) ix = Some i"
    and vs: "keyed_state (vote_state_codec C) me = Ok vs" "vote_allows C i me rest vs vs'" "keyed_set_state (vote_state_codec C) vs' me = Ok me'"
    by blast
  have "(case i of
      VoteInitializeAccount node comm \<Rightarrow> vote_initialize_account (vote_state_codec C) me node comm
    | AuthorizeVoter voter \<Rightarrow> authorize_voter (vote_state_codec C) me rest voter
    | VoteVotes vts \<Rightarrow>
        (case rest of
           [] \<Rightarrow> Panic
         | slot_hashes_account # other_signers \<Rightarrow>
             process_votes_handler (vote_state_codec C) (slot_hashes_codec C) me slot_hashes_account other_signers vts)) = Ok me'"
    using vote_allows_run [OF vs(1), where i = i and rest = rest and me' = me'] vs(2,3) by blast
  then show ?run by (simp add: k vote_process_instruction_def)
qed

definition demo_vote_codecs :: vote_codecs where
  "demo_vote_codecs = \<lparr>vote_state_codec = table_codec [demo_vote_state,
       demo_vote_state\<lparr>authorized_voter_pubkey := demo_key 7\<rparr>],
     slot_hashes_codec = table_codec [], vote_instruction_codec = table_codec [AuthorizeVoter (demo_key 7)]\<rparr>"

definition demo_vote_account :: "bool \<Rightarrow> u8 \<Rightarrow> keyed_account" where
  "demo_vote_account s b = keyed_account_new (demo_key 1) s ((account_new 1 0 1 vote_program_id)\<lparr>data := [b]\<rparr>)"

lemma demo_authorize:
  "vote_process_instruction demo_vote_codecs vote_program_id
     [demo_keyed True 3 10, demo_vote_account True 0] [0] 0 =
   Ok [demo_keyed True 3 10, demo_vote_account True 1]"
  by (simp add: vote_process_instruction_def demo_vote_codecs_def authorize_voter_def signed_by_def
      demo_vote_account_def keyed_account_new_def account_new_def keyed_state_def account_state_def
      keyed_set_state_def account_set_state_def table_codec_def demo_vote_state_def
      vote_state_new_def signer_key_def)

theorem vote_process_authorized_witness:
  "vote_process_instruction demo_vote_codecs vote_program_id [demo_keyed True 3 10, demo_vote_account True 0] [0] 0 =
     Ok [demo_keyed True 3 10, demo_vote_account True 1] \<and>
   (\<forall>kas'. vote_process_instruction demo_vote_codecs vote_program_id [demo_keyed True 3 10, demo_vote_account False 0] [0] 0 \<noteq> Ok kas')"
proof
  show "\<forall>kas'. vote_process_instruction demo_vote_codecs vote_program_id [demo_keyed True 3 10, demo_vote_account False 0] [0] 0 \<noteq> Ok kas'"
  proof
    fix kas'
    have "codec_ok (vote_state_codec demo_vote_codecs)" by (simp add: demo_vote_codecs_def table_codec_ok)
    moreover have "deserialize (vote_instruction_codec demo_vote_codecs) [0] = Some (AuthorizeVoter (demo_key 7))"
      by (simp add: demo_vote_codecs_def table_codec_def)
    ultimately show "vote_process_instruction demo_vote_codecs vote_program_id [demo_keyed True 3 10, demo_vote_account False 0] [0] 0 \<noteq> Ok kas'"
      using vote_process_authorized [of demo_vote_codecs vote_program_id "[demo_keyed True 3 10, demo_vote_account False 0]" "[0]" 0 kas']
      by (auto simp: vote_allows_def demo_vote_account_def keyed_account_new_def)
  qed
qed (rule demo_authorize)

end
