(* ===== verification/Epoch_Schedule.thy ===== *)
theory Epoch_Schedule
  imports Vote_Program Complex_Main "HOL-Library.Log_Nat"
begin

text \<open>
  The division of slots into epochs, \<^verbatim>\<open>src/runtime/src/epoch_schedule.rs\<close>: epochs of doubling length
  during the warm-up, then epochs of the configured length. \<open>next_power_of_two\<close>, \<open>trailing_zeros\<close>,
  \<open>pow\<close> and \<open>saturating_sub\<close> are those of the Rust standard library in a release build: a power
  that does not fit is 0.
\<close>

section \<open>Integer operations of the standard library\<close>

definition next_power_of_two :: "u64 \<Rightarrow> u64" where
  "next_power_of_two n = of_nat (2 ^ ceillog2 (unat n))"

definition trailing_zeros :: "u64 \<Rightarrow> u32" where
  "trailing_zeros w = of_nat (length (takeWhile (\<lambda>i. \<not> bit w i) [0..<64]))"

definition u64_pow :: "u64 \<Rightarrow> u32 \<Rightarrow> u64" where
  "u64_pow b n = b ^ unat n"

definition saturating_sub :: "'a::len word \<Rightarrow> 'a word \<Rightarrow> 'a word" where
  "saturating_sub a b = (if b \<le> a then a - b else 0)"

section \<open>The schedule\<close>

definition MINIMUM_SLOT_LENGTH :: u64 where
  "MINIMUM_SLOT_LENGTH = of_nat (MAX_LOCKOUT_HISTORY + 1)"

record epoch_schedule =
  slots_per_epoch :: u64
  stakers_slot_offset :: u64
  first_normal_epoch :: u64
  first_normal_slot :: u64

definition epoch_schedule_new :: "u64 \<Rightarrow> u64 \<Rightarrow> bool \<Rightarrow> ('e, epoch_schedule) res" where
  "epoch_schedule_new spe off warmup =
     (if spe < MINIMUM_SLOT_LENGTH then Panic
      else
        let (epoch, sl) =
          (if warmup then
             let np2 = next_power_of_two spe;
                 log2_slots = saturating_sub (trailing_zeros np2) (trailing_zeros MINIMUM_SLOT_LENGTH)
             in (ucast log2_slots, saturating_sub np2 MINIMUM_SLOT_LENGTH)
           else (0, 0))
        in Ok \<lparr>slots_per_epoch = spe, stakers_slot_offset = off, first_normal_epoch = epoch, first_normal_slot = sl\<rparr>)"

definition get_slots_in_epoch :: "epoch_schedule \<Rightarrow> u64 \<Rightarrow> u64" where
  "get_slots_in_epoch s epoch =
     (if epoch < first_normal_epoch s then u64_pow 2 (ucast epoch + trailing_zeros MINIMUM_SLOT_LENGTH)
      else slots_per_epoch s)"

definition get_epoch_and_slot_index :: "epoch_schedule \<Rightarrow> u64 \<Rightarrow> u64 \<times> u64" where
  "get_epoch_and_slot_index s sl =
     (if sl < first_normal_slot s then
        let epoch = trailing_zeros (next_power_of_two (sl + MINIMUM_SLOT_LENGTH + 1))
                      - trailing_zeros MINIMUM_SLOT_LENGTH - 1;
            epoch_len = u64_pow 2 (epoch + trailing_zeros MINIMUM_SLOT_LENGTH)
        in (ucast epoch, sl - (epoch_len - MINIMUM_SLOT_LENGTH))
      else
        (first_normal_epoch s + (sl - first_normal_slot s) div slots_per_epoch s,
         (sl - first_normal_slot s) mod slots_per_epoch s))"

definition get_stakers_epoch :: "epoch_schedule \<Rightarrow> u64 \<Rightarrow> u64" where
  "get_stakers_epoch s sl =
     (if sl < first_normal_slot s then fst (get_epoch_and_slot_index s sl) + 1
      else first_normal_epoch s + (sl - first_normal_slot s + stakers_slot_offset s) div slots_per_epoch s)"

definition get_first_slot_in_epoch :: "epoch_schedule \<Rightarrow> u64 \<Rightarrow> u64" where
  "get_first_slot_in_epoch s epoch =
     (if epoch \<le> first_normal_epoch s then (u64_pow 2 (ucast epoch) - 1) * MINIMUM_SLOT_LENGTH
      else (epoch - first_normal_epoch s) * slots_per_epoch s + first_normal_slot s)"

definition get_last_slot_in_epoch :: "epoch_schedule \<Rightarrow> u64 \<Rightarrow> u64" where
  "get_last_slot_in_epoch s epoch = get_first_slot_in_epoch s epoch + get_slots_in_epoch s epoch - 1"

section \<open>Slots and epochs\<close>

lemma MINIMUM_32: "MINIMUM_SLOT_LENGTH = 32"
  by (simp add: MINIMUM_SLOT_LENGTH_def MAX_LOCKOUT_HISTORY_def)

lemma takeWhile_below: "k \<le> n \<Longrightarrow> (\<And>i. i < k \<Longrightarrow> Q i) \<Longrightarrow> \<not> Q k \<or> k = n \<Longrightarrow> takeWhile Q [0..<n] = [0..<k]"
proof -
  assume k: "k \<le> n" and Q: "\<And>i. i < k \<Longrightarrow> Q i" and e: "\<not> Q k \<or> k = n"
  have "[0..<n] = [0..<k] @ [k..<n]" using k by (metis le_add_diff_inverse upt_add_eq_append zero_le)
  moreover have "takeWhile Q [k..<n] = []" using k e by (cases "k = n") (simp_all add: upt_conv_Cons)
  ultimately show ?thesis using Q by (simp add: takeWhile_append)
qed

lemma trailing_zeros_power: "k < 64 \<Longrightarrow> trailing_zeros (2 ^ k) = of_nat k"
  unfolding trailing_zeros_def by (subst takeWhile_below [of k]) (auto simp: bit_exp_iff)

lemma trailing_zeros_32: "trailing_zeros MINIMUM_SLOT_LENGTH = 5"
  using trailing_zeros_power [of 5] by (simp add: MINIMUM_32)

lemmas trailing_zeros_min [simp] = trailing_zeros_32 trailing_zeros_32 [unfolded MINIMUM_32]

lemma unat_power_2: "k < 64 \<Longrightarrow> unat (2 ^ k :: u64) = 2 ^ k"
proof -
  assume "k < 64"
  then have "(2 :: nat) ^ k < 2 ^ 64" by (intro power_strict_increasing) auto
  then show ?thesis using unat_of_nat [of "2 ^ k", where 'a = 64] by simp
qed

lemma unat_u64_pow2: "unat n < 64 \<Longrightarrow> unat (u64_pow 2 n) = 2 ^ unat n"
  by (simp add: u64_pow_def unat_power_2)

lemma next_power_of_two_spec:
  assumes "unat n \<le> 2 ^ 63"
  shows "next_power_of_two n = 2 ^ ceillog2 (unat n)" "ceillog2 (unat n) \<le> 63"
proof -
  show c: "ceillog2 (unat n) \<le> 63" using assms by (cases "unat n = 0") (simp_all add: ceillog2_le_iff)
  show "next_power_of_two n = 2 ^ ceillog2 (unat n)" by (simp add: next_power_of_two_def)
qed

lemma unat_ucast_u32: "unat (ucast (w :: u32) :: u64) = unat w"
proof -
  have "unat w < 2 ^ LENGTH(32)" by (rule unsigned_less)
  then have "unat w < 2 ^ 64" by simp
  then show ?thesis by (simp add: unsigned_ucast_eq take_bit_nat_eq_self_iff)
qed

lemma unat_ucast_u64: "unat w < 2 ^ 32 \<Longrightarrow> unat (ucast (w :: u64) :: u32) = unat w"
  by (simp add: unsigned_ucast_eq take_bit_nat_eq_self_iff)

lemma unat_warm_first:
  fixes x :: u64
  assumes "1 \<le> unat x" "unat x * 32 \<le> 2 ^ 64"
  shows "unat ((x - 1) * 32) = unat x * 32 - 32"
proof -
  have a: "unat (x - 1) = unat x - 1" using assms(1) by (simp add: unat_sub_le word_le_nat_alt)
  have "unat ((x - 1) * 32) = unat (x - 1) * unat (32 :: u64) mod 2 ^ LENGTH(64)" by (rule unat_word_ariths(2))
  also have "\<dots> = (unat x - 1) * 32 mod 2 ^ 64" by (simp only: a) simp
  also have "\<dots> = unat x * 32 - 32" using assms by (simp add: diff_mult_distrib)
  finally show ?thesis .
qed

text \<open>The two shapes of a schedule.\<close>

lemma epoch_schedule_new_cases:
  assumes "epoch_schedule_new spe off warmup = (Ok s :: ('e, epoch_schedule) res)" "unat spe \<le> 2 ^ 63"
  shows "slots_per_epoch s = spe \<and> stakers_slot_offset s = off \<and> 32 \<le> unat spe \<and>
    (\<exists>p. 5 \<le> p \<and> p \<le> 63 \<and> unat (first_normal_epoch s) = p - 5 \<and> unat (first_normal_slot s) = 2 ^ p - 32)"
proof -
  have spe: "32 \<le> unat spe" using assms(1)
    by (auto simp: epoch_schedule_new_def MINIMUM_32 word_less_nat_alt split: if_splits)
  show ?thesis
  proof (cases warmup)
    case False
    then show ?thesis using assms(1) spe
      by (auto simp: epoch_schedule_new_def split: if_splits intro!: exI [of _ 5])
  next
    case True
    let ?p = "ceillog2 (unat spe)"
    have p: "?p \<le> 63" "next_power_of_two spe = 2 ^ ?p" using next_power_of_two_spec [OF assms(2)] by simp_all
    have p5: "5 \<le> ?p" using spe by (subst ceillog2_ge_iff) auto
    have u: "unat (2 ^ ?p :: u64) = 2 ^ ?p" using p by (simp add: unat_power_2)
    have "(2 :: nat) ^ 5 \<le> 2 ^ ?p" using p5 by (intro power_increasing) auto
    then have "saturating_sub (2 ^ ?p) (32 :: u64) = 2 ^ ?p - 32 \<and> unat (2 ^ ?p - 32 :: u64) = 2 ^ ?p - 32"
      using u by (simp add: saturating_sub_def word_le_nat_alt unat_sub_le)
    moreover have "saturating_sub (of_nat ?p) (5 :: u32) = of_nat (?p - 5)"
      using p p5 by (simp add: saturating_sub_def word_le_nat_alt unat_of_nat of_nat_diff)
    moreover have "unat (ucast (of_nat (?p - 5) :: u32) :: u64) = ?p - 5"
      using p by (simp add: unat_ucast_u32 unat_of_nat)
    ultimately show ?thesis using assms(1) True spe p p5
      by (auto simp: epoch_schedule_new_def Let_def trailing_zeros_32 trailing_zeros_power MINIMUM_32
          split: if_splits intro!: exI [of _ ?p])
  qed
qed

text \<open>
  The schedule over the natural numbers: the length and the first slot of every epoch, when the warm-up
  ends at slot \<open>2 ^ p - 32\<close>.
\<close>

definition epoch_len :: "nat \<Rightarrow> nat \<Rightarrow> nat \<Rightarrow> nat" where
  "epoch_len p spe e = (if e < p - 5 then 2 ^ (e + 5) else spe)"

definition epoch_first :: "nat \<Rightarrow> nat \<Rightarrow> nat \<Rightarrow> nat" where
  "epoch_first p spe e = (if e < p - 5 then 2 ^ (e + 5) - 32 else 2 ^ p - 32 + (e - (p - 5)) * spe)"

definition sched_ok :: "epoch_schedule \<Rightarrow> nat \<Rightarrow> bool" where
  "sched_ok s p \<longleftrightarrow> 32 \<le> unat (slots_per_epoch s) \<and> 5 \<le> p \<and> p \<le> 63 \<and>
     unat (first_normal_epoch s) = p - 5 \<and> unat (first_normal_slot s) = 2 ^ p - 32"

lemma sched_ok_new:
  "epoch_schedule_new spe off warmup = (Ok s :: ('e, epoch_schedule) res) \<Longrightarrow> unat spe \<le> 2 ^ 63 \<Longrightarrow>
     slots_per_epoch s = spe \<and> (\<exists>p. sched_ok s p)"
  using epoch_schedule_new_cases [of spe off warmup s] unfolding sched_ok_def by blast

lemma two_power_5: "5 \<le> k \<Longrightarrow> (2 :: nat) ^ (k - 5) * 32 = 2 ^ k \<and> (32 :: nat) \<le> 2 ^ k"
proof -
  assume k: "5 \<le> k"
  then have "(2 :: nat) ^ (k - 5) * 2 ^ 5 = 2 ^ k" by (simp only: power_add [symmetric] le_add_diff_inverse2)
  then show ?thesis using power_increasing [OF k, of "2 :: nat"] by simp
qed

lemma epoch_first_Suc:
  assumes "5 \<le> p"
  shows "epoch_first p spe (Suc e) = epoch_first p spe e + epoch_len p spe e"
proof (cases "Suc e < p - 5")
  case True
  have "(32 :: nat) \<le> 2 ^ (e + 5)" using two_power_5 [of "e + 5"] by simp
  moreover have "(2 :: nat) ^ (Suc e + 5) = 2 ^ (e + 5) + 2 ^ (e + 5)" by (simp only: add_Suc power_Suc mult_2)
  ultimately show ?thesis using True by (simp add: epoch_first_def epoch_len_def)
next
  case False
  then consider "Suc e = p - 5" | "p - 5 \<le> e" by linarith
  then show ?thesis
  proof cases
    case 1
    then have "p = Suc (e + 5)" by simp
    moreover have "(32 :: nat) \<le> 2 ^ (e + 5)" using two_power_5 [of "e + 5"] by simp
    moreover have "(2 :: nat) ^ (6 + e) = 2 ^ (e + 5) + 2 ^ (e + 5)" by (simp add: power_add)
    ultimately show ?thesis by (simp add: epoch_first_def epoch_len_def)
  next
    case 2
    then show ?thesis by (simp add: epoch_first_def epoch_len_def Suc_diff_le)
  qed
qed

lemma epoch_first_mono: "5 \<le> p \<Longrightarrow> e \<le> e' \<Longrightarrow> epoch_first p spe e \<le> epoch_first p spe e'"
  by (rule lift_Suc_mono_le) (simp_all add: epoch_first_Suc)

text \<open>A slot lies in one epoch.\<close>

lemma epoch_unique:
  assumes "5 \<le> p" "epoch_first p spe e + i = epoch_first p spe e' + i'" "i < epoch_len p spe e" "i' < epoch_len p spe e'"
  shows "e = e' \<and> i = i'"
proof -
  have "\<not> a < b" if "epoch_first p spe a + j = epoch_first p spe b + k" "j < epoch_len p spe a" for a b j k
    using that epoch_first_mono [OF assms(1), of "Suc a" b spe] by (auto simp: epoch_first_Suc [OF assms(1)])
  from this [OF assms(2,3)] this [OF assms(2) [symmetric] assms(4)] have "e = e'" by simp
  then show ?thesis using assms(2) by simp
qed

lemma get_slots_in_epoch_nat:
  assumes "sched_ok s p"
  shows "unat (get_slots_in_epoch s e) = epoch_len p (unat (slots_per_epoch s)) (unat e)"
proof (cases "e < first_normal_epoch s")
  case True
  then have e: "unat e < p - 5" using assms by (simp add: sched_ok_def word_less_nat_alt)
  have p: "p \<le> 63" using assms by (simp add: sched_ok_def)
  have "unat (ucast e :: u32) = unat e" using e p by (simp add: unat_ucast_u64)
  then have "unat (ucast e + 5 :: u32) = unat e + 5" using e p by (simp add: unat_word_ariths)
  then show ?thesis using True e p unat_u64_pow2 [of "ucast e + 5"]
    by (simp add: get_slots_in_epoch_def trailing_zeros_32 epoch_len_def)
next
  case False
  then have "\<not> unat e < p - 5" using assms by (simp add: sched_ok_def word_less_nat_alt)
  then show ?thesis using False by (simp add: get_slots_in_epoch_def epoch_len_def)
qed

lemma get_first_slot_warm:
  assumes "sched_ok s p" "unat e \<le> p - 5"
  shows "unat (get_first_slot_in_epoch s e) = 2 ^ (unat e + 5) - 32"
proof -
  have p: "5 \<le> p" "p \<le> 63" and le: "e \<le> first_normal_epoch s" using assms by (simp_all add: sched_ok_def word_le_nat_alt)
  have ucast: "unat (ucast e :: u32) = unat e" using assms(2) p by (simp add: unat_ucast_u64)
  then have pe: "unat (u64_pow 2 (ucast e)) = 2 ^ unat e" using unat_u64_pow2 [of "ucast e"] assms(2) p by simp
  have "(2 :: nat) ^ unat e * 32 = 2 ^ (unat e + 5)" using two_power_5 [of "unat e + 5"] by simp
  moreover have "(2 :: nat) ^ (unat e + 5) \<le> 2 ^ 64" using assms(2) p by (intro power_increasing) auto
  ultimately have "unat ((u64_pow 2 (ucast e) - 1) * 32) = 2 ^ (unat e + 5) - 32"
    using unat_warm_first [of "u64_pow 2 (ucast e)"] pe by simp
  then show ?thesis using le by (simp only: get_first_slot_in_epoch_def MINIMUM_32 if_True)
qed

lemma get_first_slot_nat:
  assumes "sched_ok s p" "epoch_first p (unat (slots_per_epoch s)) (unat e) < 2 ^ 64"
  shows "unat (get_first_slot_in_epoch s e) = epoch_first p (unat (slots_per_epoch s)) (unat e)"
proof (cases "unat e \<le> p - 5")
  case True
  have "5 \<le> p" using assms(1) by (simp add: sched_ok_def)
  then show ?thesis using True get_first_slot_warm [OF assms(1) True] by (auto simp: epoch_first_def)
next
  case False
  have s: "unat (first_normal_epoch s) = p - 5" "unat (first_normal_slot s) = 2 ^ p - 32" using assms(1) by (simp_all add: sched_ok_def)
  have gt: "\<not> e \<le> first_normal_epoch s" using False s by (simp add: word_le_nat_alt)
  have d: "unat (e - first_normal_epoch s) = unat e - (p - 5)" using False s by (simp add: unat_sub_le word_le_nat_alt)
  have lt: "(unat e - (p - 5)) * unat (slots_per_epoch s) + (2 ^ p - 32) < 2 ^ 64"
    using assms(2) False by (simp add: epoch_first_def add.commute)
  then have "(unat e - (p - 5)) * unat (slots_per_epoch s) < 2 ^ 64" by linarith
  then have "unat ((e - first_normal_epoch s) * slots_per_epoch s) = (unat e - (p - 5)) * unat (slots_per_epoch s)"
    by (simp add: unat_word_ariths d)
  then show ?thesis using gt lt s False by (simp add: get_first_slot_in_epoch_def unat_plus_no_overflow epoch_first_def)
qed

lemma epoch_index_warm:
  assumes "sched_ok s p" "sl < first_normal_slot s" "get_epoch_and_slot_index s sl = (e, i)"
  shows "unat sl = epoch_first p (unat (slots_per_epoch s)) (unat e) + unat i \<and> unat i < epoch_len p (unat (slots_per_epoch s)) (unat e)"
proof -
  let ?n = "sl + MINIMUM_SLOT_LENGTH + 1" and ?c = "ceillog2 (unat sl + 33)"
  have p: "5 \<le> p" "p \<le> 63" and sl: "unat sl < 2 ^ p - 32" using assms(1,2) by (simp_all add: sched_ok_def word_less_nat_alt)
  have p63: "(2 :: nat) ^ p \<le> 2 ^ 63" using p by (intro power_increasing) auto
  have n: "unat ?n = unat sl + 33" using sl p63 by (simp add: MINIMUM_32 unat_word_ariths)
  have c: "2 ^ ?c < 2 * (unat sl + 33)" "unat sl + 33 \<le> 2 ^ ?c"
    using two_power_ceillog2_gt [of "unat sl + 33"] le_two_power_ceillog2 [of "unat sl + 33"] by simp_all
  have c6: "6 \<le> ?c" by (subst ceillog2_ge_iff) auto
  have cp: "?c \<le> p" using sl by (subst ceillog2_le_iff) auto
  have tz: "trailing_zeros (next_power_of_two ?n) = of_nat ?c"
    using next_power_of_two_spec [of ?n] n sl p63 cp p(2) by (simp add: trailing_zeros_power)
  define ep where "ep = trailing_zeros (next_power_of_two ?n) - trailing_zeros MINIMUM_SLOT_LENGTH - 1"
  have ep: "ep = of_nat (?c - 6)" using c6 by (simp add: ep_def tz trailing_zeros_32 of_nat_diff)
  have ue: "unat ep = ?c - 6" unfolding ep using cp p(2) by (simp add: unat_of_nat)
  have e: "e = ucast ep" "i = sl - (u64_pow 2 (ep + 5) - 32)"
    using assms(2,3) by (simp_all add: get_epoch_and_slot_index_def Let_def ep_def MINIMUM_32)
  have une: "unat e = ?c - 6" unfolding e unat_ucast_u32 by (rule ue)
  have u5: "unat (ep + 5) = ?c - 1" using ue cp p(2) c6 by (simp add: unat_word_ariths)
  obtain x where x: "x = (2 :: nat) ^ (?c - 1)" by simp
  have half: "(2 :: nat) ^ ?c = 2 * x" using c6 x by (cases ?c) simp_all
  have x32: "32 \<le> x" using two_power_5 [of "?c - 1"] c6 x by simp
  have "unat (u64_pow 2 (ep + 5)) = x" using unat_u64_pow2 [of "ep + 5"] u5 cp p(2) x by simp
  then have up: "unat (u64_pow 2 (ep + 5) - 32) = x - 32" using x32 by (simp add: unat_sub_le word_le_nat_alt)
  have "unat i = unat sl - (x - 32)" using up c half x32 by (simp add: e unat_sub_le word_le_nat_alt)
  moreover have "unat e < p - 5" "2 ^ (unat e + 5) = x" using une c6 cp x by simp_all
  ultimately show ?thesis using c half x32 by (auto simp: epoch_first_def epoch_len_def)
qed

lemma epoch_index_normal:
  assumes "sched_ok s p" "\<not> sl < first_normal_slot s" "get_epoch_and_slot_index s sl = (e, i)"
  shows "unat sl = epoch_first p (unat (slots_per_epoch s)) (unat e) + unat i \<and> unat i < epoch_len p (unat (slots_per_epoch s)) (unat e)"
proof -
  let ?d = "sl - first_normal_slot s" and ?spe = "slots_per_epoch s"
  have s: "32 \<le> unat ?spe" "p \<le> 63" "unat (first_normal_epoch s) = p - 5" "unat (first_normal_slot s) = 2 ^ p - 32"
    using assms(1) by (simp_all add: sched_ok_def)
  have d: "unat ?d = unat sl - (2 ^ p - 32)" "2 ^ p - 32 \<le> unat sl"
    using assms(2) s by (simp_all add: unat_sub_le not_less word_le_nat_alt)
  have e: "e = first_normal_epoch s + ?d div ?spe" "i = ?d mod ?spe"
    using assms(2,3) by (simp_all add: get_epoch_and_slot_index_def)
  let ?q = "unat ?d div unat ?spe"
  have "?q \<le> unat ?d div 32" using s(1) by (intro div_le_mono2) auto
  moreover have "unat ?d < 2 ^ LENGTH(64)" by (rule unsigned_less)
  ultimately have "?q < 2 ^ 60" by simp
  then have ue: "unat e = (p - 5) + ?q" using s(2,3) by (simp add: e unat_word_ariths unat_div)
  have i: "unat i = unat ?d mod unat ?spe" by (simp add: e unat_mod)
  have "?q * unat ?spe + unat i + (2 ^ p - 32) = unat sl" using d i by simp
  moreover have "unat i < unat ?spe" using i s(1) by simp
  ultimately show ?thesis using ue by (simp add: epoch_first_def epoch_len_def)
qed

lemma epoch_index_nat:
  assumes "sched_ok s p" "get_epoch_and_slot_index s sl = (e, i)"
  shows "unat sl = epoch_first p (unat (slots_per_epoch s)) (unat e) + unat i \<and> unat i < epoch_len p (unat (slots_per_epoch s)) (unat e)"
  using epoch_index_warm [OF assms(1) _ assms(2)] epoch_index_normal [OF assms(1) _ assms(2)] by blast

text \<open>
  C30: slots and epochs correspond. In every schedule with at most \<open>2 ^ 63\<close> slots per epoch, the epoch and the offset computed for a slot
  name that slot: the offset is below the length of the epoch, and the first slot of the epoch plus
  the offset is the slot again, in the warm-up and after it, without wrap-around.
\<close>

theorem epoch_schedule_roundtrip:
  assumes "epoch_schedule_new spe off warmup = (Ok s :: ('e, epoch_schedule) res)" "unat spe \<le> 2 ^ 63"
    "get_epoch_and_slot_index s sl = (e, i)"
  shows "unat (get_first_slot_in_epoch s e) + unat i = unat sl \<and> i < get_slots_in_epoch s e"
proof -
  obtain p where p: "sched_ok s p" using sched_ok_new [OF assms(1,2)] by blast
  note n = epoch_index_nat [OF p assms(3)]
  have "unat sl < 2 ^ LENGTH(64)" by (rule unsigned_less)
  then have "epoch_first p (unat (slots_per_epoch s)) (unat e) < 2 ^ 64" using n by simp
  from get_first_slot_nat [OF p this] n show ?thesis by (simp add: word_less_nat_alt get_slots_in_epoch_nat [OF p])
qed

lemma demo_schedule:
  "epoch_schedule_new 256 256 True =
     (Ok \<lparr>slots_per_epoch = 256, stakers_slot_offset = 256, first_normal_epoch = 3, first_normal_slot = 224\<rparr> :: (unit, epoch_schedule) res)"
proof -
  have "ceillog2 256 = 8" using ceillog2_2_power [of 8] by simp
  then show ?thesis
    using trailing_zeros_power [of 8]
    by (simp add: epoch_schedule_new_def MINIMUM_32 next_power_of_two_def saturating_sub_def Let_def)
qed

theorem epoch_schedule_roundtrip_witness:
  "get_epoch_and_slot_index \<lparr>slots_per_epoch = 256, stakers_slot_offset = 256, first_normal_epoch = 3, first_normal_slot = 224\<rparr> 500 = (4, 20) \<and>
   unat (get_first_slot_in_epoch \<lparr>slots_per_epoch = 256, stakers_slot_offset = 256, first_normal_epoch = 3, first_normal_slot = 224\<rparr> 4) + 20 = 500"
proof -
  let ?s = "\<lparr>slots_per_epoch = 256, stakers_slot_offset = 256, first_normal_epoch = 3, first_normal_slot = 224\<rparr>"
  have e: "get_epoch_and_slot_index ?s 500 = (4, 20)" by (simp add: get_epoch_and_slot_index_def)
  from epoch_schedule_roundtrip [OF demo_schedule _ e] e show ?thesis by simp
qed

end
