(* ===== verification/Stake_Program.thy ===== *)
theory Stake_Program
  imports Vote_Program Complex_Main
begin

text \<open>
  The stake program, \<^verbatim>\<open>src/controllers/stake_api/src\<close>: delegation of a stake to a vote account
  and the redemption of vote credits from a mining pool (\<^verbatim>\<open>stake_state.rs\<close>), the instructions and
  the processor (\<^verbatim>\<open>stake_instruction.rs\<close>). Reward amounts are computed in 64-bit floats, which are
  the parameter \<open>F\<close>: what is proved holds for every float arithmetic.
\<close>

section \<open>Stake state\<close>

definition stake_program_id :: pubkey where
  "stake_program_id = Pubkey
     [6, 161, 216, 23, 145, 55, 84, 42, 152, 52, 55, 189, 254, 42, 122, 178, 85, 127, 83, 92, 138,
      120, 114, 43, 104, 164, 157, 192, 0, 0, 0, 0]"

datatype stake_state =
    Uninitialized
  | Delegate pubkey u64
  | MiningPool

definition default_stake_state :: stake_state where
  "default_stake_state = Uninitialized"

text \<open>\<open>std::mem::size_of::<StakeState>()\<close>: a key, a counter and an 8-byte aligned tag.\<close>

definition stake_state_size :: nat where
  "stake_state_size = 48"

definition CREDITS_PER_YEAR :: "'f f64_ops \<Rightarrow> 'f" where
  "CREDITS_PER_YEAR F =
     f64_div F (f64_mul F (f64_mul F (f64_mul F (f64_of_u64 F 365) (f64_of_u64 F 24)) (f64_of_u64 F 3600))
       (f64_of_u64 F 10)) (f64_of_u64 F 8)"

text \<open>The literal \<open>0.20\<close>: the float nearest to one fifth.\<close>

definition STAKE_REWARD_TARGET_RATE :: "'f f64_ops \<Rightarrow> 'f" where
  "STAKE_REWARD_TARGET_RATE F = f64_div F (f64_of_u64 F 1) (f64_of_u64 F 5)"

definition stake_state_from :: "stake_state codec \<Rightarrow> account \<Rightarrow> stake_state option" where
  "stake_state_from c a = (case account_state c a of Ok x \<Rightarrow> Some x | _ \<Rightarrow> None)"

fun voter_pubkey :: "stake_state \<Rightarrow> pubkey option" where
  "voter_pubkey (Delegate k _) = Some k"
| "voter_pubkey _ = None"

definition voter_pubkey_from :: "stake_state codec \<Rightarrow> account \<Rightarrow> pubkey option" where
  "voter_pubkey_from c a = Option.bind (stake_state_from c a) voter_pubkey"

definition calculate_rewards ::
  "'f f64_ops \<Rightarrow> u64 \<Rightarrow> u64 \<Rightarrow> vote_state \<Rightarrow> (u64 \<times> u64) option" where
  "calculate_rewards F credits_observed stake vs =
     (if credits_observed \<ge> credits vs then None
      else
        let total_rewards = f64_div F (f64_mul F (f64_mul F (f64_of_u64 F stake)
              (STAKE_REWARD_TARGET_RATE F)) (f64_of_u64 F (credits vs - credits_observed)))
              (CREDITS_PER_YEAR F)
        in if f64_lt F total_rewards (f64_one F) then None
           else
             let (voter_rewards, staker_rewards, is_split) = commission_split F vs total_rewards
             in if (f64_lt F voter_rewards (f64_one F) \<or> f64_lt F staker_rewards (f64_one F)) \<and> is_split
                then None
                else Some (f64_to_u64 F voter_rewards, f64_to_u64 F staker_rewards))"

section \<open>Handlers\<close>

definition initialize_mining_pool ::
  "stake_state codec \<Rightarrow> keyed_account \<Rightarrow> keyed_account ix_result" where
  "initialize_mining_pool c me =
     res_bind (keyed_state c me) (\<lambda>st.
       if st = Uninitialized then keyed_set_state c MiningPool me else Err InvalidAccountData)"

definition initialize_delegate ::
  "stake_state codec \<Rightarrow> keyed_account \<Rightarrow> keyed_account ix_result" where
  "initialize_delegate c me =
     res_bind (keyed_state c me) (\<lambda>st.
       if st = Uninitialized then keyed_set_state c (Delegate default_pubkey 0) me
       else Err InvalidAccountData)"

definition delegate_stake ::
  "stake_state codec \<Rightarrow> vote_state codec \<Rightarrow> keyed_account \<Rightarrow> keyed_account \<Rightarrow> keyed_account ix_result" where
  "delegate_stake c vc me vote_account =
     (if signer_key me = None then Err MissingRequiredSignature
      else res_bind (keyed_state c me) (\<lambda>st.
        case st of
          Delegate _ _ \<Rightarrow>
            res_bind (keyed_state vc vote_account) (\<lambda>vs.
              keyed_set_state c (Delegate (unsigned_key vote_account) (credits vs)) me)
        | _ \<Rightarrow> Err InvalidAccountData))"

definition redeem_vote_credits ::
  "'f f64_ops \<Rightarrow> stake_state codec \<Rightarrow> vote_state codec \<Rightarrow> keyed_account \<Rightarrow> keyed_account \<Rightarrow> keyed_account \<Rightarrow>
     (keyed_account \<times> keyed_account \<times> keyed_account) ix_result" where
  "redeem_vote_credits F c vc me stake_account vote_account =
     res_bind (keyed_state c me) (\<lambda>pool.
     res_bind (keyed_state c stake_account) (\<lambda>st.
       case (pool, st) of
         (MiningPool, Delegate voter credits_observed) \<Rightarrow>
           res_bind (keyed_state vc vote_account) (\<lambda>vs.
             if voter \<noteq> unsigned_key vote_account then Err InvalidArgument
             else if credits_observed > credits vs then Err InvalidAccountData
             else case calculate_rewards F credits_observed (difs (account stake_account)) vs of
               Some (stakers_reward, voters_reward) \<Rightarrow>
                 if difs (account me) < stakers_reward + voters_reward then Err UnbalancedInstruction
                 else
                   let me = me\<lparr>account := sub_difs (stakers_reward + voters_reward) (account me)\<rparr>;
                       stake_account =
                         stake_account\<lparr>account := add_difs stakers_reward (account stake_account)\<rparr>;
                       vote_account =
                         vote_account\<lparr>account := add_difs voters_reward (account vote_account)\<rparr>
                   in res_bind (keyed_set_state c (Delegate voter (credits vs)) stake_account)
                        (\<lambda>stake_account. Ok (me, stake_account, vote_account))
             | None \<Rightarrow> Err (CustomError 1))
       | _ \<Rightarrow> Err InvalidAccountData))"

definition create_delegate_stake_account ::
  "stake_state codec \<Rightarrow> pubkey \<Rightarrow> vote_state \<Rightarrow> u64 \<Rightarrow> ('e, account) res" where
  "create_delegate_stake_account c voter vs d =
     unwrap_res (account_set_state c (Delegate voter (credits vs))
       (account_new d 0 stake_state_size stake_program_id))"

section \<open>Instructions and the processor\<close>

datatype stake_instruction =
    InitializeDelegate
  | InitializeMiningPool
  | DelegateStake
  | RedeemVoteCredits

definition create_stake_account_ixs ::
  "system_instruction codec \<Rightarrow> stake_instruction codec \<Rightarrow> stake_instruction \<Rightarrow> pubkey \<Rightarrow> pubkey \<Rightarrow> u64 \<Rightarrow>
     ('e, instruction list) res" where
  "create_stake_account_ixs sc c init from staker d =
     res_bind (system_create_account sc from staker d (of_nat stake_state_size) stake_program_id) (\<lambda>a.
     res_bind (instruction_new c stake_program_id init
                 [account_meta_new from True, account_meta_new staker False]) (\<lambda>b. Ok [a, b]))"

definition create_delegate_account ::
  "system_instruction codec \<Rightarrow> stake_instruction codec \<Rightarrow> pubkey \<Rightarrow> pubkey \<Rightarrow> u64 \<Rightarrow>
     ('e, instruction list) res" where
  "create_delegate_account sc c from staker d = create_stake_account_ixs sc c InitializeDelegate from staker d"

definition create_mining_pool_account ::
  "system_instruction codec \<Rightarrow> stake_instruction codec \<Rightarrow> pubkey \<Rightarrow> pubkey \<Rightarrow> u64 \<Rightarrow>
     ('e, instruction list) res" where
  "create_mining_pool_account sc c from staker d =
     create_stake_account_ixs sc c InitializeMiningPool from staker d"

definition redeem_vote_credits_ix ::
  "stake_instruction codec \<Rightarrow> pubkey \<Rightarrow> pubkey \<Rightarrow> pubkey \<Rightarrow> pubkey \<Rightarrow> ('e, instruction) res" where
  "redeem_vote_credits_ix c from mining_pool stake vote_pubkey =
     instruction_new c stake_program_id RedeemVoteCredits
       [account_meta_new from True, account_meta_new mining_pool False, account_meta_new stake False,
        account_meta_new vote_pubkey False]"

definition delegate_stake_ix ::
  "stake_instruction codec \<Rightarrow> pubkey \<Rightarrow> pubkey \<Rightarrow> pubkey \<Rightarrow> ('e, instruction) res" where
  "delegate_stake_ix c from stake vote_pubkey =
     instruction_new c stake_program_id DelegateStake
       [account_meta_new from True, account_meta_new stake True, account_meta_new vote_pubkey False]"

record stake_codecs =
  stake_state_codec :: "stake_state codec"
  stake_vote_codec :: "vote_state codec"
  stake_instruction_codec :: "stake_instruction codec"

definition stake_process_instruction :: "'f f64_ops \<Rightarrow> stake_codecs \<Rightarrow> process_instruction" where
  "stake_process_instruction F C program_id kas ix tick_height =
     (case kas of
        payer # me # rest \<Rightarrow>
          res_bind (ok_or InvalidInstructionData (deserialize (stake_instruction_codec C) ix)) (\<lambda>i.
            case i of
              InitializeMiningPool \<Rightarrow>
                if rest \<noteq> [] then Err InvalidInstructionData
                else res_bind (initialize_mining_pool (stake_state_codec C) me) (\<lambda>me. Ok (payer # me # rest))
            | InitializeDelegate \<Rightarrow>
                if rest \<noteq> [] then Err InvalidInstructionData
                else res_bind (initialize_delegate (stake_state_codec C) me) (\<lambda>me. Ok (payer # me # rest))
            | DelegateStake \<Rightarrow>
                (case rest of
                   [vote_account] \<Rightarrow>
                     res_bind (delegate_stake (stake_state_codec C) (stake_vote_codec C) me vote_account)
                       (\<lambda>me. Ok (payer # me # rest))
                 | _ \<Rightarrow> Err InvalidInstructionData)
            | RedeemVoteCredits \<Rightarrow>
                (case rest of
                   [stake, vote_account] \<Rightarrow>
                     res_bind (redeem_vote_credits F (stake_state_codec C) (stake_vote_codec C) me stake
                       vote_account) (\<lambda>(me, stake, vote_account). Ok [payer, me, stake, vote_account])
                 | _ \<Rightarrow> Err InvalidInstructionData))
      | _ \<Rightarrow> Err InvalidInstructionData)"

section \<open>Lemmas\<close>

lemma calculate_rewards_None: "credits vs \<le> co \<Longrightarrow> calculate_rewards F co st vs = None"
  by (simp add: calculate_rewards_def)

lemma redeem_vote_credits_Ok:
  assumes "redeem_vote_credits F c vc me st vt = Ok (me', st', vt')"
  shows "\<exists>co vs s v d.
     keyed_state c me = Ok MiningPool \<and> keyed_state c st = Ok (Delegate (key vt) co) \<and>
     keyed_state vc vt = Ok vs \<and> co < credits vs \<and>
     calculate_rewards F co (difs (account st)) vs = Some (s, v) \<and>
     s + v \<le> difs (account me) \<and>
     me' = me\<lparr>account := sub_difs (s + v) (account me)\<rparr> \<and>
     serialize_into c (Delegate (key vt) (credits vs)) (data (account st)) = Inr d \<and>
     st' = st\<lparr>account := (add_difs s (account st))\<lparr>data := d\<rparr>\<rparr> \<and>
     vt' = vt\<lparr>account := add_difs v (account vt)\<rparr>"
proof -
  have co: "co < credits vs" if "calculate_rewards F co x vs = Some p" for co x vs p
    using that by (auto simp: calculate_rewards_def split: if_splits)
  from assms obtain pool sst where
    p: "keyed_state c me = Ok pool" and s: "keyed_state c st = Ok sst"
    by (auto simp: redeem_vote_credits_def)
  then obtain voter obs where ps: "pool = MiningPool" "sst = Delegate voter obs"
    using assms by (cases pool; cases sst) (simp_all add: redeem_vote_credits_def)
  then obtain vs where vs: "keyed_state vc vt = Ok vs"
    using assms p s by (auto simp: redeem_vote_credits_def)
  note r = assms [unfolded redeem_vote_credits_def p s ps vs, simplified]
  from r obtain sr vr where cr: "calculate_rewards F obs (difs (account st)) vs = Some (sr, vr)"
    by (auto split: if_splits option.splits)
  show ?thesis
    using r p s vs cr co [OF cr] unfolding ps
    by (auto simp: keyed_set_state_Ok_iff unsigned_key_def Let_def not_less split: if_splits)
qed

lemma delegate_stake_Ok:
  assumes "delegate_stake c vc me vt = Ok me'"
  shows "is_signer me \<and> (\<exists>k co vs. keyed_state c me = Ok (Delegate k co) \<and> keyed_state vc vt = Ok vs \<and>
           keyed_set_state c (Delegate (key vt) (credits vs)) me = Ok me')"
proof -
  from assms obtain st where st: "is_signer me" "keyed_state c me = Ok st"
    by (auto simp: delegate_stake_def split: if_splits)
  with assms show ?thesis
    by (cases st) (auto simp: delegate_stake_def unsigned_key_def)
qed

lemma stake_process_Ok:
  assumes "stake_process_instruction F C pid kas ix tick = Ok kas'"
  shows "(\<exists>payer me rest me' st.
            kas = payer # me # rest \<and> kas' = payer # me' # rest \<and>
            keyed_set_state (stake_state_codec C) st me = Ok me') \<or>
         (\<exists>payer me st vt me' st' vt'.
            kas = [payer, me, st, vt] \<and> kas' = [payer, me', st', vt'] \<and>
            redeem_vote_credits F (stake_state_codec C) (stake_vote_codec C) me st vt = Ok (me', st', vt'))"
proof -
  let ?single = "\<exists>payer me rest me' st.
            kas = payer # me # rest \<and> kas' = payer # me' # rest \<and>
            keyed_set_state (stake_state_codec C) st me = Ok me'"
  from assms obtain payer me rest i where
    k: "kas = payer # me # rest" "deserialize (stake_instruction_codec C) ix = Some i"
    by (auto simp: stake_process_instruction_def split: list.splits)
  note r = assms [unfolded stake_process_instruction_def k, simplified]
  show ?thesis
  proof (cases i)
    case InitializeDelegate
    with r k have ?single
      by (auto simp: initialize_delegate_def split: if_splits)
    then show ?thesis ..
  next
    case InitializeMiningPool
    with r k have ?single
      by (auto simp: initialize_mining_pool_def split: if_splits)
    then show ?thesis ..
  next
    case DelegateStake
    with r k have ?single
      by (cases rest rule: remdups_adj.cases) (auto dest!: delegate_stake_Ok)
    then show ?thesis ..
  next
    case RedeemVoteCredits
    then obtain st vt where "rest = [st, vt]"
      using r k by (auto split: list.splits)
    with RedeemVoteCredits r k show ?thesis by auto
  qed
qed

lemma redeem_balanced:
  "redeem_vote_credits F c vc me st vt = Ok (me', st', vt') \<Longrightarrow>
     total_difs [me', st', vt'] = total_difs [me, st, vt]"
  by (auto dest!: redeem_vote_credits_Ok)

lemma redeem_same_keys:
  "redeem_vote_credits F c vc me st vt = Ok (me', st', vt') \<Longrightarrow>
     same_keys [me, st, vt] [me', st', vt']"
  by (auto simp: same_keys_def dest!: redeem_vote_credits_Ok)

interpretation stake: native_program "stake_process_instruction F C"
proof unfold_locales
  fix pid kas ix tick kas'
  assume "stake_process_instruction F C pid kas ix tick = Ok kas'"
  note ok = stake_process_Ok [OF this]
  show "same_keys kas kas'"
    using ok by (auto simp: same_keys_def dest!: keyed_set_state_frame redeem_same_keys)
  show "total_difs kas' = total_difs kas"
    using ok by (auto dest!: keyed_set_state_frame redeem_balanced)
qed

section \<open>Properties\<close>






text \<open>Exact rationals as the floats, and a redemption of nineteen difs for a stake of 95.\<close>

definition rat_f64 :: "rat f64_ops" where
  "rat_f64 = \<lparr>f64_zero = 0, f64_one = 1, f64_of_u64 = (\<lambda>w. of_nat (unat w)),
     f64_of_u32 = (\<lambda>w. of_nat (unat w)), f64_mul = (*), f64_div = (/), f64_sub = (-), f64_lt = (<),
     f64_to_u64 = (\<lambda>x. of_int \<lfloor>x\<rfloor>)\<rparr>"

definition demo_voter_state :: vote_state where
  "demo_voter_state = (vote_state_new (demo_key 1) (demo_key 2) 0)\<lparr>credits := 39420000\<rparr>"

definition demo_stake_codec :: "stake_state codec" where
  "demo_stake_codec = table_codec [MiningPool, Delegate (demo_key 1) 0, Delegate (demo_key 1) 39420000]"

definition demo_holder :: "u8 \<Rightarrow> u64 \<Rightarrow> u8 \<Rightarrow> keyed_account" where
  "demo_holder k d b = keyed_account_new (demo_key k) False ((account_new d 0 1 stake_program_id)\<lparr>data := [b]\<rparr>)"

lemma demo_redeem:
  "redeem_vote_credits rat_f64 demo_stake_codec (table_codec [demo_voter_state])
     (demo_holder 9 100 0) (demo_holder 8 95 1) (demo_holder 1 7 0) =
   Ok (demo_holder 9 81 0, demo_holder 8 95 2, demo_holder 1 26 0)"
  by (simp add: redeem_vote_credits_def demo_holder_def demo_stake_codec_def keyed_account_new_def
      account_new_def keyed_state_def account_state_def calculate_rewards_def demo_voter_state_def
      vote_state_new_def unsigned_key_def STAKE_REWARD_TARGET_RATE_def CREDITS_PER_YEAR_def rat_f64_def
      commission_split_def keyed_set_state_def account_set_state_def table_codec_def sub_difs_def
      add_difs_def)


text \<open>
  Credits are redeemed once. After a redemption, redeeming again with the resulting accounts
  fails with the program's error 1 until the vote account has earned more credits.
\<close>

theorem stake_redeem_once:
  assumes "codec_ok c" "redeem_vote_credits F c vc me st vt = Ok (me', st', vt')"
  shows "redeem_vote_credits F c vc me' st' vt' = Err (CustomError 1)"
proof -
  from redeem_vote_credits_Ok [OF assms(2)] obtain co vs s v d where
    *: "keyed_state c me = Ok MiningPool" "keyed_state vc vt = Ok vs"
    "me' = me\<lparr>account := sub_difs (s + v) (account me)\<rparr>"
    "serialize_into c (Delegate (key vt) (credits vs)) (data (account st)) = Inr d"
    "st' = st\<lparr>account := (add_difs s (account st))\<lparr>data := d\<rparr>\<rparr>"
    "vt' = vt\<lparr>account := add_difs v (account vt)\<rparr>" by blast
  have "keyed_state c me' = Ok MiningPool" "keyed_state vc vt' = Ok vs"
    "keyed_state c st' = Ok (Delegate (key vt) (credits vs))" "key vt' = key vt"
    using * assms(1) by (simp_all add: codec_ok_def)
  then show ?thesis
    by (simp only: redeem_vote_credits_def) (simp add: unsigned_key_def calculate_rewards_None)
qed

theorem stake_redeem_once_witness:
  "redeem_vote_credits rat_f64 demo_stake_codec (table_codec [demo_voter_state])
     (demo_holder 9 81 0) (demo_holder 8 95 2) (demo_holder 1 26 0) = Err (CustomError 1)"
proof -
  have "codec_ok demo_stake_codec" by (simp add: demo_stake_codec_def table_codec_ok)
  from stake_redeem_once [OF this demo_redeem] show ?thesis .
qed

end
