(* ===== verification/Stakes_Cache.thy ===== *)
theory Stakes_Cache
  imports Stake_Program
begin

text \<open>
  The cache of vote and stake accounts, \<^verbatim>\<open>src/runtime/src/stakes.rs\<close>: every vote account with the stake
  delegated to it, kept up to date as accounts are stored instead of being summed up again. The
  hash maps are iterated (here or by the users of the cache) and are association lists.
\<close>

section \<open>The cache\<close>

record stakes =
  vote_accounts :: "(pubkey \<times> (u64 \<times> account)) list"
  stake_accounts :: "(pubkey \<times> account) list"

definition stakes_default :: stakes where
  "stakes_default = \<lparr>vote_accounts = [], stake_accounts = []\<rparr>"

definition calculate_stake :: "stake_state codec \<Rightarrow> stakes \<Rightarrow> pubkey \<Rightarrow> u64" where
  "calculate_stake c st voter =
     sum_list (map (\<lambda>p. difs (snd p))
       (filter (\<lambda>p. Some voter = voter_pubkey_from c (snd p)) (stake_accounts st)))"

definition is_stake :: "account \<Rightarrow> bool" where
  "is_stake a = (owner a = vote_program_id \<or> owner a = stake_program_id)"

definition modify_stake :: "pubkey \<Rightarrow> (u64 \<Rightarrow> u64) \<Rightarrow> (pubkey \<times> (u64 \<times> account)) list \<Rightarrow> (pubkey \<times> (u64 \<times> account)) list" where
  "modify_stake k f va =
     (case map_of va k of None \<Rightarrow> va | Some (s, a) \<Rightarrow> AList.update k (f s, a) va)"

definition stakes_store :: "stake_state codec \<Rightarrow> pubkey \<Rightarrow> account \<Rightarrow> stakes \<Rightarrow> stakes" where
  "stakes_store c k a st =
     (if owner a = vote_program_id then
        if difs a = 0 then st\<lparr>vote_accounts := AList.delete k (vote_accounts st)\<rparr>
        else
          let stake = (case map_of (vote_accounts st) k of None \<Rightarrow> calculate_stake c st k | Some v \<Rightarrow> fst v)
          in st\<lparr>vote_accounts := AList.update k (stake, a) (vote_accounts st)\<rparr>
      else if owner a = stake_program_id then
        let old_stake = Option.bind (map_of (stake_accounts st) k)
                          (\<lambda>old. map_option (\<lambda>v. (difs old, v)) (voter_pubkey_from c old));
            stake = map_option (\<lambda>v. (difs a, v)) (voter_pubkey_from c a);
            va = vote_accounts st;
            va = (if stake \<noteq> old_stake then
                    let va = (case old_stake of None \<Rightarrow> va | Some (s, v) \<Rightarrow> modify_stake v (\<lambda>e. e - s) va)
                    in (case stake of None \<Rightarrow> va | Some (s, v) \<Rightarrow> modify_stake v (\<lambda>e. e + s) va)
                  else va);
            sa = (if difs a = 0 then AList.delete k (stake_accounts st) else AList.update k a (stake_accounts st))
        in \<lparr>vote_accounts = va, stake_accounts = sa\<rparr>
      else st)"

section \<open>The cached stakes are the sums\<close>

definition stake_part :: "stake_state codec \<Rightarrow> pubkey \<Rightarrow> account \<Rightarrow> u64" where
  "stake_part c voter a = (if voter_pubkey_from c a = Some voter then difs a else 0)"

lemma calculate_stake_alt: "calculate_stake c st v = sum_list (map (\<lambda>p. stake_part c v (snd p)) (stake_accounts st))"
proof -
  have "sum_list (map (\<lambda>p. difs (snd p)) (filter (\<lambda>p. Some v = voter_pubkey_from c (snd p)) al)) =
        sum_list (map (\<lambda>p. stake_part c v (snd p)) al)" for al :: "(pubkey \<times> account) list"
    by (induction al) (auto simp: stake_part_def)
  then show ?thesis by (simp add: calculate_stake_def)
qed

definition opt_part :: "('a \<Rightarrow> u64) \<Rightarrow> 'a option \<Rightarrow> u64" where
  "opt_part g m = (case m of None \<Rightarrow> 0 | Some x \<Rightarrow> g x)"

lemma sum_update:
  assumes "distinct (map fst al)"
  shows "sum_list (map (\<lambda>p. g (snd p)) (AList.update k v al)) =
    sum_list (map (\<lambda>p. g (snd p)) al) - opt_part g (map_of al k) + g v"
  using assms
proof (induction al)
  case (Cons p al)
  then show ?case by (cases p) (auto simp: opt_part_def map_of_eq_None_iff)
qed (simp add: opt_part_def)

lemma sum_delete:
  assumes "distinct (map fst al)"
  shows "sum_list (map (\<lambda>p. g (snd p)) (AList.delete k al)) = sum_list (map (\<lambda>p. g (snd p)) al) - opt_part g (map_of al k)"
  using assms
proof (induction al)
  case (Cons p al)
  have "AList.delete k al = al" if "k \<notin> fst ` set al" using that by simp
  with Cons show ?case by (cases p) (auto simp: opt_part_def)
qed (simp add: opt_part_def)

lemma map_of_modify_stake:
  "map_of (modify_stake k f va) j =
     (if j = k then map_option (\<lambda>e. (f (fst e), snd e)) (map_of va j) else map_of va j)"
  by (auto simp: modify_stake_def update_conv' split: option.splits)

lemma distinct_modify_stake: "distinct (map fst va) \<Longrightarrow> distinct (map fst (modify_stake k f va))"
  by (auto simp: modify_stake_def distinct_update split: option.splits)

definition stakes_inv :: "stake_state codec \<Rightarrow> stakes \<Rightarrow> bool" where
  "stakes_inv c st \<longleftrightarrow>
     distinct (map fst (vote_accounts st)) \<and> distinct (map fst (stake_accounts st)) \<and>
     (\<forall>k s a. map_of (vote_accounts st) k = Some (s, a) \<longrightarrow> s = calculate_stake c st k)"

text \<open>What storing a stake account does to one cached stake.\<close>

lemma stakes_adjust:
  fixes c and old :: "account option" and a :: account and va :: "(pubkey \<times> (u64 \<times> account)) list"
  defines "os \<equiv> Option.bind old (\<lambda>o'. map_option (\<lambda>v. (difs o', v)) (voter_pubkey_from c o'))"
    and "ns \<equiv> map_option (\<lambda>v. (difs a, v)) (voter_pubkey_from c a)"
  defines "va' \<equiv> (if ns \<noteq> os then
        let va = (case os of None \<Rightarrow> va | Some (s, v) \<Rightarrow> modify_stake v (\<lambda>e. e - s) va)
        in (case ns of None \<Rightarrow> va | Some (s, v) \<Rightarrow> modify_stake v (\<lambda>e. e + s) va) else va)"
  shows "map_of va' k = map_option (\<lambda>e. (fst e - opt_part (stake_part c k) old + stake_part c k a, snd e)) (map_of va k)"
proof -
  have o: "opt_part (stake_part c k) old = (case os of None \<Rightarrow> 0 | Some (s, v) \<Rightarrow> if v = k then s else 0)"
    by (auto simp: os_def opt_part_def stake_part_def split: option.splits)
  have n: "stake_part c k a = (case ns of None \<Rightarrow> 0 | Some (s, v) \<Rightarrow> if v = k then s else 0)"
    by (auto simp: ns_def stake_part_def split: option.splits)
  show ?thesis
  proof (cases "ns = os")
    case True
    then show ?thesis unfolding o n va'_def by (auto simp: option.map_ident split: option.splits)
  next
    case False
    then show ?thesis unfolding o n va'_def
      by (auto simp: map_of_modify_stake option.map_comp comp_def option.map_ident split: option.splits)
  qed
qed

lemma stakes_store_inv:
  assumes inv: "stakes_inv c st"
  shows "stakes_inv c (stakes_store c k a st)"
proof -
  have d: "distinct (map fst (vote_accounts st))" "distinct (map fst (stake_accounts st))"
    and s: "\<And>k s a. map_of (vote_accounts st) k = Some (s, a) \<Longrightarrow> s = calculate_stake c st k"
    using inv unfolding stakes_inv_def by blast+
  show ?thesis
  proof (cases "owner a = vote_program_id")
    case True
    have "calculate_stake c (st\<lparr>vote_accounts := x\<rparr>) = calculate_stake c st" for x
      by (simp add: calculate_stake_def fun_eq_iff)
    note calc = this
    let ?st = "stakes_store c k a st"
    have va: "vote_accounts ?st = (if difs a = 0 then AList.delete k (vote_accounts st)
        else AList.update k (case map_of (vote_accounts st) k of None \<Rightarrow> calculate_stake c st k | Some v \<Rightarrow> fst v, a)
               (vote_accounts st))"
      and sa: "stake_accounts ?st = stake_accounts st" and cs: "calculate_stake c ?st = calculate_stake c st"
      using True by (simp_all add: stakes_store_def calc Let_def)
    have "t = calculate_stake c st j" if "map_of (vote_accounts ?st) j = Some (t, b)" for j t b
    proof (cases "j = k")
      case True
      with that have "t = (case map_of (vote_accounts st) k of None \<Rightarrow> calculate_stake c st k | Some v \<Rightarrow> fst v)"
        by (simp add: va delete_conv' update_conv' split: if_splits)
      then show ?thesis using s [of k] True by (cases "map_of (vote_accounts st) k") auto
    next
      case False
      then have "map_of (vote_accounts ?st) j = map_of (vote_accounts st) j" by (simp add: va delete_conv' update_conv')
      then show ?thesis using s [of j] that by metis
    qed
    then show ?thesis unfolding stakes_inv_def sa cs using d by (simp add: va distinct_update distinct_delete)
  next
    case vote: False
    show ?thesis
    proof (cases "owner a = stake_program_id")
      case False
      then show ?thesis using vote inv by (simp add: stakes_store_def)
    next
      case True
      let ?st = "stakes_store c k a st" and ?old = "map_of (stake_accounts st) k"
      have va: "map_of (vote_accounts ?st) j =
          map_option (\<lambda>e. (fst e - opt_part (stake_part c j) ?old + stake_part c j a, snd e)) (map_of (vote_accounts st) j)" for j
        using vote True stakes_adjust [where old = ?old and c = c and a = a and va = "vote_accounts st" and k = j] by (simp add: stakes_store_def Let_def)
      have sa: "stake_accounts ?st = (if difs a = 0 then AList.delete k (stake_accounts st) else AList.update k a (stake_accounts st))"
        using vote True by (simp add: stakes_store_def Let_def)
      have part: "calculate_stake c ?st j = calculate_stake c st j - opt_part (stake_part c j) ?old + stake_part c j a" for j
        unfolding calculate_stake_alt sa using d(2)
        by (simp add: sum_update sum_delete) (simp add: stake_part_def)
      have "distinct (map fst (vote_accounts ?st))"
        using vote True d(1) by (auto simp: stakes_store_def Let_def distinct_modify_stake split: option.splits)
      moreover have "distinct (map fst (stake_accounts ?st))" using d(2) by (simp add: sa distinct_update distinct_delete)
      moreover have "t = calculate_stake c ?st j" if "map_of (vote_accounts ?st) j = Some (t, b)" for j t b
        using that s [of j] unfolding va part by auto
      ultimately show ?thesis unfolding stakes_inv_def by blast
    qed
  qed
qed

text \<open>
  C31: the cached stakes are right. After any sequence of stores, the stake cached with a vote account
  is the sum of the difs of the cached stake accounts that are delegated to it, although it is only
  ever adjusted by differences (in arithmetic modulo \<open>2 ^ 64\<close>).
\<close>

theorem stakes_cache_correct:
  "map_of (vote_accounts (fold (\<lambda>p. stakes_store c (fst p) (snd p)) kas stakes_default)) k = Some (s, a) \<Longrightarrow>
     s = calculate_stake c (fold (\<lambda>p. stakes_store c (fst p) (snd p)) kas stakes_default) k"
proof -
  have "stakes_inv c st \<Longrightarrow> stakes_inv c (fold (\<lambda>p. stakes_store c (fst p) (snd p)) kas st)" for st
    by (induction kas arbitrary: st) (auto intro: stakes_store_inv)
  moreover have "stakes_inv c stakes_default" by (simp add: stakes_inv_def stakes_default_def)
  ultimately have "stakes_inv c (fold (\<lambda>p. stakes_store c (fst p) (snd p)) kas stakes_default)" by blast
  then show "map_of (vote_accounts (fold (\<lambda>p. stakes_store c (fst p) (snd p)) kas stakes_default)) k = Some (s, a) \<Longrightarrow>
     s = calculate_stake c (fold (\<lambda>p. stakes_store c (fst p) (snd p)) kas stakes_default) k"
    unfolding stakes_inv_def by blast
qed

definition demo_stake_codec :: "stake_state codec" where
  "demo_stake_codec = table_codec [Delegate (demo_key 1) 0]"

definition demo_stake_stores :: "(pubkey \<times> account) list" where
  "demo_stake_stores =
     [(demo_key 2, account_new 7 0 1 stake_program_id), (demo_key 1, account_new 1 0 0 vote_program_id),
      (demo_key 3, account_new 5 0 1 stake_program_id), (demo_key 2, account_new 4 0 1 stake_program_id)]"

theorem stakes_cache_correct_witness:
  "map_of (vote_accounts (fold (\<lambda>p. stakes_store demo_stake_codec (fst p) (snd p)) demo_stake_stores stakes_default)) (demo_key 1) =
     Some (9, account_new 1 0 0 vote_program_id) \<and>
   9 = calculate_stake demo_stake_codec
         (fold (\<lambda>p. stakes_store demo_stake_codec (fst p) (snd p)) demo_stake_stores stakes_default) (demo_key 1)"
proof -
  have "map_of (vote_accounts (fold (\<lambda>p. stakes_store demo_stake_codec (fst p) (snd p)) demo_stake_stores stakes_default)) (demo_key 1) =
     Some (9, account_new 1 0 0 vote_program_id)"
    by code_simp
  with stakes_cache_correct [OF this] show ?thesis by simp
qed

end
