(* ===== verification/Bank_Model.thy ===== *)
theory Bank_Model
  imports Accounts_Loader Status_Cache Blockhash_Queue Epoch_Schedule Stakes_Cache
begin

text \<open>
  The bank, \<^verbatim>\<open>src/runtime/src/bank.rs\<close>: the state of one slot over the shared accounts database and
  the shared status cache, the execution of batches of transactions, the collection of fees, and the
  tree of banks (genesis, children, freezing, squashing, dropping).

  A bank is a record; what it shares with other banks through \<open>Arc\<close> (the database and the status
  cache) is a second record, and the other banks live in a heap, the \<open>world\<close>. An operation returns \<open>None\<close>
  when it does not return (the store loop of the database), and a panic ends it. The clock, SHA-256,
  the serialisers, the random offset of the status cache and the JSON hash of the genesis block are
  parameters. Metrics, log lines and the counters of errors are left out.
\<close>

section \<open>Runs\<close>

type_synonym 'a run = "(unit, 'a) res option"

definition run_bind :: "'a run \<Rightarrow> ('a \<Rightarrow> 'b run) \<Rightarrow> 'b run" where
  "run_bind m f = (case m of None \<Rightarrow> None | Some r \<Rightarrow> (case r of Ok x \<Rightarrow> f x | Err e \<Rightarrow> Some (Err e) | Panic \<Rightarrow> Some Panic))"

definition run_ok :: "'a \<Rightarrow> 'a run" where
  "run_ok x = Some (Ok x)"

lemma run_bind_simps [simp]:
  "run_bind None f = None" "run_bind (Some (Ok x)) f = f x" "run_bind (Some Panic) f = Some Panic"
  "run_bind (run_ok x) f = f x" "run_bind (Some (Err u)) f = Some (Err u)"
  by (simp_all add: run_bind_def run_ok_def)

lemma run_bind_Ok_iff [simp]: "run_bind m f = Some (Ok y) \<longleftrightarrow> (\<exists>x. m = Some (Ok x) \<and> f x = Some (Ok y))"
  by (auto simp: run_bind_def split: option.splits res.splits)

lemma run_ok_eq_iff [simp]: "run_ok x = Some (Ok y) \<longleftrightarrow> x = y"
  by (simp add: run_ok_def)

section \<open>State\<close>

definition MAX_RECENT_BLOCKHASHES :: nat where
  "MAX_RECENT_BLOCKHASHES = 120"

record bank_env =
  be_db :: db_env
  be_library :: library
  be_loader_codec :: "loader_instruction codec"
  be_system_codec :: "system_instruction codec"
  be_stake_codec :: "stake_state codec"
  be_slot_hashes_codec :: "slot_hashes codec"
  be_balance_codec :: "account_balance codec"
  be_delta_codec :: "hash option codec"
  be_sha :: "bytes \<Rightarrow> hash"
  be_draw :: "unit tx_result status_cache \<Rightarrow> nat"

record shared =
  sh_db :: accounts_db
  sh_status :: "unit tx_result status_cache"

record bank =
  bank_queue :: blockhash_queue
  bank_parent :: "nat option"
  bank_ancestors :: "(fork \<times> nat) list"
  bank_hash :: hash
  bank_parent_hash :: hash
  bank_transaction_count :: u64
  bank_tick_height :: u64
  bank_max_tick_height :: u64
  bank_ticks_per_slot :: u64
  bank_slot :: u64
  bank_height :: u64
  bank_collector_id :: pubkey
  bank_fee_calculator :: fee_calculator
  bank_epoch_schedule :: epoch_schedule
  bank_stakes :: stakes
  bank_epoch_stakes :: "u64 \<rightharpoonup> stakes"
  bank_is_delta :: bool
  bank_processor :: message_processor
  bank_symbols :: symbol_cache
  bank_locks :: accounts_locks

definition bank_default :: "bank_env \<Rightarrow> accounts_locks \<Rightarrow> bank" where
  "bank_default E locks =
     \<lparr>bank_queue = blockhash_queue_new MAX_RECENT_BLOCKHASHES, bank_parent = None, bank_ancestors = [],
      bank_hash = default_hash, bank_parent_hash = default_hash, bank_transaction_count = 0,
      bank_tick_height = 0, bank_max_tick_height = 0, bank_ticks_per_slot = 0, bank_slot = 0, bank_height = 0,
      bank_collector_id = default_pubkey, bank_fee_calculator = \<lparr>difs_per_signature = 0\<rparr>,
      bank_epoch_schedule = \<lparr>slots_per_epoch = 0, stakers_slot_offset = 0, first_normal_epoch = 0, first_normal_slot = 0\<rparr>,
      bank_stakes = stakes_default, bank_epoch_stakes = Map.empty, bank_is_delta = False,
      bank_processor = default_message_processor (be_system_codec E), bank_symbols = Map.empty,
      bank_locks = locks\<rparr>"

abbreviation bank_anc :: "bank \<Rightarrow> ancestors" where
  "bank_anc b \<equiv> map_of (bank_ancestors b)"

definition bank_is_frozen :: "bank \<Rightarrow> bool" where
  "bank_is_frozen b \<longleftrightarrow> bank_hash b \<noteq> default_hash"

section \<open>Accounts of a bank\<close>

definition bank_get_account :: "bank_env \<Rightarrow> bank \<Rightarrow> shared \<Rightarrow> pubkey \<Rightarrow> account option" where
  "bank_get_account E b s k = map_option fst (accounts_load_slow (be_db E) (sh_db s) (bank_anc b) k)"

definition bank_get_balance :: "bank_env \<Rightarrow> bank \<Rightarrow> shared \<Rightarrow> pubkey \<Rightarrow> u64" where
  "bank_get_balance E b s k = (case bank_get_account E b s k of None \<Rightarrow> 0 | Some a \<Rightarrow> difs a)"

definition bank_get_reputation :: "bank_env \<Rightarrow> bank \<Rightarrow> shared \<Rightarrow> pubkey \<Rightarrow> u64" where
  "bank_get_reputation E b s k = (case bank_get_account E b s k of None \<Rightarrow> 0 | Some a \<Rightarrow> reputations a)"

definition get_account_modified_since_parent :: "bank_env \<Rightarrow> bank \<Rightarrow> shared \<Rightarrow> pubkey \<Rightarrow> (account \<times> fork) option" where
  "get_account_modified_since_parent E b s k = accounts_load_slow (be_db E) (sh_db s) [bank_slot b \<mapsto> 0] k"

definition get_program_accounts_modified_since_parent ::
  "bank_env \<Rightarrow> bank \<Rightarrow> shared \<Rightarrow> pubkey \<Rightarrow> (pubkey \<times> account) list option" where
  "get_program_accounts_modified_since_parent E b s program_id = load_by_program (be_db E) (sh_db s) (bank_slot b) program_id"

definition bank_store :: "bank_env \<Rightarrow> pubkey \<Rightarrow> account \<Rightarrow> bank \<times> shared \<Rightarrow> (bank \<times> shared) run" where
  "bank_store E k a bs =
     (case bs of (b, s) \<Rightarrow>
        run_bind (store_slow (be_db E) (bank_slot b) k a (sh_db s)) (\<lambda>db.
          run_ok (if is_stake a then b\<lparr>bank_stakes := stakes_store (be_stake_codec E) k a (bank_stakes b)\<rparr> else b,
                  s\<lparr>sh_db := db\<rparr>)))"

definition bank_withdraw :: "bank_env \<Rightarrow> pubkey \<Rightarrow> u64 \<Rightarrow> bank \<times> shared \<Rightarrow> (unit tx_result \<times> bank \<times> shared) run" where
  "bank_withdraw E k d bs =
     (case bank_get_account E (fst bs) (snd bs) k of
        None \<Rightarrow> run_ok (Inl AccountNotFound, bs)
      | Some a \<Rightarrow>
          if d > difs a then run_ok (Inl InsufficientFundsForFee, bs)
          else run_bind (bank_store E k (a\<lparr>difs := difs a - d\<rparr>) bs) (\<lambda>bs'. run_ok (Inr (), bs')))"

definition bank_deposit :: "bank_env \<Rightarrow> pubkey \<Rightarrow> u64 \<Rightarrow> bank \<times> shared \<Rightarrow> (bank \<times> shared) run" where
  "bank_deposit E k d bs =
     (let a = (case bank_get_account E (fst bs) (snd bs) k of None \<Rightarrow> default_account | Some a \<Rightarrow> a)
      in bank_store E k (a\<lparr>difs := difs a + d\<rparr>) bs)"

section \<open>Freezing\<close>

definition extend_and_hash :: "(bytes \<Rightarrow> hash) \<Rightarrow> hash \<Rightarrow> bytes \<Rightarrow> hash" where
  "extend_and_hash sha h v = sha (hash_bytes h @ v)"

definition bank_hash_internal_state :: "bank_env \<Rightarrow> bank \<Rightarrow> shared \<Rightarrow> hash run" where
  "bank_hash_internal_state E b s =
     (if \<not> db_has_accounts (sh_db s) (bank_slot b) then run_ok (bank_parent_hash b)
      else run_bind (accounts_hash_internal_state (be_db E) (be_sha E) (be_balance_codec E) (sh_db s) (bank_slot b)) (\<lambda>h.
        case serialize (be_delta_codec E) h of
          Inl _ \<Rightarrow> Some Panic
        | Inr v \<Rightarrow> run_ok (extend_and_hash (be_sha E) (bank_parent_hash b) v)))"

definition set_hash :: "bank_env \<Rightarrow> bank \<times> shared \<Rightarrow> (bool \<times> bank \<times> shared) run" where
  "set_hash E bs =
     (case bs of (b, s) \<Rightarrow>
        if bank_hash b = default_hash
        then run_bind (bank_hash_internal_state E b s) (\<lambda>h. run_ok (True, b\<lparr>bank_hash := h\<rparr>, s))
        else run_ok (False, b, s))"

definition update_slot_hashes :: "bank_env \<Rightarrow> bank \<times> shared \<Rightarrow> (bank \<times> shared) run" where
  "update_slot_hashes E bs =
     (case bs of (b, s) \<Rightarrow>
        run_bind (case bank_get_account E b s slot_hashes_id of
                    Some a \<Rightarrow> run_ok a
                  | None \<Rightarrow> Some (slot_hashes_create_account (be_slot_hashes_codec E) 1)) (\<lambda>a.
        run_bind (Some (unwrap (slot_hashes_from (be_slot_hashes_codec E) a))) (\<lambda>sh.
        run_bind (Some (unwrap (slot_hashes_to (be_slot_hashes_codec E) (slot_hashes_add (bank_slot b) (bank_hash b) sh) a))) (\<lambda>a'.
          bank_store E slot_hashes_id a' (b, s)))))"

definition freeze :: "bank_env \<Rightarrow> bank \<times> shared \<Rightarrow> (bank \<times> shared) run" where
  "freeze E bs =
     run_bind (set_hash E bs) (\<lambda>(changed, bs'). if changed then update_slot_hashes E bs' else run_ok bs')"

section \<open>Ticks\<close>

definition register_tick :: "u64 \<Rightarrow> hash \<Rightarrow> bank \<Rightarrow> ('e, bank) res" where
  "register_tick now h b =
     (let b = b\<lparr>bank_tick_height := bank_tick_height b + 1\<rparr>
      in if bank_ticks_per_slot b = 0 then Panic
         else if bank_tick_height b mod bank_ticks_per_slot b = bank_ticks_per_slot b - 1
         then Ok (b\<lparr>bank_queue := register_hash now h (bank_queue b)\<rparr>)
         else Ok b)"

definition is_votable :: "bank \<Rightarrow> bool" where
  "is_votable b \<longleftrightarrow> bank_is_delta b \<and> bank_tick_height b = (bank_slot b + 1) * bank_ticks_per_slot b - 1"

definition last_blockhash :: "bank \<Rightarrow> ('e, hash) res" where
  "last_blockhash b = bq_last_hash (bank_queue b)"

text \<open>The sort of \<open>get_confirmation_timestamp\<close> is by falling slot.\<close>

fun confirmation_loop :: "bank \<Rightarrow> u64 \<Rightarrow> u64 \<Rightarrow> (u64 \<times> u64) list \<Rightarrow> u64 option" where
  "confirmation_loop b supermajority total_stake [] = None"
| "confirmation_loop b supermajority total_stake ((sl, stake) # rest) =
     (if saturating_sub (bank_slot b) (of_nat MAX_RECENT_BLOCKHASHES) \<le> sl \<and> sl \<le> bank_slot b
      then if total_stake + stake > supermajority then hash_height_to_timestamp (bank_queue b) sl
           else confirmation_loop b supermajority (total_stake + stake) rest
      else confirmation_loop b supermajority total_stake rest)"

definition get_confirmation_timestamp :: "bank \<Rightarrow> (u64 \<times> u64) list \<Rightarrow> u64 \<Rightarrow> u64 option" where
  "get_confirmation_timestamp b slots_and_stakes supermajority =
     confirmation_loop b supermajority 0 (sort_key (\<lambda>p. - uint (fst p)) slots_and_stakes)"

section \<open>Checks of a batch\<close>

definition check_refs :: "transaction list \<Rightarrow> unit tx_result list \<Rightarrow> unit tx_result list" where
  "check_refs txs rs =
     map (\<lambda>(tx, r). if r = Inr () \<and> \<not> verify_refs tx then Inl InvalidAccountIndex else r) (zip txs rs)"

definition check_age :: "blockhash_queue \<Rightarrow> transaction list \<Rightarrow> unit tx_result list \<Rightarrow> nat \<Rightarrow> unit tx_result list" where
  "check_age q txs rs max_age =
     map (\<lambda>(tx, r). if r = Inr () \<and> \<not> check_hash_age q (recent_blockhash (tx_message tx)) max_age
                    then Inl BlockhashNotFound else r) (zip txs rs)"

definition check_signature ::
  "unit tx_result status_cache \<Rightarrow> ancestors \<Rightarrow> transaction \<Rightarrow> unit tx_result \<Rightarrow> ('e, unit tx_result) res" where
  "check_signature c anc tx r =
     (case signatures tx of
        [] \<Rightarrow> Ok r
      | sig # _ \<Rightarrow>
          if r = Inr () then
            res_bind (get_signature_status c sig (recent_blockhash (tx_message tx)) anc) (\<lambda>st.
              Ok (if st \<noteq> None then Inl DuplicateSignature else r))
          else Ok r)"

definition check_signatures ::
  "unit tx_result status_cache \<Rightarrow> ancestors \<Rightarrow> transaction list \<Rightarrow> unit tx_result list \<Rightarrow> ('e, unit tx_result list) res" where
  "check_signatures c anc txs rs = res_map (\<lambda>(tx, r). check_signature c anc tx r) (zip txs rs)"

definition check_transactions ::
  "bank \<Rightarrow> shared \<Rightarrow> transaction list \<Rightarrow> unit tx_result list \<Rightarrow> nat \<Rightarrow> ('e, unit tx_result list) res" where
  "check_transactions b s txs rs max_age =
     check_signatures (sh_status s) (bank_anc b) txs (check_age (bank_queue b) txs (check_refs txs rs) max_age)"

section \<open>Execution of a batch\<close>

definition bank_runtime :: "bank_env \<Rightarrow> bank \<Rightarrow> runtime_env" where
  "bank_runtime E b =
     \<lparr>env_library = be_library E, env_loader_codec = be_loader_codec E, env_processor = bank_processor b\<rparr>"

text \<open>
  The accounts of a transaction that fails while it executes are changed in place up to the
  failure; nothing reads them afterwards, and the model keeps them as they were loaded.
\<close>

fun execute_loop ::
  "runtime_env \<Rightarrow> u64 \<Rightarrow> (loaded \<times> transaction) list \<Rightarrow> symbol_cache \<Rightarrow>
     ('e, (loaded \<times> unit tx_result) list \<times> symbol_cache) res" where
  "execute_loop env tick [] cache = Ok ([], cache)"
| "execute_loop env tick ((l, tx) # ltxs) cache =
     (case l of
        Inl e \<Rightarrow> res_bind (execute_loop env tick ltxs cache) (\<lambda>(rs, c). Ok ((Inl e, Inl e) # rs, c))
      | Inr (as, ls) \<Rightarrow>
          (case process_message env (tx_message tx) ls as tick cache of
             (Ok (ls', as'), cache') \<Rightarrow>
               res_bind (execute_loop env tick ltxs cache') (\<lambda>(rs, c). Ok ((Inr (as', ls'), Inr ()) # rs, c))
           | (Err e, cache') \<Rightarrow>
               res_bind (execute_loop env tick ltxs cache') (\<lambda>(rs, c). Ok ((Inr (as, ls), Inl e) # rs, c))
           | (Panic, cache') \<Rightarrow> Panic))"

definition load_and_execute_transactions ::
  "bank_env \<Rightarrow> transaction list \<Rightarrow> unit tx_result list \<Rightarrow> nat \<Rightarrow> bank \<times> shared \<Rightarrow>
     ('e, loaded list \<times> unit tx_result list \<times> bank \<times> shared) res" where
  "load_and_execute_transactions E txs lock_results max_age bs =
     (case bs of (b, s) \<Rightarrow>
        res_bind (check_transactions b s txs lock_results max_age) (\<lambda>sig_results.
        res_bind (load_accounts (tip_load (be_db E) (bank_anc b) (sh_db s)) txs sig_results (bank_fee_calculator b)) (\<lambda>lds.
        res_bind (execute_loop (bank_runtime E b) (bank_tick_height b) (zip lds txs) (bank_symbols b)) (\<lambda>(rs, cache).
          Ok (map fst rs, map snd rs,
              b\<lparr>bank_symbols := cache,
                bank_transaction_count := bank_transaction_count b + of_nat (length (filter (\<lambda>r. snd r = Inr ()) rs))\<rparr>, s)))))"

section \<open>Commit\<close>

fun can_commit :: "unit tx_result \<Rightarrow> bool" where
  "can_commit (Inr _) = True"
| "can_commit (Inl (InstructionError _ _)) = True"
| "can_commit (Inl _) = False"

fun update_statuses ::
  "(unit tx_result status_cache \<Rightarrow> nat) \<Rightarrow> fork \<Rightarrow> (transaction \<times> unit tx_result) list \<Rightarrow>
     unit tx_result status_cache \<Rightarrow> ('e, unit tx_result status_cache) res" where
  "update_statuses draw f [] c = Ok c"
| "update_statuses draw f ((tx, r) # txrs) c =
     (case signatures tx of
        [] \<Rightarrow> update_statuses draw f txrs c
      | sig # _ \<Rightarrow>
          if can_commit r
          then res_bind (sc_insert (draw c) (recent_blockhash (tx_message tx)) sig f r c) (update_statuses draw f txrs)
          else update_statuses draw f txrs c)"

definition update_transaction_statuses ::
  "bank_env \<Rightarrow> transaction list \<Rightarrow> unit tx_result list \<Rightarrow> bank \<times> shared \<Rightarrow> ('e, bank \<times> shared) res" where
  "update_transaction_statuses E txs executed bs =
     res_bind (update_statuses (be_draw E) (bank_slot (fst bs)) (zip txs executed) (sh_status (snd bs))) (\<lambda>c.
       Ok (fst bs, (snd bs)\<lparr>sh_status := c\<rparr>))"

definition store_stakes :: "bank_env \<Rightarrow> transaction list \<Rightarrow> unit tx_result list \<Rightarrow> loaded list \<Rightarrow> bank \<Rightarrow> bank" where
  "store_stakes E txs executed lds b =
     b\<lparr>bank_stakes := fold (\<lambda>(k, a). stakes_store (be_stake_codec E) k a)
        (filter (\<lambda>p. is_stake (snd p)) (accounts_to_store txs executed lds)) (bank_stakes b)\<rparr>"

text \<open>
  The fees of a batch. A transaction that failed in an instruction pays from its first key now, because
  the accounts it was loaded with are not stored; when it cannot, it reports that error.
\<close>

fun collect_fees ::
  "bank_env \<Rightarrow> (transaction \<times> unit tx_result) list \<Rightarrow> u64 \<Rightarrow> bank \<times> shared \<Rightarrow>
     (unit tx_result list \<times> u64 \<times> bank \<times> shared) run" where
  "collect_fees E [] fees bs = run_ok ([], fees, bs)"
| "collect_fees E ((tx, r) # txrs) fees bs =
     (let m = tx_message tx; fee = calculate_fee (bank_fee_calculator (fst bs)) m
      in case r of
           Inr _ \<Rightarrow> run_bind (collect_fees E txrs (fees + fee) bs) (\<lambda>(rs, x). run_ok (Inr () # rs, x))
         | Inl (InstructionError _ _) \<Rightarrow>
             run_bind (Some (idx (account_keys m) 0)) (\<lambda>payer.
             run_bind (bank_withdraw E payer fee bs) (\<lambda>(w, bs').
               case w of
                 Inl e \<Rightarrow> run_bind (collect_fees E txrs fees bs') (\<lambda>(rs, x). run_ok (Inl e # rs, x))
               | Inr _ \<Rightarrow> run_bind (collect_fees E txrs (fees + fee) bs') (\<lambda>(rs, x). run_ok (Inr () # rs, x))))
         | Inl e \<Rightarrow> run_bind (collect_fees E txrs fees bs) (\<lambda>(rs, x). run_ok (Inl e # rs, x)))"

definition filter_program_errors_and_collect_fee ::
  "bank_env \<Rightarrow> transaction list \<Rightarrow> unit tx_result list \<Rightarrow> bank \<times> shared \<Rightarrow> (unit tx_result list \<times> bank \<times> shared) run" where
  "filter_program_errors_and_collect_fee E txs executed bs =
     run_bind (collect_fees E (zip txs executed) 0 bs) (\<lambda>(rs, fees, bs').
     run_bind (bank_deposit E (bank_collector_id (fst bs')) fees bs') (\<lambda>bs''. run_ok (rs, bs'')))"

definition commit_transactions ::
  "bank_env \<Rightarrow> transaction list \<Rightarrow> loaded list \<Rightarrow> unit tx_result list \<Rightarrow> bank \<times> shared \<Rightarrow>
     (unit tx_result list \<times> bank \<times> shared) run" where
  "commit_transactions E txs lds executed bs =
     (case bs of (b, s) \<Rightarrow>
        let b = (if list_ex can_commit executed then b\<lparr>bank_is_delta := True\<rparr> else b)
        in run_bind (store_accounts (be_db E) (bank_slot b) txs executed lds (sh_db s)) (\<lambda>db.
           run_bind (Some (update_transaction_statuses E txs executed (store_stakes E txs executed lds b, s\<lparr>sh_db := db\<rparr>)))
             (filter_program_errors_and_collect_fee E txs executed)))"

definition load_execute_and_commit_transactions ::
  "bank_env \<Rightarrow> transaction list \<Rightarrow> unit tx_result list \<Rightarrow> nat \<Rightarrow> bank \<times> shared \<Rightarrow>
     (unit tx_result list \<times> bank \<times> shared) run" where
  "load_execute_and_commit_transactions E txs lock_results max_age bs =
     run_bind (Some (load_and_execute_transactions E txs lock_results max_age bs)) (\<lambda>(lds, executed, bs').
       commit_transactions E txs lds executed bs')"

text \<open>The results of locking are dropped at the end of the batch, which unlocks the accounts.\<close>

definition process_transactions ::
  "bank_env \<Rightarrow> lock_heap \<Rightarrow> transaction list \<Rightarrow> bank \<times> shared \<Rightarrow> (unit tx_result list \<times> bank \<times> shared) run" where
  "process_transactions E H txs bs =
     (case bs of (b, s) \<Rightarrow>
        run_bind (lock_accounts H txs (bank_locks b)) (\<lambda>(lock_results, locks).
        run_bind (load_execute_and_commit_transactions E txs lock_results MAX_RECENT_BLOCKHASHES (b\<lparr>bank_locks := locks\<rparr>, s))
          (\<lambda>(rs, b', s'). run_ok (rs, b'\<lparr>bank_locks := unlock_accounts txs lock_results (bank_locks b')\<rparr>, s'))))"

section \<open>Signature statuses\<close>

definition get_signature_confirmation_status ::
  "bank \<Rightarrow> shared \<Rightarrow> signature \<Rightarrow> ('e, (nat \<times> unit tx_result) option) res" where
  "get_signature_confirmation_status b s sig =
     get_signature_status_slow (sh_status s) sig (bank_anc b) (length (bank_ancestors b))"

definition bank_get_signature_status :: "bank \<Rightarrow> shared \<Rightarrow> signature \<Rightarrow> ('e, unit tx_result option) res" where
  "bank_get_signature_status b s sig =
     res_bind (get_signature_confirmation_status b s sig) (\<lambda>r. Ok (map_option snd r))"

definition has_signature :: "bank \<Rightarrow> shared \<Rightarrow> signature \<Rightarrow> ('e, bool) res" where
  "has_signature b s sig = res_bind (get_signature_confirmation_status b s sig) (\<lambda>r. Ok (r \<noteq> None))"

definition process_transaction ::
  "bank_env \<Rightarrow> lock_heap \<Rightarrow> transaction \<Rightarrow> bank \<times> shared \<Rightarrow> (unit tx_result \<times> bank \<times> shared) run" where
  "process_transaction E H tx bs =
     run_bind (process_transactions E H [tx] bs) (\<lambda>(rs, b, s).
     run_bind (Some (idx rs 0)) (\<lambda>r.
       case r of
         Inl e \<Rightarrow> run_ok (Inl e, b, s)
       | Inr _ \<Rightarrow>
           (case signatures tx of
              [] \<Rightarrow> run_ok (Inr (), b, s)
            | sig # _ \<Rightarrow>
                run_bind (Some (bank_get_signature_status b s sig)) (\<lambda>st.
                run_bind (Some (unwrap st)) (\<lambda>r. run_ok (r, b, s))))))"

section \<open>Genesis\<close>

record genesis_block =
  gb_accounts :: "(pubkey \<times> account) list"
  gb_bootstrap_leader_pubkey :: pubkey
  gb_epoch_warmup :: bool
  gb_fee_calculator :: fee_calculator
  gb_native_instruction_processors :: "(string \<times> pubkey) list"
  gb_slots_per_epoch :: u64
  gb_stakers_slot_offset :: u64
  gb_ticks_per_slot :: u64

definition genesis_block_new :: "pubkey \<Rightarrow> (pubkey \<times> account) list \<Rightarrow> (string \<times> pubkey) list \<Rightarrow> genesis_block" where
  "genesis_block_new leader accounts processors =
     \<lparr>gb_accounts = accounts, gb_bootstrap_leader_pubkey = leader, gb_epoch_warmup = True,
      gb_fee_calculator = \<lparr>difs_per_signature = 0\<rparr>, gb_native_instruction_processors = processors,
      gb_slots_per_epoch = 4096, gb_stakers_slot_offset = 4096, gb_ticks_per_slot = 8\<rparr>"

definition bpf_loader_id :: pubkey where
  "bpf_loader_id = Pubkey
     [2, 168, 246, 145, 78, 136, 161, 107, 189, 35, 149, 133, 95, 100, 4, 217, 180, 244, 86, 183,
      130, 27, 176, 20, 87, 73, 66, 140, 0, 0, 0, 0]"

definition str_bytes :: "string \<Rightarrow> bytes" where
  "str_bytes cs = map of_char cs"

definition register_native_instruction_processor ::
  "bank_env \<Rightarrow> string \<Rightarrow> pubkey \<Rightarrow> bank \<times> shared \<Rightarrow> (bank \<times> shared) run" where
  "register_native_instruction_processor E name program_id bs =
     bank_store E program_id (create_loadable_account (str_bytes name)) bs"

definition bank_add_instruction_processor ::
  "bank_env \<Rightarrow> pubkey \<Rightarrow> process_instruction \<Rightarrow> bank \<times> shared \<Rightarrow> (bank \<times> shared) run" where
  "bank_add_instruction_processor E program_id p bs =
     (case bs of (b, s) \<Rightarrow>
        register_native_instruction_processor E '''' program_id
          (b\<lparr>bank_processor := add_instruction_processor program_id p (bank_processor b)\<rparr>, s))"

fun run_fold :: "('x \<Rightarrow> 's \<Rightarrow> 's run) \<Rightarrow> 'x list \<Rightarrow> 's \<Rightarrow> 's run" where
  "run_fold f [] st = run_ok st"
| "run_fold f (x # xs) st = run_bind (f x st) (run_fold f xs)"

text \<open>The hash of the genesis block (of its JSON text) and the clock are arguments.\<close>

definition process_genesis_block ::
  "bank_env \<Rightarrow> u64 \<Rightarrow> hash \<Rightarrow> genesis_block \<Rightarrow> bank \<times> shared \<Rightarrow> (bank \<times> shared) run" where
  "process_genesis_block E now gh gb bs =
     (case bs of (b, s) \<Rightarrow>
        run_bind (run_fold (\<lambda>(k, a). bank_store E k a) (gb_accounts gb)
          (b\<lparr>bank_collector_id := gb_bootstrap_leader_pubkey gb, bank_fee_calculator := gb_fee_calculator gb\<rparr>, s)) (\<lambda>(b, s).
        let b = b\<lparr>bank_queue := genesis_hash now gh (bank_queue b), bank_ticks_per_slot := gb_ticks_per_slot gb,
                  bank_max_tick_height := (bank_slot b + 1) * gb_ticks_per_slot gb - 1, bank_is_delta := True\<rparr>
        in run_bind (Some (epoch_schedule_new (gb_slots_per_epoch gb) (gb_stakers_slot_offset gb) (gb_epoch_warmup gb))) (\<lambda>sched.
           run_fold (\<lambda>(name, k). register_native_instruction_processor E name k)
             ([(''morgan_system_program'', system_program_id), (''morgan_bpf_loader'', bpf_loader_id),
               (''morgan_vote_controller'', vote_program_id)] @ gb_native_instruction_processors gb)
             (b\<lparr>bank_epoch_schedule := sched\<rparr>, s))))"

text \<open>\<open>p\<close> is the address of the record locks of the new bank.\<close>

definition bank_new ::
  "bank_env \<Rightarrow> u64 \<Rightarrow> hash \<Rightarrow> genesis_block \<Rightarrow> nat \<Rightarrow> lock_heap \<Rightarrow> (bank \<times> shared \<times> lock_heap) run" where
  "bank_new E now gh gb p H =
     (let (locks, H') = accounts_locks_new p H;
          b = (bank_default E locks)\<lparr>bank_ancestors := [(0, 0)]\<rparr>;
          s = \<lparr>sh_db = accounts_db_new, sh_status = status_cache_default\<rparr>
      in run_bind (process_genesis_block E now gh gb (b, s)) (\<lambda>(b, s).
           run_ok (b\<lparr>bank_epoch_stakes := (\<lambda>e. if e \<le> get_stakers_epoch (bank_epoch_schedule b) (bank_slot b)
                                              then Some (bank_stakes b) else bank_epoch_stakes b e)\<rparr>, s, H')))"

section \<open>The tree of banks\<close>

record world =
  w_shared :: shared
  w_heap :: lock_heap
  w_banks :: "nat \<rightharpoonup> bank"
  w_next :: nat

text \<open>
  The parents of a bank, nearest first: the loop follows the pointers until a bank without a parent.
  An \<open>Arc\<close> keeps a parent alive, so no pointer dangles; the model does not return on one.
\<close>

partial_function (option) parents_loop :: "(nat \<rightharpoonup> bank) \<Rightarrow> nat option \<Rightarrow> nat list option" where
  "parents_loop banks p =
     (case p of
        None \<Rightarrow> Some []
      | Some i \<Rightarrow>
          (case banks i of
             None \<Rightarrow> None
           | Some b \<Rightarrow> Option.bind (parents_loop banks (bank_parent b)) (\<lambda>ps. Some (i # ps))))"

definition bank_parents :: "(nat \<rightharpoonup> bank) \<Rightarrow> bank \<Rightarrow> nat list option" where
  "bank_parents banks b = parents_loop banks (bank_parent b)"

text \<open>The slot of the bank at an address.\<close>

definition slot_at :: "(nat \<rightharpoonup> bank) \<Rightarrow> nat \<Rightarrow> fork" where
  "slot_at banks i = (case banks i of None \<Rightarrow> 0 | Some b \<Rightarrow> bank_slot b)"

definition ancestors_of :: "(nat \<rightharpoonup> bank) \<Rightarrow> u64 \<Rightarrow> nat list \<Rightarrow> (fork \<times> nat) list" where
  "ancestors_of banks sl ps =
     fold (\<lambda>(i, p). AList.update (slot_at banks p) (i + 1)) (enumerate 0 ps) (AList.update sl 0 [])"

definition confirmed_last_blockhash :: "(nat \<rightharpoonup> bank) \<Rightarrow> bank \<Rightarrow> hash run" where
  "confirmed_last_blockhash banks b =
     Option.bind (bank_parents banks b) (\<lambda>ps.
       if ps = [] then Some (last_blockhash b)
       else (case banks (ps ! min 3 (length ps - 1)) of None \<Rightarrow> None | Some p \<Rightarrow> Some (last_blockhash p)))"

text \<open>A bank of the world that is frozen in place.\<close>

definition world_freeze :: "bank_env \<Rightarrow> nat \<Rightarrow> world \<Rightarrow> (bank \<times> world) run" where
  "world_freeze E i w =
     (case w_banks w i of
        None \<Rightarrow> None
      | Some b \<Rightarrow> run_bind (freeze E (b, w_shared w)) (\<lambda>(b', s').
          run_ok (b', w\<lparr>w_shared := s', w_banks := (w_banks w)(i \<mapsto> b')\<rparr>)))"

definition new_from_parent :: "bank_env \<Rightarrow> nat \<Rightarrow> pubkey \<Rightarrow> u64 \<Rightarrow> world \<Rightarrow> (nat \<times> world) run" where
  "new_from_parent E i collector_id sl w =
     run_bind (world_freeze E i w) (\<lambda>(p, w).
       if sl = bank_slot p then Some Panic
       else Option.bind (bank_parents (w_banks w) p) (\<lambda>ps.
         let j = w_next w;
             (locks, plocks, H) = accounts_locks_new_from_parent j (bank_locks p) (w_heap w);
             epoch = get_stakers_epoch (bank_epoch_schedule p) sl;
             es = bank_epoch_stakes p;
             b = (bank_default E locks)
                   \<lparr>bank_queue := bank_queue p, bank_height := bank_height p + 1,
                    bank_fee_calculator := bank_fee_calculator p, bank_transaction_count := bank_transaction_count p,
                    bank_stakes := bank_stakes p, bank_tick_height := bank_tick_height p,
                    bank_ticks_per_slot := bank_ticks_per_slot p, bank_epoch_schedule := bank_epoch_schedule p,
                    bank_slot := sl, bank_max_tick_height := (sl + 1) * bank_ticks_per_slot p - 1,
                    bank_parent := Some i, bank_parent_hash := bank_hash p, bank_collector_id := collector_id,
                    bank_epoch_stakes := (if es epoch = None then es(epoch \<mapsto> bank_stakes p) else es),
                    bank_ancestors := ancestors_of (w_banks w) sl (i # ps)\<rparr>
         in run_ok (j, w\<lparr>w_heap := H, w_banks := (w_banks w)(i \<mapsto> p\<lparr>bank_locks := plocks\<rparr>, j \<mapsto> b), w_next := j + 1\<rparr>)))"

definition squash :: "bank_env \<Rightarrow> nat \<Rightarrow> world \<Rightarrow> world run" where
  "squash E i w =
     run_bind (world_freeze E i w) (\<lambda>(b, w).
       Option.bind (bank_parents (w_banks w) b) (\<lambda>ps.
         let slots = map (slot_at (w_banks w)) ps
         in run_bind (run_fold (\<lambda>f db. Some (db_add_root f db)) (rev slots) (sh_db (w_shared w))) (\<lambda>db.
              run_ok (w\<lparr>w_banks := (w_banks w)(i \<mapsto> b\<lparr>bank_parent := None\<rparr>),
                        w_shared := \<lparr>sh_db = db, sh_status = fold sc_add_root slots (sh_status (w_shared w))\<rparr>\<rparr>))))"

text \<open>The last reference to a bank goes away: its fork is purged unless it is a root.\<close>

definition bank_drop :: "nat \<Rightarrow> world \<Rightarrow> world" where
  "bank_drop i w =
     (case w_banks w i of
        None \<Rightarrow> w
      | Some b \<Rightarrow> w\<lparr>w_banks := (w_banks w)(i := None),
                   w_shared := (w_shared w)\<lparr>sh_db := db_purge_fork (bank_slot b) (sh_db (w_shared w))\<rparr>\<rparr>)"

definition epoch_vote_accounts :: "bank \<Rightarrow> u64 \<Rightarrow> (pubkey \<times> (u64 \<times> account)) list option" where
  "epoch_vote_accounts b epoch = map_option vote_accounts (bank_epoch_stakes b epoch)"

end
