(* ===== verification/Bank_Safety.thy ===== *)
theory Bank_Safety
  imports Bank_Model
begin

text \<open>
  What batches of transactions do to the accounts that a bank sees: the difs are conserved through
  loading, execution, storing and the collection of fees, a transaction is not processed twice, and
  freezing is final. The proofs rest on the interface \<open>account_store\<close> of the database, on the laws of the
  message processor, of the account locks and of the status cache.
\<close>

section \<open>Single accounts\<close>

abbreviation bank_ld :: "bank_env \<Rightarrow> bank \<Rightarrow> shared \<Rightarrow> pubkey \<Rightarrow> account option" where
  "bank_ld E b s \<equiv> tip_load (be_db E) (bank_anc b) (sh_db s)"

text \<open>
  The bank is at the tip of its fork, everything it reads can be stored again (with any difs), and so
  can a new account.
\<close>

definition bank_inv :: "bank_env \<Rightarrow> fork set \<Rightarrow> bank \<Rightarrow> shared \<Rightarrow> bool" where
  "bank_inv E P b s \<longleftrightarrow>
     fork_tip (be_db E) P (bank_anc b) (bank_slot b) (sh_db s) \<and>
     (\<forall>k a. bank_ld E b s k = Some a \<longrightarrow> storable (be_db E) (sh_db s) (k, a\<lparr>difs := 1\<rparr>)) \<and>
     storable (be_db E) (sh_db s) (default_pubkey, default_account\<lparr>difs := 1\<rparr>)"

definition bank_frame :: "bank \<Rightarrow> bank \<Rightarrow> bool" where
  "bank_frame b b' \<longleftrightarrow> (\<exists>st. b' = b\<lparr>bank_stakes := st\<rparr>)"

lemma bank_frameD:
  assumes "bank_frame b b'"
  shows "bank_ancestors b' = bank_ancestors b" "bank_slot b' = bank_slot b" "bank_fee_calculator b' = bank_fee_calculator b"
    "bank_collector_id b' = bank_collector_id b" "bank_hash b' = bank_hash b" "bank_queue b' = bank_queue b"
    "bank_locks b' = bank_locks b"
  using assms by (auto simp: bank_frame_def)

lemma bank_frame_refl [simp]: "bank_frame b b"
  unfolding bank_frame_def by (rule exI [of _ "bank_stakes b"]) simp

lemma bank_frame_trans: "bank_frame a b \<Longrightarrow> bank_frame b c \<Longrightarrow> bank_frame a c"
  by (auto simp: bank_frame_def)

lemma bank_get_account_alt:
  "bank_get_account E b s k = (case bank_ld E b s k of None \<Rightarrow> None | Some a \<Rightarrow> if difs a \<noteq> 0 then Some a else None)"
  by (auto simp: bank_get_account_def accounts_load_slow_def tip_load_def split: option.split)

lemma bank_get_balance_alt: "bank_get_balance E b s k = balance_of (bank_ld E b s) k"
  by (auto simp: bank_get_balance_def bank_get_account_alt balance_of_def split: option.split)

lemma storable_any: "storable E db (k, a\<lparr>difs := 1\<rparr>) \<Longrightarrow> storable E db (k, a\<lparr>difs := d\<rparr>)"
  by (auto simp: storable_def)

lemma storable_as_stored:
  assumes "storable E db (k, a)" "storable E db (default_pubkey, default_account\<lparr>difs := 1\<rparr>)"
  shows "storable E db (k, (as_stored a)\<lparr>difs := 1\<rparr>)"
  using assms by (auto simp: storable_def as_stored_def default_account_def)

text \<open>
  An update of the bank that touches the keys \<open>ks\<close> only and moves the total over any larger set of keys
  by \<open>d\<close>. Updates compose.
\<close>

definition bank_moves :: "bank_env \<Rightarrow> fork set \<Rightarrow> bank \<Rightarrow> shared \<Rightarrow> pubkey set \<Rightarrow> u64 \<Rightarrow> bank \<Rightarrow> shared \<Rightarrow> bool" where
  "bank_moves E P b s ks d b' s' \<longleftrightarrow>
     bank_inv E P b' s' \<and> bank_frame b b' \<and> sh_status s' = sh_status s \<and>
     (\<forall>j. j \<notin> ks \<longrightarrow> bank_ld E b' s' j = bank_ld E b s j) \<and>
     (\<forall>K. finite K \<longrightarrow> ks \<subseteq> K \<longrightarrow> total_balance K (bank_ld E b' s') = total_balance K (bank_ld E b s) + d)"

lemma bank_moves_refl: "bank_inv E P b s \<Longrightarrow> bank_moves E P b s ks 0 b s"
  by (simp add: bank_moves_def)

lemma bank_moves_trans:
  "bank_moves E P b s ks d b' s' \<Longrightarrow> bank_moves E P b' s' ks' d' b'' s'' \<Longrightarrow> bank_moves E P b s (ks \<union> ks') (d + d') b'' s''"
  unfolding bank_moves_def using bank_frame_trans by (auto simp: add.assoc)

lemma bank_moves_mono: "bank_moves E P b s ks d b' s' \<Longrightarrow> ks \<subseteq> ks' \<Longrightarrow> bank_moves E P b s ks' d b' s'"
  unfolding bank_moves_def by auto

lemma bank_put_moves:
  assumes inv: "bank_inv E P b s" and st: "\<forall>ka \<in> set as. storable (be_db E) (sh_db s) ka" and dist: "distinct (map fst as)"
  shows "\<exists>db. db_store (be_db E) (bank_slot b) as (sh_db s) = Some (Ok db :: (unit, accounts_db) res) \<and>
    (\<forall>b'. bank_frame b b' \<longrightarrow> bank_moves E P b s (fst ` set as)
       (sum_list (map (\<lambda>ka. difs (snd ka)) as) - sum_list (map (\<lambda>ka. balance_of (bank_ld E b s) (fst ka)) as)) b' (s\<lparr>sh_db := db\<rparr>))"
proof -
  have tip: "fork_tip (be_db E) P (bank_anc b) (bank_slot b) (sh_db s)" using inv by (simp add: bank_inv_def)
  obtain db where db: "db_store (be_db E) (bank_slot b) as (sh_db s) = Some (Ok db :: (unit, accounts_db) res)"
    "fork_tip (be_db E) P (bank_anc b) (bank_slot b) db" "storable (be_db E) db = storable (be_db E) (sh_db s)"
    and ld: "\<And>j. tip_load (be_db E) (bank_anc b) db j =
      (case map_of (rev as) j of None \<Rightarrow> tip_load (be_db E) (bank_anc b) (sh_db s) j | Some a \<Rightarrow> Some (as_stored a))"
    using tip.put_loadE [OF tip st] by blast
  have "bank_moves E P b s (fst ` set as)
       (sum_list (map (\<lambda>ka. difs (snd ka)) as) - sum_list (map (\<lambda>ka. balance_of (bank_ld E b s) (fst ka)) as)) b' (s\<lparr>sh_db := db\<rparr>)"
    if frame: "bank_frame b b'" for b'
  proof -
    note b = bank_frameD [OF frame]
    have l: "bank_ld E b' (s\<lparr>sh_db := db\<rparr>) j = (case map_of (rev as) j of None \<Rightarrow> bank_ld E b s j | Some a \<Rightarrow> Some (as_stored a))" for j
      using ld [of j] by (simp add: b)
    have "storable (be_db E) (sh_db s) (j, a\<lparr>difs := 1\<rparr>)" if "bank_ld E b' (s\<lparr>sh_db := db\<rparr>) j = Some a" for j a
    proof (cases "map_of (rev as) j")
      case None
      then show ?thesis using that l [of j] inv by (simp add: bank_inv_def)
    next
      case (Some c)
      then have "storable (be_db E) (sh_db s) (j, c)" using st map_of_SomeD [OF Some] by simp
      then show ?thesis using Some that l [of j] inv storable_as_stored by (auto simp: bank_inv_def)
    qed
    then have "bank_inv E P b' (s\<lparr>sh_db := db\<rparr>)"
      using inv db(2,3) unfolding bank_inv_def b by auto
    moreover have "bank_ld E b' (s\<lparr>sh_db := db\<rparr>) j = bank_ld E b s j" if "j \<notin> fst ` set as" for j
    proof -
      have "map_of (rev as) j = None" using that by (simp add: map_of_eq_None_iff)
      then show ?thesis using l [of j] by simp
    qed
    ultimately show ?thesis
      unfolding bank_moves_def using frame tip.put_total [OF tip st dist _ _ db(1)] by (simp add: b)
  qed
  then show ?thesis using db(1) by blast
qed

lemma bank_store_moves:
  assumes "bank_inv E P b s" "storable (be_db E) (sh_db s) (k, a)"
  shows "\<exists>b' s'. bank_store E k a (b, s) = Some (Ok (b', s')) \<and>
    bank_moves E P b s {k} (difs a - balance_of (bank_ld E b s) k) b' s'"
proof -
  let ?b = "if is_stake a then b\<lparr>bank_stakes := stakes_store (be_stake_codec E) k a (bank_stakes b)\<rparr> else b"
  from bank_put_moves [OF assms(1), of "[(k, a)]"] assms(2) obtain db where
    "db_store (be_db E) (bank_slot b) [(k, a)] (sh_db s) = Some (Ok db :: (unit, accounts_db) res)"
    and m: "\<And>b'. bank_frame b b' \<Longrightarrow> bank_moves E P b s {k} (difs a - balance_of (bank_ld E b s) k) b' (s\<lparr>sh_db := db\<rparr>)"
    by auto
  moreover have "bank_frame b ?b" unfolding bank_frame_def by (rule exI [of _ "bank_stakes ?b"]) simp
  ultimately show ?thesis
    by (intro exI [of _ ?b] exI [of _ "s\<lparr>sh_db := db\<rparr>"]) (simp add: bank_store_def store_slow_def)
qed

lemma bank_withdraw_moves:
  assumes inv: "bank_inv E P b s"
  shows "\<exists>r b' s'. bank_withdraw E k d (b, s) = Some (Ok (r, b', s')) \<and>
    bank_moves E P b s {k} (if r = Inr () then - d else 0) b' s'"
proof (cases "bank_get_account E b s k")
  case None
  then show ?thesis using bank_moves_refl [OF inv] by (simp add: bank_withdraw_def)
next
  case (Some a)
  then have ld: "bank_ld E b s k = Some a" by (auto simp: bank_get_account_alt split: option.splits if_splits)
  show ?thesis
  proof (cases "d > difs a")
    case True
    then show ?thesis using Some bank_moves_refl [OF inv] by (simp add: bank_withdraw_def)
  next
    case False
    have "storable (be_db E) (sh_db s) (k, a\<lparr>difs := difs a - d\<rparr>)"
      by (rule storable_any) (use inv ld in \<open>simp add: bank_inv_def\<close>)
    from bank_store_moves [OF inv this] obtain b' s' where
      "bank_store E k (a\<lparr>difs := difs a - d\<rparr>) (b, s) = Some (Ok (b', s'))" "bank_moves E P b s {k} (- d) b' s'"
      using ld by (auto simp: balance_of_def)
    then show ?thesis using Some False by (simp add: bank_withdraw_def)
  qed
qed

lemma bank_deposit_moves:
  assumes inv: "bank_inv E P b s" and k: "valid_key k"
  shows "\<exists>b' s'. bank_deposit E k d (b, s) = Some (Ok (b', s')) \<and> bank_moves E P b s {k} d b' s'"
proof -
  define a where "a = (case bank_get_account E b s k of None \<Rightarrow> default_account | Some a \<Rightarrow> a)"
  have bal: "balance_of (bank_ld E b s) k = difs a"
    by (auto simp: a_def bank_get_account_alt balance_of_def default_account_def split: option.split)
  have "storable (be_db E) (sh_db s) (k, a\<lparr>difs := 1\<rparr>)"
    using inv k by (auto simp: a_def bank_inv_def bank_get_account_alt storable_def split: option.splits if_splits)
  from bank_store_moves [OF inv storable_any [OF this, of "difs a + d"]] show ?thesis
    by (simp add: bank_deposit_def a_def [symmetric] bal)
qed

section \<open>The fees of a batch\<close>

abbreviation batch_fees :: "fee_calculator \<Rightarrow> (transaction \<times> unit tx_result) list \<Rightarrow> u64" where
  "batch_fees fc txrs \<equiv> sum_list (map (\<lambda>p. calculate_fee fc (tx_message (fst p))) (filter (\<lambda>p. snd p = Inr ()) txrs))"

definition has_payer :: "transaction \<times> unit tx_result \<Rightarrow> bool" where
  "has_payer p \<longleftrightarrow> (\<forall>n e. snd p = Inl (InstructionError n e) \<longrightarrow> account_keys (tx_message (fst p)) \<noteq> [])"

definition batch_keys_of :: "(transaction \<times> unit tx_result) list \<Rightarrow> pubkey set" where
  "batch_keys_of txrs = (\<Union>p \<in> set txrs. set (account_keys (tx_message (fst p))))"

text \<open>The fees collected are those of the transactions whose result, in what the batch returns, is \<open>Ok\<close>.\<close>

lemma bank_frame_stakes: "bank_frame b (b\<lparr>bank_stakes := st\<rparr>)"
  unfolding bank_frame_def by blast

lemma bank_store_frame: "bank_store E k a (b, s) = Some (Ok (b', s')) \<Longrightarrow> bank_frame b b' \<and> sh_status s' = sh_status s"
  by (auto simp: bank_store_def intro: bank_frame_stakes)

lemma bank_withdraw_frame:
  "bank_withdraw E k d (b, s) = Some (Ok (r, b', s')) \<Longrightarrow> bank_frame b b' \<and> sh_status s' = sh_status s"
  by (auto simp: bank_withdraw_def dest: bank_store_frame split: option.splits if_splits)

lemma bank_deposit_frame: "bank_deposit E k d (b, s) = Some (Ok (b', s')) \<Longrightarrow> bank_frame b b' \<and> sh_status s' = sh_status s"
  by (auto simp: bank_deposit_def Let_def dest: bank_store_frame)

lemma collect_fees_total:
  assumes "collect_fees E txrs fees (b, s) = Some (Ok (rs, fees', b', s'))"
  shows "sh_status s' = sh_status s \<and> length rs = length txrs \<and>
    fees' = fees + batch_fees (bank_fee_calculator b) (zip (map fst txrs) rs)"
  using assms
proof (induction txrs arbitrary: fees b s rs)
  case (Cons p txrs)
  obtain tx r where p: "p = (tx, r)" by (cases p)
  show ?case
  proof (cases "\<exists>n e. r = Inl (InstructionError n e)")
    case True
    then obtain k w b1 s1 where w: "bank_withdraw E k (calculate_fee (bank_fee_calculator b) (tx_message tx)) (b, s) = Some (Ok (w, b1, s1))"
      and r: "(case w of
          Inl e \<Rightarrow> run_bind (collect_fees E txrs fees (b1, s1)) (\<lambda>(rs, x). run_ok (Inl e # rs, x))
        | Inr _ \<Rightarrow> run_bind (collect_fees E txrs (fees + calculate_fee (bank_fee_calculator b) (tx_message tx)) (b1, s1))
            (\<lambda>(rs, x). run_ok (Inr () # rs, x))) = Some (Ok (rs, fees', b', s'))"
      using Cons.prems by (auto simp: p Let_def)
    obtain rs1 where rs: "rs = w # rs1"
      and c: "collect_fees E txrs (if w = Inr () then fees + calculate_fee (bank_fee_calculator b) (tx_message tx) else fees) (b1, s1) =
        Some (Ok (rs1, fees', b', s'))"
      using r by (cases w) auto
    show ?thesis using Cons.IH [OF c] bank_withdraw_frame [OF w] bank_frameD(3) [of b b1] by (simp add: p rs)
  next
    case False
    then obtain rs1 where rs: "rs = r # rs1"
      and c: "collect_fees E txrs (if r = Inr () then fees + calculate_fee (bank_fee_calculator b) (tx_message tx) else fees) (b, s) =
        Some (Ok (rs1, fees', b', s'))"
      using Cons.prems by (auto simp: p Let_def split: sum.splits transaction_error.splits)
    show ?thesis using Cons.IH [OF c] by (simp add: p rs)
  qed
qed simp

lemma collect_fees_moves:
  assumes "bank_inv E P b s" "\<forall>p \<in> set txrs. has_payer p"
  shows "\<exists>rs fees' b' s'. collect_fees E txrs fees (b, s) = Some (Ok (rs, fees', b', s')) \<and>
    bank_moves E P b s (batch_keys_of txrs) (fees + batch_fees (bank_fee_calculator b) txrs - fees') b' s'"
  using assms
proof (induction txrs arbitrary: b s fees)
  case Nil
  then show ?case using bank_moves_refl by (simp add: batch_keys_of_def)
next
  case (Cons p txrs)
  obtain tx r where p: "p = (tx, r)" by (cases p)
  let ?fee = "calculate_fee (bank_fee_calculator b) (tx_message tx)"
  have keys: "batch_keys_of txrs \<subseteq> batch_keys_of (p # txrs)" "set (account_keys (tx_message tx)) \<subseteq> batch_keys_of (p # txrs)"
    by (auto simp: batch_keys_of_def p)
  have rest: "\<exists>rs fees' b' s'. collect_fees E txrs f (c, t) = Some (Ok (rs, fees', b', s')) \<and>
      bank_moves E P c t (batch_keys_of txrs) (f + batch_fees (bank_fee_calculator c) txrs - fees') b' s'"
    if "bank_inv E P c t" for f c t
    using Cons.IH [OF that] Cons.prems(2) by simp
  show ?case
  proof (cases "\<exists>n e. r = Inl (InstructionError n e)")
    case True
    then obtain n e where r: "r = Inl (InstructionError n e)" by blast
    then obtain k ks where k: "account_keys (tx_message tx) = k # ks"
      using Cons.prems(2) by (auto simp: has_payer_def p neq_Nil_conv)
    obtain w b1 s1 where w: "bank_withdraw E k ?fee (b, s) = Some (Ok (w, b1, s1))"
      "bank_moves E P b s {k} (if w = Inr () then - ?fee else 0) b1 s1"
      using bank_withdraw_moves [OF Cons.prems(1)] by blast
    have fc: "bank_fee_calculator b1 = bank_fee_calculator b" using w(2) bank_frameD by (auto simp: bank_moves_def)
    let ?f = "if w = Inr () then fees + ?fee else fees"
    obtain rs fees' b' s' where c: "collect_fees E txrs ?f (b1, s1) = Some (Ok (rs, fees', b', s'))"
      "bank_moves E P b1 s1 (batch_keys_of txrs) (?f + batch_fees (bank_fee_calculator b1) txrs - fees') b' s'"
      using rest [of b1 s1 ?f] w(2) by (auto simp: bank_moves_def)
    have "(if w = Inr () then - ?fee else 0) + (?f + batch_fees (bank_fee_calculator b1) txrs - fees') =
        fees + batch_fees (bank_fee_calculator b) (p # txrs) - fees'" by (simp add: fc p r)
    with bank_moves_mono [OF bank_moves_trans [OF w(2) c(2)], of "batch_keys_of (p # txrs)"] keys k
    have "bank_moves E P b s (batch_keys_of (p # txrs)) (fees + batch_fees (bank_fee_calculator b) (p # txrs) - fees') b' s'"
      by simp
    moreover have "\<exists>x. collect_fees E (p # txrs) fees (b, s) = Some (Ok (x # rs, fees', b', s'))"
      using w(1) c(1) by (cases w) (auto simp: p r k)
    ultimately show ?thesis by blast
  next
    case False
    let ?f = "if r = Inr () then fees + ?fee else fees"
    obtain rs fees' b' s' where c: "collect_fees E txrs ?f (b, s) = Some (Ok (rs, fees', b', s'))"
      "bank_moves E P b s (batch_keys_of txrs) (?f + batch_fees (bank_fee_calculator b) txrs - fees') b' s'"
      using rest [OF Cons.prems(1), of ?f] by blast
    have "?f + batch_fees (bank_fee_calculator b) txrs - fees' = fees + batch_fees (bank_fee_calculator b) (p # txrs) - fees'"
      by (simp add: p)
    with bank_moves_mono [OF c(2) keys(1)]
    have "bank_moves E P b s (batch_keys_of (p # txrs)) (fees + batch_fees (bank_fee_calculator b) (p # txrs) - fees') b' s'"
      by simp
    moreover have "\<exists>x. collect_fees E (p # txrs) fees (b, s) = Some (Ok (x # rs, fees', b', s'))"
    proof (cases r)
      case (Inl e)
      then show ?thesis using c(1) False by (cases e) (simp_all add: p)
    qed (use c(1) in \<open>simp add: p\<close>)
    ultimately show ?thesis by blast
  qed
qed

section \<open>Loading and execution\<close>

text \<open>
  Messages as the program compiles them when no instruction lists an unsigned credit-only account: the keys
  that are locked come first, and the keys that are not are exactly the programs. Other unsigned
  credit-only accounts are excluded because they are not locked although their stored versions are written
  back: of two transactions of a batch that credit the same account, the later one would overwrite the other's
  credit.
\<close>

definition aligned :: "transaction \<Rightarrow> bool" where
  "aligned tx \<longleftrightarrow>
     (\<exists>ks ros ids. account_keys (tx_message tx) = ks @ ros \<and>
        length ros = unat (num_credit_only_unsigned_accounts (header (tx_message tx))) \<and>
        (program_ids (tx_message tx) :: (unit, pubkey list) res) = Ok ids \<and> set ks \<inter> set ids = {} \<and> set ros \<subseteq> set ids)"

lemma program_ids_cong: "(program_ids m :: (unit, pubkey list) res) = Ok ids \<Longrightarrow> (program_ids m :: ('e, pubkey list) res) = Ok ids"
  by (simp add: program_ids_def res_map_Ok_iff list_all2_conv_all_nth)

lemma called_accounts_eq:
  assumes "(program_ids m :: (unit, pubkey list) res) = Ok ids"
  shows "(called_accounts ld m keys :: ('e, account list) res) =
    Ok (map (\<lambda>k. case ld k of None \<Rightarrow> default_account | Some a \<Rightarrow> a) (filter (\<lambda>k. k \<notin> set ids) keys))"
  using program_ids_cong [OF assms] by (induction keys) auto

text \<open>What a transaction that was executed stores: its locked keys, with the fee taken off.\<close>

definition tx_stores :: "(pubkey \<Rightarrow> account option) \<Rightarrow> fee_calculator \<Rightarrow> transaction \<Rightarrow> loaded \<Rightarrow> bool" where
  "tx_stores ld fc tx l \<longleftrightarrow>
     (\<exists>ks ros as ls. l = Inr (as, ls) \<and> account_keys (tx_message tx) = ks @ ros \<and> length as = length ks \<and>
        distinct ks \<and> set ks = locked_keys tx \<and>
        sum_difs as = sum_list (map (balance_of ld) ks) - calculate_fee fc (tx_message tx))"

lemma load_transaction_cases:
  assumes "load_transaction ld fc tx r = (Ok l :: ('e, loaded) res)"
  obtains (failed) e where "r = Inl e" "l = Inl e"
  | (accounts) e where "r = Inr ()" "load_tx_accounts ld tx (calculate_fee fc (tx_message tx)) = (Ok (Inl e) :: ('e, account list tx_result) res)" "l = Inl e"
  | (loaders) e where "r = Inr ()" "load_loaders ld tx = Inl e" "l = Inl e"
  | (loaded) as ls where "r = Inr ()" "load_tx_accounts ld tx (calculate_fee fc (tx_message tx)) = (Ok (Inr as) :: ('e, account list tx_result) res)"
      "load_loaders ld tx = Inr ls" "l = Inr (as, ls)"
proof (cases r)
  case (Inl e)
  then show ?thesis using assms failed by (simp add: load_transaction_def)
next
  case (Inr u)
  with assms obtain x where x: "load_tx_accounts ld tx (calculate_fee fc (tx_message tx)) = (Ok x :: ('e, account list tx_result) res)"
    and l: "l = (case x of Inl e \<Rightarrow> Inl e | Inr as \<Rightarrow> (case load_loaders ld tx of Inl e \<Rightarrow> Inl e | Inr ls \<Rightarrow> Inr (as, ls)))"
    by (auto simp: load_transaction_def)
  show ?thesis
  proof (cases x)
    case Inl
    then show ?thesis using x l \<open>r = Inr u\<close> accounts by simp
  next
    case (Inr as)
    then show ?thesis using x l \<open>r = Inr u\<close> by (cases "load_loaders ld tx") (auto intro: loaders loaded)
  qed
qed

lemma load_transaction_stores:
  assumes al: "aligned tx" and l: "load_transaction ld fc tx r = (Ok (Inr (as, ls)) :: ('e, loaded) res)"
  shows "r = Inr ()" "tx_stores ld fc tx (Inr (as, ls))" "account_keys (tx_message tx) \<noteq> []"
proof -
  let ?m = "tx_message tx" and ?fee = "calculate_fee fc (tx_message tx)"
  show r: "r = Inr ()" using l by (auto simp: load_transaction_def split: sum.splits)
  obtain ks ros ids where a: "account_keys ?m = ks @ ros" "length ros = unat (num_credit_only_unsigned_accounts (header ?m))"
    "(program_ids ?m :: (unit, pubkey list) res) = Ok ids" "set ks \<inter> set ids = {}" "set ros \<subseteq> set ids"
    using al unfolding aligned_def by blast
  have "filter (\<lambda>k. k \<notin> set ids) ks = ks" by (rule filter_True) (use a(4) in auto)
  moreover have "filter (\<lambda>k. k \<notin> set ids) ros = []" by (rule filter_False) (use a(5) in auto)
  ultimately have f: "filter (\<lambda>k. k \<notin> set ids) (account_keys ?m) = ks" by (simp add: a(1))
  let ?as = "map (\<lambda>k. case ld k of None \<Rightarrow> default_account | Some a \<Rightarrow> a) ks"
  have "load_tx_accounts ld tx ?fee = (Ok (Inr as) :: ('e, account list tx_result) res)"
    using l by (cases rule: load_transaction_cases) auto
  then obtain x xs where dup: "\<not> has_duplicates (account_keys ?m)" and x: "?as = x # xs" "as = x\<lparr>difs := difs x - ?fee\<rparr> # xs"
    by (auto simp: load_tx_accounts_def Let_def called_accounts_eq [OF a(3)] f split: if_splits list.splits)
  have "distinct (account_keys ?m)" using dup has_duplicates_iff by blast
  then have d: "distinct ks" by (simp add: a(1))
  have "locked_keys tx = set ks" using a(1,2) by (simp add: locked_keys_def lock_keys_def Let_def)
  moreover have "sum_difs ?as = sum_list (map (balance_of ld) ks)"
    by (simp add: comp_def balance_of_def default_account_def option.case_distrib [where h = difs] cong: map_cong option.case_cong)
  then have "sum_difs as = sum_list (map (balance_of ld) ks) - ?fee" unfolding x by simp
  moreover have "length as = length ks" using x by (metis length_Cons length_map)
  ultimately show "tx_stores ld fc tx (Inr (as, ls))" unfolding tx_stores_def using a(1) d by blast
  show "account_keys ?m \<noteq> []" using x(1) by (auto simp: a(1))
qed

definition is_instruction_error :: "'a tx_result \<Rightarrow> bool" where
  "is_instruction_error r \<longleftrightarrow> (\<exists>n e. r = Inl (InstructionError n e))"

lemma executable_loop_error: "\<not> is_instruction_error (executable_loop ld depth pid as)"
  by (induction ld depth pid as rule: executable_loop.induct, subst executable_loop.simps)
    (auto simp: is_instruction_error_def split: option.split)

lemma loaders_of_error: "\<not> is_instruction_error (loaders_of ld keys ixs)"
  using executable_loop_error [of ld 0 _ "[]"]
  by (induction ixs) (auto simp: is_instruction_error_def load_executable_accounts_def split: sum.split)

lemma load_tx_accounts_error:
  assumes "load_tx_accounts ld tx fee = (Ok (Inl e) :: ('e, account list tx_result) res)"
  shows "e \<noteq> InstructionError n i"
proof (cases "called_accounts ld (tx_message tx) (account_keys (tx_message tx)) :: ('e, account list) res")
  case (Ok as)
  then show ?thesis using assms by (cases as) (auto simp: load_tx_accounts_def Let_def split: if_splits)
qed (use assms in \<open>auto simp: load_tx_accounts_def Let_def split: if_splits\<close>)

lemma load_transaction_error:
  assumes "load_transaction ld fc tx r = (Ok l :: ('e, loaded) res)" "is_instruction_error l"
  shows "is_instruction_error r"
  using assms(1)
proof (cases rule: load_transaction_cases)
  case (accounts e)
  then show ?thesis using assms(2) load_tx_accounts_error [OF accounts(2)] by (auto simp: is_instruction_error_def)
next
  case (loaders e)
  then show ?thesis using assms(2) loaders_of_error [of ld "account_keys (tx_message tx)" "instructions (tx_message tx)"]
    by (simp add: load_loaders_def is_instruction_error_def)
qed (use assms(2) in \<open>simp_all add: is_instruction_error_def\<close>)

lemma check_transactions_nth:
  assumes "check_transactions b s txs rs max_age = (Ok rs' :: ('e, unit tx_result list) res)" "length rs = length txs"
  shows "length rs' = length txs \<and> (\<forall>i < length txs. (rs' ! i = Inr () \<longrightarrow> rs ! i = Inr ()) \<and>
    (is_instruction_error (rs' ! i) \<longrightarrow> is_instruction_error (rs ! i)))"
proof -
  let ?ra = "check_refs txs rs" and ?rb = "check_age (bank_queue b) txs (check_refs txs rs) max_age"
  have len: "length ?ra = length txs" "length ?rb = length txs" using assms(2) by (simp_all add: check_refs_def check_age_def)
  have step: "(?rb ! i = Inr () \<longrightarrow> rs ! i = Inr ()) \<and> (is_instruction_error (?rb ! i) \<longrightarrow> is_instruction_error (rs ! i))"
    if "i < length txs" for i
    using that assms(2) len(1)
    by (auto simp: check_age_def check_refs_def is_instruction_error_def split: if_splits)
  have "list_all2 (\<lambda>p r. check_signature (sh_status s) (bank_anc b) (fst p) (snd p) = (Ok r :: ('e, unit tx_result) res)) (zip txs ?rb) rs'"
    using assms(1) by (simp add: check_transactions_def check_signatures_def res_map_Ok_iff case_prod_unfold)
  then have "length rs' = length txs" and
    sig: "\<And>i. i < length txs \<Longrightarrow> check_signature (sh_status s) (bank_anc b) (txs ! i) (?rb ! i) = (Ok (rs' ! i) :: ('e, unit tx_result) res)"
    using len by (auto simp: list_all2_conv_all_nth)
  moreover have "(r' = Inr () \<longrightarrow> r = Inr ()) \<and> (is_instruction_error r' \<longrightarrow> is_instruction_error r)"
    if "check_signature c anc tx r = (Ok r' :: ('e, unit tx_result) res)" for c anc tx r r'
    using that by (auto simp: check_signature_def is_instruction_error_def split: list.splits if_splits)
  ultimately show ?thesis using step by blast
qed

lemma execute_loop_nth:
  assumes "execute_loop env tick ltxs cache = (Ok (rs, cache') :: ('e, (loaded \<times> unit tx_result) list \<times> symbol_cache) res)"
    "env_ok env" "cache_ok env cache"
  shows "cache_ok env cache' \<and> length rs = length ltxs \<and>
    (\<forall>i < length ltxs.
       (snd (rs ! i) = Inr () \<longrightarrow> (\<exists>as ls as' ls'. fst (ltxs ! i) = Inr (as, ls) \<and> fst (rs ! i) = Inr (as', ls') \<and>
          length as' = length as \<and> sum_difs as' = sum_difs as)) \<and>
       (\<forall>e. fst (ltxs ! i) = Inl e \<longrightarrow> snd (rs ! i) = Inl e))"
  using assms
proof (induction ltxs arbitrary: cache rs)
  case (Cons p ltxs)
  obtain l tx where p: "p = (l, tx)" by (cases p)
  show ?case
  proof (cases l)
    case (Inl e)
    then obtain rs1 where "execute_loop env tick ltxs cache = (Ok (rs1, cache') :: ('e, (loaded \<times> unit tx_result) list \<times> symbol_cache) res)"
      "rs = (Inl e, Inl e) # rs1" using Cons.prems(1) by (auto simp: p)
    with Cons.IH [OF this(1) Cons.prems(2,3)] show ?thesis by (auto simp: p Inl nth_Cons split: nat.splits)
  next
    case (Inr al)
    obtain as ls where al: "al = (as, ls)" by (cases al)
    obtain r c where r: "process_message env (tx_message tx) ls as tick cache = (r, c)" by fastforce
    have c: "cache_ok env c" by (rule process_message_cache_ok [OF Cons.prems(3) r])
    show ?thesis
    proof (cases r)
      case (Ok x)
      obtain ls' as' where x: "x = (ls', as')" by (cases x)
      note sums = process_message_sums [OF Cons.prems(2,3) r [unfolded Ok x]]
      obtain rs1 where "execute_loop env tick ltxs c = (Ok (rs1, cache') :: ('e, (loaded \<times> unit tx_result) list \<times> symbol_cache) res)"
        "rs = (Inr (as', ls'), Inr ()) # rs1" using Cons.prems(1) r by (auto simp: p Inr al Ok x)
      with Cons.IH [OF this(1) Cons.prems(2) c] sums show ?thesis by (auto simp: p Inr al nth_Cons split: nat.splits)
    next
      case (Err e)
      then obtain rs1 where "execute_loop env tick ltxs c = (Ok (rs1, cache') :: ('e, (loaded \<times> unit tx_result) list \<times> symbol_cache) res)"
        "rs = (Inr (as, ls), Inl e) # rs1" using Cons.prems(1) r by (auto simp: p Inr al)
      with Cons.IH [OF this(1) Cons.prems(2) c] show ?thesis by (auto simp: p Inr al nth_Cons split: nat.splits)
    qed (use Cons.prems(1) r in \<open>simp add: p Inr al\<close>)
  qed
qed simp

lemma load_and_execute_nth:
  assumes run: "load_and_execute_transactions E txs lrs max_age (b, s) =
      (Ok (lds, executed, b1, s1) :: ('e, loaded list \<times> unit tx_result list \<times> bank \<times> shared) res)"
    and len: "length lrs = length txs" and lrs: "set lrs \<subseteq> {Inr (), Inl AccountInUse}"
    and al: "\<forall>tx \<in> set txs. aligned tx" and env: "env_ok (bank_runtime E b)" "cache_ok (bank_runtime E b) (bank_symbols b)"
  shows "length lds = length txs" "length executed = length txs" "s1 = s"
    "\<exists>c n. b1 = b\<lparr>bank_symbols := c, bank_transaction_count := n\<rparr> \<and> cache_ok (bank_runtime E b) c"
    "\<forall>i < length txs. has_payer (txs ! i, executed ! i) \<and> (executed ! i = Inr () \<longrightarrow> lrs ! i = Inr () \<and>
       tx_stores (bank_ld E b s) (bank_fee_calculator b) (txs ! i) (lds ! i))"
proof -
  let ?ld = "bank_ld E b s" and ?fc = "bank_fee_calculator b"
  obtain srs lds0 rs cache where c: "check_transactions b s txs lrs max_age = (Ok srs :: ('e, unit tx_result list) res)"
    and l: "load_accounts ?ld txs srs ?fc = (Ok lds0 :: ('e, loaded list) res)"
    and x: "execute_loop (bank_runtime E b) (bank_tick_height b) (zip lds0 txs) (bank_symbols b) =
        (Ok (rs, cache) :: ('e, (loaded \<times> unit tx_result) list \<times> symbol_cache) res)"
    and res: "lds = map fst rs" "executed = map snd rs" "s1 = s"
      "b1 = b\<lparr>bank_symbols := cache,
        bank_transaction_count := bank_transaction_count b + of_nat (length (filter (\<lambda>r. snd r = Inr ()) rs))\<rparr>"
    using run by (auto simp: load_and_execute_transactions_def)
  note C = check_transactions_nth [OF c len]
  have "list_all2 (\<lambda>p y. load_transaction ?ld ?fc (fst p) (snd p) = (Ok y :: ('e, loaded) res)) (zip txs srs) lds0"
    using l by (simp add: load_accounts_def res_map_Ok_iff case_prod_unfold)
  then have L: "length lds0 = length txs"
    "\<And>i. i < length txs \<Longrightarrow> load_transaction ?ld ?fc (txs ! i) (srs ! i) = (Ok (lds0 ! i) :: ('e, loaded) res)"
    using C by (auto simp: list_all2_conv_all_nth)
  note X = execute_loop_nth [OF x env]
  show "s1 = s" by (rule res(3))
  show "length lds = length txs" "length executed = length txs" using X L(1) by (simp_all add: res)
  show "\<exists>c n. b1 = b\<lparr>bank_symbols := c, bank_transaction_count := n\<rparr> \<and> cache_ok (bank_runtime E b) c"
    using X res(4) by blast
  show "\<forall>i < length txs. has_payer (txs ! i, executed ! i) \<and> (executed ! i = Inr () \<longrightarrow> lrs ! i = Inr () \<and>
       tx_stores ?ld ?fc (txs ! i) (lds ! i))"
  proof (intro allI impI)
    fix i assume i: "i < length txs"
    then have al_i: "aligned (txs ! i)" using al by simp
    have Xi: "snd (rs ! i) = Inr () \<longrightarrow> (\<exists>as ls as' ls'. lds0 ! i = Inr (as, ls) \<and> fst (rs ! i) = Inr (as', ls') \<and>
          length as' = length as \<and> sum_difs as' = sum_difs as)" "\<forall>e. lds0 ! i = Inl e \<longrightarrow> snd (rs ! i) = Inl e"
      using X i L(1) by auto
    have ri: "executed ! i = snd (rs ! i)" "lds ! i = fst (rs ! i)" using X i L(1) by (simp_all add: res)
    have "lrs ! i \<in> {Inr (), Inl AccountInUse}" using subsetD [OF lrs nth_mem] i len by simp
    then have "\<not> is_instruction_error (lrs ! i)" by (auto simp: is_instruction_error_def)
    then have no: "\<not> is_instruction_error (lds0 ! i)" using load_transaction_error [OF L(2) [OF i]] C i by blast
    have "has_payer (txs ! i, executed ! i)"
    proof (cases "lds0 ! i")
      case (Inl e)
      then show ?thesis using Xi(2) no ri by (auto simp: has_payer_def is_instruction_error_def)
    next
      case (Inr al)
      then have "lds0 ! i = Inr (fst al, snd al)" by simp
      from load_transaction_stores(3) [OF al_i L(2) [OF i, unfolded this]] show ?thesis by (simp add: has_payer_def)
    qed
    moreover have "lrs ! i = Inr () \<and> tx_stores ?ld ?fc (txs ! i) (lds ! i)" if "executed ! i = Inr ()"
    proof -
      from Xi(1) that ri obtain as ls as' ls' where l0: "lds0 ! i = Inr (as, ls)" and l1: "lds ! i = Inr (as', ls')"
        and sums: "length as' = length as" "sum_difs as' = sum_difs as" by auto
      note L = L(2) [OF i, unfolded l0]
      have "lrs ! i = Inr ()" using load_transaction_stores(1) [OF al_i L] C i by blast
      moreover have "tx_stores ?ld ?fc (txs ! i) (Inr (as', ls'))"
        using load_transaction_stores(2) [OF al_i L] sums by (auto simp: tx_stores_def)
      ultimately show ?thesis by (simp add: l1)
    qed
    ultimately show "has_payer (txs ! i, executed ! i) \<and> (executed ! i = Inr () \<longrightarrow> lrs ! i = Inr () \<and>
       tx_stores ?ld ?fc (txs ! i) (lds ! i))" by blast
  qed
qed

section \<open>Storing a batch\<close>

lemma sorted_wrt_filter_nth:
  "sorted_wrt R (map f (filter Q xs)) \<longleftrightarrow>
     (\<forall>i j. i < j \<longrightarrow> j < length xs \<longrightarrow> Q (xs ! i) \<longrightarrow> Q (xs ! j) \<longrightarrow> R (f (xs ! i)) (f (xs ! j)))"
proof (induction xs)
  case (Cons x xs)
  have "(\<forall>i j. i < j \<longrightarrow> j < length (x # xs) \<longrightarrow> Q ((x # xs) ! i) \<longrightarrow> Q ((x # xs) ! j) \<longrightarrow> R (f ((x # xs) ! i)) (f ((x # xs) ! j))) \<longleftrightarrow>
      (Q x \<longrightarrow> (\<forall>y \<in> set xs. Q y \<longrightarrow> R (f x) (f y))) \<and>
      (\<forall>i j. i < j \<longrightarrow> j < length xs \<longrightarrow> Q (xs ! i) \<longrightarrow> Q (xs ! j) \<longrightarrow> R (f (xs ! i)) (f (xs ! j)))" (is "?A \<longleftrightarrow> ?B \<and> ?C")
  proof (intro iffI conjI)
    assume A: ?A
    show ?B
    proof (intro impI ballI)
      fix y assume "Q x" "y \<in> set xs" "Q y"
      then obtain j where "j < length xs" "y = xs ! j" by (auto simp: in_set_conv_nth)
      then show "R (f x) (f y)" using A [rule_format, of 0 "Suc j"] \<open>Q x\<close> \<open>Q y\<close> by simp
    qed
    show ?C using A [rule_format, of "Suc _" "Suc _"] by simp
  next
    assume B: "?B \<and> ?C"
    show ?A
    proof (intro allI impI)
      fix i j assume "i < j" "j < length (x # xs)" "Q ((x # xs) ! i)" "Q ((x # xs) ! j)"
      then show "R (f ((x # xs) ! i)) (f ((x # xs) ! j))" using B by (cases i; cases j) auto
    qed
  qed
  then show ?case using Cons by auto
qed simp

definition stored_of :: "transaction \<times> unit tx_result \<times> loaded \<Rightarrow> (pubkey \<times> account) list" where
  "stored_of x = (case x of (tx, r, l) \<Rightarrow>
     (case (r, l) of (Inr _, Inr (as, _)) \<Rightarrow> zip (account_keys (tx_message tx)) as | _ \<Rightarrow> []))"

lemma accounts_to_store_alt: "accounts_to_store txs executed lds = concat (map stored_of (zip txs (zip executed lds)))"
  unfolding accounts_to_store_def by (rule arg_cong [of _ _ concat], rule map_cong) (auto simp: stored_of_def)

lemma stored_of_spec:
  assumes "tx_stores ld fc tx l"
  shows "distinct (map fst (stored_of (tx, Inr (), l)))" "fst ` set (stored_of (tx, Inr (), l)) = locked_keys tx"
    "sum_list (map (\<lambda>ka. difs (snd ka)) (stored_of (tx, Inr (), l))) =
      sum_list (map (\<lambda>ka. balance_of ld (fst ka)) (stored_of (tx, Inr (), l))) - calculate_fee fc (tx_message tx)"
proof -
  obtain ks ros as ls where t: "l = Inr (as, ls)" "account_keys (tx_message tx) = ks @ ros" "length as = length ks"
    "distinct ks" "set ks = locked_keys tx" "sum_difs as = sum_list (map (balance_of ld) ks) - calculate_fee fc (tx_message tx)"
    using assms unfolding tx_stores_def by blast
  have s: "stored_of (tx, Inr (), l) = zip ks as" by (simp add: stored_of_def t zip_append1)
  have fst: "map fst (zip ks as) = ks" and snd: "map snd (zip ks as) = as" using t(3) by simp_all
  show "distinct (map fst (stored_of (tx, Inr (), l)))" by (simp add: s t(3,4))
  show "fst ` set (stored_of (tx, Inr (), l)) = locked_keys tx"
    unfolding s set_map [symmetric] fst by (rule t(5))
  have "map (\<lambda>ka. difs (snd ka)) (zip ks as) = map difs as" "map (\<lambda>ka. balance_of ld (fst ka)) (zip ks as) = map (balance_of ld) ks"
    using fst snd by (metis (no_types, lifting) comp_apply map_eq_conv map_map)+
  then show "sum_list (map (\<lambda>ka. difs (snd ka)) (stored_of (tx, Inr (), l))) =
      sum_list (map (\<lambda>ka. balance_of ld (fst ka)) (stored_of (tx, Inr (), l))) - calculate_fee fc (tx_message tx)"
    unfolding s using t(6) by simp
qed

lemma stored_of_failed: "r \<noteq> Inr () \<Longrightarrow> stored_of (tx, r, l) = []"
  by (cases r) (auto simp: stored_of_def)

lemma batch_stores:
  assumes "\<forall>x \<in> set xs. fst (snd x) = Inr () \<longrightarrow> tx_stores ld fc (fst x) (snd (snd x))"
    "apart (map (\<lambda>x. locked_keys (fst x)) (filter (\<lambda>x. fst (snd x) = Inr ()) xs))"
  shows "distinct (map fst (concat (map stored_of xs)))"
    "fst ` set (concat (map stored_of xs)) = (\<Union>x \<in> {x \<in> set xs. fst (snd x) = Inr ()}. locked_keys (fst x))"
    "sum_list (map (\<lambda>ka. difs (snd ka)) (concat (map stored_of xs))) =
      sum_list (map (\<lambda>ka. balance_of ld (fst ka)) (concat (map stored_of xs))) -
      sum_list (map (\<lambda>x. calculate_fee fc (tx_message (fst x))) (filter (\<lambda>x. fst (snd x) = Inr ()) xs))"
  using assms
proof (induction xs)
  case (Cons x xs)
  obtain tx r l where x: "x = (tx, r, l)" by (cases x)
  note IH = Cons.IH
  {
    case 1
    show ?case
    proof (cases "r = Inr ()")
      case True
      have "fst ` set (concat (map stored_of xs)) = (\<Union>x \<in> {x \<in> set xs. fst (snd x) = Inr ()}. locked_keys (fst x))"
        using IH(2) 1 by (simp add: True x)
      moreover have "\<forall>y \<in> {x \<in> set xs. fst (snd x) = Inr ()}. locked_keys tx \<inter> locked_keys (fst y) = {}"
        using 1(2) True by (simp add: x)
      ultimately have "fst ` set (concat (map stored_of xs)) \<inter> locked_keys tx = {}" by (simp only:) blast
      then show ?thesis using IH(1) 1 stored_of_spec(1,2) [of ld fc tx l] True by (auto simp: x simp del: set_concat)
    qed (use IH(1) 1 stored_of_failed [of r tx l] in \<open>simp add: x\<close>)
  next
    case 2
    show ?case
    proof (cases "r = Inr ()")
      case True
      then show ?thesis using IH(2) 2 stored_of_spec(2) [of ld fc tx l]
        by (simp add: x image_Un Collect_disj_eq conj_disj_distribR insert_def [symmetric] del: set_concat)
    next
      case False
      have "{y \<in> set (x # xs). fst (snd y) = Inr ()} = {y \<in> set xs. fst (snd y) = Inr ()}" using False by (auto simp: x)
      then show ?thesis using IH(2) 2 stored_of_failed [OF False] False by (simp add: x del: set_concat)
    qed
  next
    case 3
    show ?case
    proof (cases "r = Inr ()")
      case True
      then show ?thesis using IH(3) 3 stored_of_spec(3) [of ld fc tx l] by (simp add: x)
    qed (use IH(3) 3 stored_of_failed [of r tx l] in \<open>simp add: x\<close>)
  }
qed simp_all

section \<open>Committing a batch\<close>

definition statuses_ok :: "bank_env \<Rightarrow> transaction list \<Rightarrow> shared \<Rightarrow> bool" where
  "statuses_ok E txs s \<longleftrightarrow>
     sc_ok (sh_status s) \<and> (\<forall>c. be_draw E c < 32 - CACHED_SIGNATURE_SIZE) \<and>
     (\<forall>tx \<in> set txs. \<forall>sig \<in> set (signatures tx). length (signature_bytes sig) = 64)"

lemma update_statuses_spec:
  assumes "sc_ok c" "\<forall>c. draw c < 32 - CACHED_SIGNATURE_SIZE"
    "\<forall>p \<in> set txrs. \<forall>sig \<in> set (signatures (fst p)). length (signature_bytes sig) = 64"
  shows "\<exists>c'. (update_statuses draw f txrs c :: ('e, unit tx_result status_cache) res) = Ok c' \<and> sc_ok c' \<and> sc_roots c' = sc_roots c \<and>
    (\<forall>bh sig g. sc_holds c bh sig g \<longrightarrow> sc_holds c' bh sig g) \<and>
    (\<forall>p \<in> set txrs. can_commit (snd p) \<longrightarrow> signatures (fst p) \<noteq> [] \<longrightarrow>
       sc_holds c' (recent_blockhash (tx_message (fst p))) (hd (signatures (fst p))) f)"
  using assms
proof (induction txrs arbitrary: c)
  case (Cons p txrs)
  obtain tx r where p: "p = (tx, r)" by (cases p)
  show ?case
  proof (cases "signatures tx = [] \<or> \<not> can_commit r")
    case True
    then have "(update_statuses draw f (p # txrs) c :: ('e, unit tx_result status_cache) res) = update_statuses draw f txrs c"
      by (auto simp: p split: list.split)
    then show ?thesis using Cons True by (auto simp: p)
  next
    case False
    then obtain sig sigs where sig: "signatures tx = sig # sigs" by (auto simp: neq_Nil_conv)
    obtain c1 where c1: "(sc_insert (draw c) (recent_blockhash (tx_message tx)) sig f r c :: ('e, unit tx_result status_cache) res) = Ok c1"
      "sc_ok c1" "sc_roots c1 = sc_roots c" "sc_holds c1 (recent_blockhash (tx_message tx)) sig f" "\<forall>bh sig g. sc_holds c bh sig g \<longrightarrow> sc_holds c1 bh sig g"
      using sc_insert_spec [OF Cons.prems(1), of "draw c" sig "recent_blockhash (tx_message tx)" f r] Cons.prems(2,3) sig by (auto simp: p)
    obtain c2 where "(update_statuses draw f txrs c1 :: ('e, unit tx_result status_cache) res) = Ok c2" "sc_ok c2" "sc_roots c2 = sc_roots c1"
      "\<forall>bh sig g. sc_holds c1 bh sig g \<longrightarrow> sc_holds c2 bh sig g"
      "\<forall>p \<in> set txrs. can_commit (snd p) \<longrightarrow> signatures (fst p) \<noteq> [] \<longrightarrow>
         sc_holds c2 (recent_blockhash (tx_message (fst p))) (hd (signatures (fst p))) f"
      using Cons.IH [OF c1(2) Cons.prems(2)] Cons.prems(3) by auto
    then show ?thesis using c1 False sig by (auto simp: p)
  qed
qed simp

lemma bank_inv_cong:
  "bank_ancestors b' = bank_ancestors b \<Longrightarrow> bank_slot b' = bank_slot b \<Longrightarrow> sh_db s' = sh_db s \<Longrightarrow>
     bank_inv E P b' s' \<longleftrightarrow> bank_inv E P b s"
  by (simp add: bank_inv_def)

lemma batch_fees_zip:
  "length executed = length txs \<Longrightarrow> length lds = length txs \<Longrightarrow>
     sum_list (map (\<lambda>x. calculate_fee fc (tx_message (fst x))) (filter (\<lambda>x. fst (snd x) = Inr ()) (zip txs (zip executed lds)))) =
     batch_fees fc (zip txs executed)"
proof (induction txs arbitrary: executed lds)
  case (Cons tx txs)
  then show ?case by (cases executed; cases lds) auto
qed simp

text \<open>
  What a committed batch has done to the bank: it kept the invariant, moved difs only between the
  accounts of the batch and the collector, paid the collector the fees of the transactions that it reports
  as processed, and left a status for every transaction that was executed.
\<close>

definition batch_done ::
  "bank_env \<Rightarrow> fork set \<Rightarrow> (transaction \<times> unit tx_result) list \<Rightarrow> unit tx_result list \<Rightarrow> bank \<Rightarrow> shared \<Rightarrow>
     bank \<Rightarrow> shared \<Rightarrow> bool" where
  "batch_done E P txrs rs b s b' s' \<longleftrightarrow>
     bank_inv E P b' s' \<and> bank_slot b' = bank_slot b \<and> bank_ancestors b' = bank_ancestors b \<and> sc_ok (sh_status s') \<and>
     sc_roots (sh_status s') = sc_roots (sh_status s) \<and> length rs = length txrs \<and>
     (bank_collector_id b \<notin> batch_keys_of txrs \<longrightarrow>
        balance_of (bank_ld E b' s') (bank_collector_id b) =
        balance_of (bank_ld E b s) (bank_collector_id b) + batch_fees (bank_fee_calculator b) (zip (map fst txrs) rs)) \<and>
     (\<forall>j. j \<notin> insert (bank_collector_id b) (batch_keys_of txrs) \<longrightarrow> bank_ld E b' s' j = bank_ld E b s j) \<and>
     (\<forall>K. finite K \<longrightarrow> insert (bank_collector_id b) (batch_keys_of txrs) \<subseteq> K \<longrightarrow>
        total_balance K (bank_ld E b' s') = total_balance K (bank_ld E b s)) \<and>
     (\<forall>p \<in> set txrs. can_commit (snd p) \<longrightarrow> signatures (fst p) \<noteq> [] \<longrightarrow>
        sc_holds (sh_status s') (recent_blockhash (tx_message (fst p))) (hd (signatures (fst p))) (bank_slot b))"

lemma batch_done_cong:
  assumes "batch_done E P txrs rs b1 s b2 s2" "bank_fee_calculator b1 = bank_fee_calculator b" "bank_ancestors b1 = bank_ancestors b" "bank_slot b1 = bank_slot b"
    "bank_collector_id b1 = bank_collector_id b" "bank_ancestors b' = bank_ancestors b2" "bank_slot b' = bank_slot b2"
  shows "batch_done E P txrs rs b s b' s2"
  using assms bank_inv_cong [of b' b2 s2 s2 E P] unfolding batch_done_def by auto

lemma commit_spec:
  assumes inv: "bank_inv E P b s" and len: "length lds = length txs" "length executed = length txs"
    and nth: "\<forall>i < length txs. has_payer (txs ! i, executed ! i) \<and>
      (executed ! i = Inr () \<longrightarrow> tx_stores (bank_ld E b s) (bank_fee_calculator b) (txs ! i) (lds ! i))"
    and ap: "apart (map (\<lambda>p. locked_keys (fst p)) (filter (\<lambda>p. snd p = Inr ()) (zip txs executed)))"
    and lk: "\<forall>tx \<in> set txs. locked_keys tx \<subseteq> set (account_keys (tx_message tx))"
    and st: "\<forall>ka \<in> set (accounts_to_store txs executed lds). storable (be_db E) (sh_db s) ka"
    and sc: "statuses_ok E txs s" and coll: "valid_key (bank_collector_id b)"
  shows "\<exists>rs b' s'. commit_transactions E txs lds executed (b, s) = Some (Ok (rs, b', s')) \<and> 
    batch_done E P (zip txs executed) rs b s b' s'"
proof -
  let ?xs = "zip txs (zip executed lds)" and ?ka = "accounts_to_store txs executed lds" and ?fc = "bank_fee_calculator b"
  let ?txrs = "zip txs executed" and ?ld = "bank_ld E b s"
  define b0 where "b0 = (if list_ex can_commit executed then b\<lparr>bank_is_delta := True\<rparr> else b)"
  have b0: "bank_ancestors b0 = bank_ancestors b" "bank_slot b0 = bank_slot b" "bank_fee_calculator b0 = ?fc"
    "bank_collector_id b0 = bank_collector_id b" "bank_queue b0 = bank_queue b" by (simp_all add: b0_def)
  have inv0: "bank_inv E P b0 s" using inv bank_inv_cong [of b0 b s s] b0 by simp
  have stores: "\<forall>x \<in> set ?xs. fst (snd x) = Inr () \<longrightarrow> tx_stores ?ld ?fc (fst x) (snd (snd x))"
    using nth len by (auto simp: set_zip)
  have "apart (map (\<lambda>x. locked_keys (fst x)) (filter (\<lambda>x. fst (snd x) = Inr ()) ?xs))"
    using ap len unfolding sorted_wrt_filter_nth by simp
  note bst = batch_stores [OF stores this, folded accounts_to_store_alt]
  have "(\<Union>x \<in> {x \<in> set ?xs. fst (snd x) = Inr ()}. locked_keys (fst x)) \<subseteq> batch_keys_of ?txrs"
    using lk len by (fastforce simp: batch_keys_of_def set_zip)
  then have keys: "fst ` set ?ka \<subseteq> batch_keys_of ?txrs" unfolding bst(2) .
  from bank_put_moves [OF inv0 _ bst(1)] st obtain db where
    db: "db_store (be_db E) (bank_slot b0) ?ka (sh_db s) = Some (Ok db :: (unit, accounts_db) res)" and
    mv: "\<And>b'. bank_frame b0 b' \<Longrightarrow> bank_moves E P b0 s (fst ` set ?ka) (- batch_fees ?fc ?txrs) b' (s\<lparr>sh_db := db\<rparr>)"
    by (auto simp: bst(3) batch_fees_zip [OF len(2,1)] b0)
  define b1 where "b1 = store_stakes E txs executed lds b0"
  have f1: "bank_frame b0 b1" unfolding bank_frame_def b1_def store_stakes_def by blast
  note m1 = mv [OF f1] and b1 = bank_frameD [OF f1]
  have "\<forall>p \<in> set ?txrs. \<forall>sig \<in> set (signatures (fst p)). length (signature_bytes sig) = 64"
    using sc by (auto simp: statuses_ok_def dest!: set_zip_leftD)
  with update_statuses_spec [of "sh_status s" "be_draw E" ?txrs, where 'e = unit and f = "bank_slot b"] sc obtain c where
    c: "(update_statuses (be_draw E) (bank_slot b) ?txrs (sh_status s) :: (unit, unit tx_result status_cache) res) = Ok c" "sc_ok c" "sc_roots c = sc_roots (sh_status s)"
    "\<forall>p \<in> set ?txrs. can_commit (snd p) \<longrightarrow> signatures (fst p) \<noteq> [] \<longrightarrow>
       sc_holds c (recent_blockhash (tx_message (fst p))) (hd (signatures (fst p))) (bank_slot b)"
    by (auto simp: statuses_ok_def)
  define s2 where "s2 = s\<lparr>sh_db := db, sh_status := c\<rparr>"
  have s2: "sh_db s2 = sh_db (s\<lparr>sh_db := db\<rparr>)" "sh_status s2 = c" by (simp_all add: s2_def)
  have inv2: "bank_inv E P b1 s2" using m1 bank_inv_cong [of b1 b1 s2 "s\<lparr>sh_db := db\<rparr>"] s2 by (simp add: bank_moves_def)
  have pay: "\<forall>p \<in> set ?txrs. has_payer p" using nth by (auto simp: set_zip)
  obtain rs fees b3 s3 where cf: "collect_fees E ?txrs 0 (b1, s2) = Some (Ok (rs, fees, b3, s3))"
    and m3: "bank_moves E P b1 s2 (batch_keys_of ?txrs) (batch_fees ?fc ?txrs - fees) b3 s3"
    using collect_fees_moves [OF inv2 pay, of 0] by (auto simp: b1 b0)
  have f3: "bank_frame b1 b3" using m3 by (simp add: bank_moves_def)
  note b3 = bank_frameD [OF f3]
  obtain b4 s4 where dp: "bank_deposit E (bank_collector_id b3) fees (b3, s3) = Some (Ok (b4, s4))"
    and m4: "bank_moves E P b3 s3 {bank_collector_id b} fees b4 s4"
    using bank_deposit_moves [of E P b3 s3 "bank_collector_id b" fees] m3 coll by (auto simp: b3 b1 b0 bank_moves_def)
  have fees: "length rs = length ?txrs" "fees = batch_fees ?fc (zip (map fst ?txrs) rs)"
    using collect_fees_total [OF cf] by (simp_all add: b1 b0)
  have m: "bank_moves E P b1 s2 (batch_keys_of ?txrs \<union> {bank_collector_id b}) (batch_fees ?fc ?txrs) b4 s4"
    using bank_moves_trans [OF m3 m4] by simp
  have f4: "bank_frame b0 b4" using m f1 by (auto simp: bank_moves_def intro: bank_frame_trans)
  note b4 = bank_frameD [OF f4]
  have run: "commit_transactions E txs lds executed (b, s) = Some (Ok (rs, b4, s4))"
    using db c(1) cf dp
    by (simp add: commit_transactions_def store_accounts_def b0_def [symmetric] b0 update_transaction_statuses_def
        b1_def [symmetric] b1 s2_def [symmetric] filter_program_errors_and_collect_fee_def Let_def)
  have ld: "bank_ld E b1 s2 = bank_ld E b1 (s\<lparr>sh_db := db\<rparr>)" by (simp add: s2)
  have "bank_ld E b4 s4 j = ?ld j" if "j \<notin> insert (bank_collector_id b) (batch_keys_of ?txrs)" for j
  proof -
    have "bank_ld E b4 s4 j = bank_ld E b1 s2 j" using m that unfolding bank_moves_def by simp
    moreover have "j \<notin> fst ` set ?ka" using keys that by blast
    then have "bank_ld E b1 (s\<lparr>sh_db := db\<rparr>) j = bank_ld E b0 s j" using m1 unfolding bank_moves_def by simp
    ultimately show ?thesis by (simp add: ld b0)
  qed
  moreover have "balance_of (bank_ld E b4 s4) (bank_collector_id b) = balance_of ?ld (bank_collector_id b) + fees"
    if "bank_collector_id b \<notin> batch_keys_of ?txrs"
  proof -
    have "bank_ld E b3 s3 (bank_collector_id b) = bank_ld E b1 s2 (bank_collector_id b)" using m3 that unfolding bank_moves_def by simp
    moreover have "bank_ld E b1 (s\<lparr>sh_db := db\<rparr>) (bank_collector_id b) = bank_ld E b0 s (bank_collector_id b)"
      using m1 keys that unfolding bank_moves_def by blast
    moreover have "total_balance {bank_collector_id b} (bank_ld E b4 s4) = total_balance {bank_collector_id b} (bank_ld E b3 s3) + fees"
      using m4 unfolding bank_moves_def by blast
    ultimately show ?thesis by (simp add: total_balance_def balance_of_def ld b0)
  qed
  moreover have "total_balance K (bank_ld E b4 s4) = total_balance K ?ld"
    if "finite K" "insert (bank_collector_id b) (batch_keys_of ?txrs) \<subseteq> K" for K
  proof -
    have "total_balance K (bank_ld E b4 s4) = total_balance K (bank_ld E b1 (s\<lparr>sh_db := db\<rparr>)) + batch_fees ?fc ?txrs"
      using m that unfolding bank_moves_def ld by simp
    also have "total_balance K (bank_ld E b1 (s\<lparr>sh_db := db\<rparr>)) = total_balance K ?ld + - batch_fees ?fc ?txrs"
      using m1 that order_trans [OF keys, of K] unfolding bank_moves_def b0 by simp
    finally show ?thesis by simp
  qed
  moreover have "bank_inv E P b4 s4" "sh_status s4 = c" using m s2(2) by (simp_all add: bank_moves_def)
  ultimately have "batch_done E P ?txrs rs b s b4 s4" unfolding batch_done_def using c(2,3,4) b4 b0 fees by auto
  with run show ?thesis by blast
qed

section \<open>Properties\<close>

lemma aligned_sliceable: "aligned tx \<Longrightarrow> sliceable tx"
  by (auto simp: aligned_def sliceable_def)

lemma aligned_locked: "aligned tx \<Longrightarrow> locked_keys tx \<subseteq> set (account_keys (tx_message tx))"
  by (auto simp: aligned_def locked_keys_def lock_keys_def Let_def)

lemma apart_executed:
  assumes "apart (map locked_keys (map fst (filter (\<lambda>p. snd p = Inr ()) (zip txs lrs))))"
    "length lrs = length txs" "length executed = length txs" "\<forall>i < length txs. executed ! i = Inr () \<longrightarrow> lrs ! i = Inr ()"
  shows "apart (map (\<lambda>p. locked_keys (fst p)) (filter (\<lambda>p. snd p = Inr ()) (zip txs executed)))"
  using assms unfolding map_map sorted_wrt_filter_nth by simp

lemma process_transactions_spec:
  assumes inv: "bank_inv E P b s" and env: "env_ok (bank_runtime E b)" "cache_ok (bank_runtime E b) (bank_symbols b)"
    and al: "\<forall>tx \<in> set txs. aligned tx" and sc: "statuses_ok E txs s" and coll: "valid_key (bank_collector_id b)"
    and lock: "lock_accounts H txs (bank_locks b) = Some (Ok (lrs, locks) :: (unit, unit tx_result list \<times> accounts_locks) res)"
    and exec: "load_and_execute_transactions E txs lrs MAX_RECENT_BLOCKHASHES (b\<lparr>bank_locks := locks\<rparr>, s) =
      (Ok (lds, executed, b1, s1) :: (unit, loaded list \<times> unit tx_result list \<times> bank \<times> shared) res)"
    and st: "\<forall>ka \<in> set (accounts_to_store txs executed lds). storable (be_db E) (sh_db s) ka"
  shows "\<exists>rs b' s'. process_transactions E H txs (b, s) = Some (Ok (rs, b', s')) \<and> length executed = length txs \<and>
    batch_done E P (zip txs executed) rs b s b' s'"
proof -
  let ?b = "b\<lparr>bank_locks := locks\<rparr>"
  have "\<forall>tx \<in> set txs. sliceable tx" using al aligned_sliceable by blast
  note lk = lock_accounts_spec [OF lock this]
  have rt: "bank_runtime E ?b = bank_runtime E b" by (simp add: bank_runtime_def)
  have lrs: "length lrs = length txs" "set lrs \<subseteq> {Inr (), Inl AccountInUse}" using lk by blast+
  note ex = load_and_execute_nth [OF exec lrs al, unfolded rt, OF env(1)]
  have env2: "cache_ok (bank_runtime E b) (bank_symbols ?b)" using env(2) by simp
  obtain c n where b1: "b1 = ?b\<lparr>bank_symbols := c, bank_transaction_count := n\<rparr>" using ex(4) [OF env2] by blast
  have s1: "s1 = s" using ex(3) [OF env2] .
  note len = ex(1) [OF env2] ex(2) [OF env2]
  have inv1: "bank_inv E P b1 s" using inv bank_inv_cong [of b1 b s s E P] by (simp add: b1)
  have nth: "\<forall>i < length txs. has_payer (txs ! i, executed ! i) \<and> (executed ! i = Inr () \<longrightarrow> lrs ! i = Inr () \<and>
      tx_stores (bank_ld E b1 s) (bank_fee_calculator b1) (txs ! i) (lds ! i))"
    using ex(5) [OF env2] by (simp add: b1)
  have ap: "apart (map (\<lambda>p. locked_keys (fst p)) (filter (\<lambda>p. snd p = Inr ()) (zip txs executed)))"
    by (rule apart_executed [OF _ lrs(1) len(2)]) (use lk nth in simp_all)
  have lkeys: "\<forall>tx \<in> set txs. locked_keys tx \<subseteq> set (account_keys (tx_message tx))"
    using al by (simp add: aligned_locked)
  have "\<exists>rs b' s'. commit_transactions E txs lds executed (b1, s) = Some (Ok (rs, b', s')) \<and>
      batch_done E P (zip txs executed) rs b1 s b' s'"
    by (rule commit_spec [OF inv1 len _ ap lkeys st sc]) (use nth coll in \<open>simp_all add: b1\<close>)
  then obtain rs b2 s2 where c: "commit_transactions E txs lds executed (b1, s) = Some (Ok (rs, b2, s2))"
    "batch_done E P (zip txs executed) rs b1 s b2 s2" by blast
  let ?b' = "b2\<lparr>bank_locks := unlock_accounts txs lrs (bank_locks b2)\<rparr>"
  have "process_transactions E H txs (b, s) = Some (Ok (rs, ?b', s2))"
    by (simp add: process_transactions_def lock load_execute_and_commit_transactions_def exec s1 c(1))
  moreover have "batch_done E P (zip txs executed) rs b s ?b' s2" by (rule batch_done_cong [OF c(2)]) (simp_all add: b1)
  ultimately show ?thesis using len(2) by blast
qed

text \<open>
  C1: a batch of transactions conserves the difs of the whole bank. The batch is one whose transactions
  have the layout \<open>aligned\<close> (programs last, no other credit-only account), whose accounts after execution
  the database can hold, for which taking the locks returns and executing does not panic. Then processing
  returns, and whichever of the transactions succeed, fail or are refused: the total of the difs over
  all accounts that the bank sees is what it was (a sum of 64 bit words); a collector that is not itself
  an account of the batch has got exactly the fees of the transactions that are reported as processed,
  which the accounts of the batch have therefore paid; and no account outside the batch and the
  collector has changed.
\<close>

theorem bank_conserves:
  assumes "bank_inv E P b s" "env_ok (bank_runtime E b)" "cache_ok (bank_runtime E b) (bank_symbols b)"
    "\<forall>tx \<in> set txs. aligned tx" "statuses_ok E txs s" "valid_key (bank_collector_id b)"
    "lock_accounts H txs (bank_locks b) = Some (Ok (lrs, locks) :: (unit, unit tx_result list \<times> accounts_locks) res)"
    "load_and_execute_transactions E txs lrs MAX_RECENT_BLOCKHASHES (b\<lparr>bank_locks := locks\<rparr>, s) =
      (Ok (lds, executed, b1, s1) :: (unit, loaded list \<times> unit tx_result list \<times> bank \<times> shared) res)"
    "\<forall>ka \<in> set (accounts_to_store txs executed lds). storable (be_db E) (sh_db s) ka"
    "finite K" "bank_collector_id b \<in> K" "\<forall>tx \<in> set txs. set (account_keys (tx_message tx)) \<subseteq> K"
  shows "\<exists>rs b' s'. process_transactions E H txs (b, s) = Some (Ok (rs, b', s')) \<and> bank_inv E P b' s' \<and>
    total_balance K (bank_get_account E b' s') = total_balance K (bank_get_account E b s) \<and> length rs = length txs \<and>
    ((\<forall>tx \<in> set txs. bank_collector_id b \<notin> set (account_keys (tx_message tx))) \<longrightarrow>
       bank_get_balance E b' s' (bank_collector_id b) =
       bank_get_balance E b s (bank_collector_id b) + batch_fees (bank_fee_calculator b) (zip txs rs)) \<and>
    (\<forall>k. k \<notin> K \<longrightarrow> bank_get_account E b' s' k = bank_get_account E b s k)"
proof -
  obtain rs b' s' where r: "process_transactions E H txs (b, s) = Some (Ok (rs, b', s'))"
    "length executed = length txs" "batch_done E P (zip txs executed) rs b s b' s'"
    using process_transactions_spec [OF assms(1-9)] by blast
  have sub: "insert (bank_collector_id b) (batch_keys_of (zip txs executed)) \<subseteq> K"
    using assms(11,12) by (auto simp: batch_keys_of_def dest!: set_zip_leftD)
  have f: "bank_ld E b' s' k = bank_ld E b s k" if "k \<notin> K" for k
  proof -
    have "k \<notin> insert (bank_collector_id b) (batch_keys_of (zip txs executed))" using sub that by blast
    then show ?thesis using r(3) unfolding batch_done_def by blast
  qed
  have bal: "total_balance K (bank_get_account E c t) = total_balance K (bank_ld E c t)" for c t
    unfolding total_balance_def
    by (rule sum.cong) (auto simp: balance_of_def bank_get_account_alt split: option.split)
  have "total_balance K (bank_ld E b' s') = total_balance K (bank_ld E b s)" "bank_inv E P b' s'"
    using r(3) assms(10) sub unfolding batch_done_def by blast+
  moreover have "length rs = length txs" using r(2,3) by (simp add: batch_done_def)
  moreover have "bank_get_balance E b' s' (bank_collector_id b) =
      bank_get_balance E b s (bank_collector_id b) + batch_fees (bank_fee_calculator b) (zip txs rs)"
    if "\<forall>tx \<in> set txs. bank_collector_id b \<notin> set (account_keys (tx_message tx))"
  proof -
    have "bank_collector_id b \<notin> batch_keys_of (zip txs executed)"
      using that by (auto simp: batch_keys_of_def dest!: set_zip_leftD)
    with r(3) have "balance_of (bank_ld E b' s') (bank_collector_id b) = balance_of (bank_ld E b s) (bank_collector_id b) +
        batch_fees (bank_fee_calculator b) (zip (map fst (zip txs executed)) rs)" unfolding batch_done_def by blast
    then show ?thesis using r(2) by (simp add: bank_get_balance_alt)
  qed
  ultimately show ?thesis using r(1) f by (auto simp: bal bank_get_account_alt)
qed

text \<open>
  The status cache is only written by \<open>update_transaction_statuses\<close>: storing accounts and moving fees leave
  it alone, so the cache after a batch is the one that this step left.
\<close>

lemma load_and_execute_frame:
  "load_and_execute_transactions E txs lrs n (b, s) = Ok (lds, executed, b1, s1) \<Longrightarrow> s1 = s \<and> bank_slot b1 = bank_slot b"
  by (auto simp: load_and_execute_transactions_def res_bind_Ok_iff)

lemma commit_statuses:
  assumes "commit_transactions E txs lds executed (b, s) = Some (Ok (rs, b', s'))"
  shows "(update_statuses (be_draw E) (bank_slot b) (zip txs executed) (sh_status s) :: (unit, unit tx_result status_cache) res) =
    Ok (sh_status s')"
  using assms
  by (auto simp: commit_transactions_def Let_def update_transaction_statuses_def res_bind_Ok_iff store_stakes_def
      filter_program_errors_and_collect_fee_def dest!: collect_fees_total bank_deposit_frame split: if_splits)

text \<open>
  C2: no transaction is processed twice. Let a batch have been processed, and let \<open>tx\<close> be one of its
  transactions that was executed (with or without an instruction error, so that its fee was due), with
  the result \<open>r\<close>. Let the status cache then go through any sequence of insertions of statuses and of new
  roots that does not drop the slot of the batch (\<open>sc_keeps\<close>: every root that is dropped because there are more
  than \<open>MAX_CACHE_ENTRIES\<close> is an earlier one). Then every bank that has the slot of the batch among its
  ancestors, or for which this slot has become a root, refuses \<open>tx\<close>, in whatever batch it comes again.
\<close>

theorem bank_no_replay:
  assumes sc: "statuses_ok E txs s"
    and lock: "lock_accounts H txs (bank_locks b) = Some (Ok (lrs, locks) :: (unit, unit tx_result list \<times> accounts_locks) res)"
    and exec: "load_and_execute_transactions E txs lrs MAX_RECENT_BLOCKHASHES (b\<lparr>bank_locks := locks\<rparr>, s) =
      (Ok (lds, executed, b1, s1) :: (unit, loaded list \<times> unit tx_result list \<times> bank \<times> shared) res)"
    and run: "process_transactions E H txs (b, s) = Some (Ok (rs, b', s'))"
    and tx: "(tx, r) \<in> set (zip txs executed)" "can_commit r" "signatures tx \<noteq> []"
    and ops: "\<forall>op \<in> set ops. sc_op_ok op" "sc_keeps (bank_slot b) ops (sc_roots (sh_status s'))"
      "sc_run ops (sh_status s') = (Ok (sh_status s'') :: (unit, unit tx_result status_cache) res)"
    and anc: "bank_anc c (bank_slot b) \<noteq> None \<or> bank_slot b \<in> set (sc_roots (sh_status s''))"
    and again: "length lrs' = length txs'" "j < length txs'" "txs' ! j = tx"
      "check_transactions c s'' txs' lrs' max_age = (Ok rs' :: (unit, unit tx_result list) res)"
  shows "rs' ! j \<noteq> Inr ()"
proof
  assume ok: "rs' ! j = Inr ()"
  have f: "s1 = s" "bank_slot b1 = bank_slot b" using load_and_execute_frame [OF exec] by simp_all
  obtain b2 where "commit_transactions E txs lds executed (b1, s) = Some (Ok (rs, b2, s'))"
    using run by (auto simp: process_transactions_def lock load_execute_and_commit_transactions_def exec f(1))
  note up = commit_statuses [OF this, unfolded f(2)]
  have "\<forall>p \<in> set (zip txs executed). \<forall>sig \<in> set (signatures (fst p)). length (signature_bytes sig) = 64"
    using sc by (auto simp: statuses_ok_def dest!: set_zip_leftD)
  with update_statuses_spec [of "sh_status s" "be_draw E" "zip txs executed", where 'e = unit and f = "bank_slot b"] sc up tx
  have "sc_ok (sh_status s')" "sc_holds (sh_status s') (recent_blockhash (tx_message tx)) (hd (signatures tx)) (bank_slot b)"
    by (fastforce simp: statuses_ok_def)+
  from sc_run_keeps [where 'x = unit, OF this(1) ops(1,2) this(2)] ops(3)
  have h: "sc_ok (sh_status s'')" "sc_holds (sh_status s'') (recent_blockhash (tx_message tx)) (hd (signatures tx)) (bank_slot b)"
    by auto
  obtain sig sigs where sig: "signatures tx = sig # sigs" using tx(3) by (auto simp: neq_Nil_conv)
  have "length (signature_bytes sig) = 64" using sc set_zip_leftD [OF tx(1)] sig by (auto simp: statuses_ok_def)
  from sc_holds_status [where 'x = unit and anc = "bank_anc c", OF h(1) h(2) [unfolded sig list.sel] this anc] obtain st where
    st: "(get_signature_status (sh_status s'') sig (recent_blockhash (tx_message tx)) (bank_anc c) :: (unit, (fork \<times> unit tx_result) option) res) = Ok (Some st)"
    by blast
  let ?rb = "check_age (bank_queue c) txs' (check_refs txs' lrs') max_age"
  have "length ?rb = length txs'" using again(1) by (simp add: check_age_def check_refs_def)
  then have "check_signature (sh_status s'') (bank_anc c) tx (?rb ! j) = (Ok (rs' ! j) :: (unit, unit tx_result) res)"
    using again(2-4)
    by (fastforce simp: check_transactions_def check_signatures_def res_map_Ok_iff list_all2_conv_all_nth)
  then show False using ok st by (auto simp: check_signature_def sig split: if_splits)
qed

text \<open>
  A bank at slot 1 with three accounts in its database, and a batch of one transaction: key 1 pays a
  fee of one dif to the collector and transfers 3 difs to key 2.
\<close>

definition demo_bank_env :: bank_env where
  "demo_bank_env =
     \<lparr>be_db = demo_db_env, be_library = (\<lambda>_. None), be_loader_codec = table_codec [],
      be_system_codec = table_codec [Transfer 3], be_stake_codec = table_codec [], be_slot_hashes_codec = table_codec [],
      be_balance_codec = table_codec [], be_delta_codec = table_codec [], be_sha = Hash, be_draw = (\<lambda>_. 0)\<rparr>"

definition demo_bank :: bank where
  "demo_bank = (bank_default demo_bank_env \<lparr>account_locks = {}, record_locks = 0, parent_record_locks = []\<rparr>)
     \<lparr>bank_queue := genesis_hash 0 default_hash (blockhash_queue_new MAX_RECENT_BLOCKHASHES), bank_ancestors := [(1, 0)],
      bank_slot := 1, bank_collector_id := demo_key 3, bank_fee_calculator := \<lparr>difs_per_signature = 1\<rparr>\<rparr>"

definition demo_ledger :: "(pubkey \<times> account) list" where
  "demo_ledger = [(demo_key 1, demo_balance 10), (demo_key 2, demo_balance 5), (system_program_id, create_loadable_account [115])]"

definition demo_tx :: transaction where
  "demo_tx = \<lparr>signatures = [Signature (replicate 64 0)], tx_message = demo_transfer_message\<rparr>"

definition demo_locks :: accounts_locks where
  "demo_locks = \<lparr>account_locks = {demo_key 1, demo_key 2}, record_locks = 0, parent_record_locks = []\<rparr>"

lemma demo_bank_runtime: "bank_runtime demo_bank_env demo_bank = demo_env"
  by (simp add: bank_runtime_def demo_bank_env_def demo_bank_def bank_default_def demo_env_def)

lemma demo_ledger_load: "map_of (rev demo_ledger) k = map_of demo_ledger k"
  by (auto simp: demo_ledger_def demo_key_def system_program_id_demo)

lemma demo_ledger_storable: "\<forall>ka \<in> set demo_ledger. storable demo_db_env (accounts_db_new_with_file_size 256) ka"
  by (simp add: demo_ledger_def storable_def valid_key_def demo_key_def system_program_id_demo demo_balance_def account_new_def
      create_loadable_account_def native_loader_id_def demo_db_env_def packed_layout_def align_up_def accounts_db_new_with_file_size_def)

lemma demo_bank_state:
  "\<exists>s. bank_inv demo_bank_env {} demo_bank s \<and> (\<forall>k. bank_ld demo_bank_env demo_bank s k = map_of demo_ledger k) \<and>
     sh_status s = status_cache_default \<and> storable demo_db_env (sh_db s) = storable demo_db_env (accounts_db_new_with_file_size 256)"
proof -
  let ?db = "accounts_db_new_with_file_size 256" and ?anc = "bank_anc demo_bank"
  have st: "as_stored a = a" "storable demo_db_env ?db (k, a\<lparr>difs := 1\<rparr>)" if "map_of demo_ledger k = Some a" for k a
    using demo_ledger_storable map_of_SomeD [OF that]
    by (auto simp: as_stored_def demo_ledger_def demo_balance_def account_new_def create_loadable_account_def storable_def)
  have def: "storable demo_db_env ?db (default_pubkey, default_account\<lparr>difs := 1\<rparr>)"
    by (simp add: storable_def valid_key_def default_pubkey_def default_account_def demo_db_env_def packed_layout_def
        align_up_def accounts_db_new_with_file_size_def)
  have "db_reach demo_db_env {} ?db" by (rule db_reach.new) simp
  then have "fork_tip demo_db_env {} ?anc 1 ?db"
    using db_reach_ok [OF _ demo_db_env_ok]
    by (auto simp: fork_tip_def demo_db_env_ok demo_bank_def accounts_db_new_with_file_size_def accounts_index_default_def)
  from tip.put_loadE [OF this demo_ledger_storable] obtain db where
    db: "fork_tip demo_db_env {} ?anc 1 db" "storable demo_db_env db = storable demo_db_env ?db"
    "\<And>k. tip_load demo_db_env ?anc db k =
       (case map_of (rev demo_ledger) k of None \<Rightarrow> tip_load demo_db_env ?anc ?db k | Some a \<Rightarrow> Some (as_stored a))" by blast
  have "tip_load demo_db_env ?anc ?db k = None" for k
    by (simp add: tip_load_def db_load_def accounts_db_new_with_file_size_def accounts_index_default_def index_get_def)
  then have ld: "tip_load demo_db_env ?anc db k = map_of demo_ledger k" for k
    using st(1) by (simp add: db(3) demo_ledger_load split: option.split)
  show ?thesis
    by (rule exI [of _ "\<lparr>sh_db = db, sh_status = status_cache_default\<rparr>"])
      (use db(1,2) ld st(2) def in \<open>simp add: bank_inv_def demo_bank_env_def demo_bank_def\<close>)
qed

lemma demo_lock: "lock_accounts H [demo_tx] (bank_locks demo_bank) = Some (Ok ([Inr ()], demo_locks))"
  by (simp add: demo_tx_def demo_bank_def bank_default_def lock_keys_def lock_account_def demo_transfer_message_def
      message_new_with_compiled_instructions_def demo_locks_def retain_parents_def)

definition demo_chain :: loaders where
  "demo_chain = [[(native_loader_id, create_loadable_account [115])]]"

lemma demo_check:
  assumes "sh_status s = status_cache_default"
  shows "check_transactions (demo_bank\<lparr>bank_locks := l\<rparr>) s [demo_tx] [Inr ()] MAX_RECENT_BLOCKHASHES = Ok [Inr ()]"
  by (simp add: check_transactions_def check_refs_def check_age_def check_signatures_def check_signature_def demo_tx_def
      demo_transfer_message_def message_new_with_compiled_instructions_def verify_refs_def demo_bank_def genesis_hash_def
      check_hash_age_def blockhash_queue_new_def assms get_signature_status_def status_cache_default_def)

lemma demo_load:
  "load_transaction (map_of demo_ledger) (bank_fee_calculator demo_bank) demo_tx (Inr ()) =
     Ok (Inr ([demo_balance 9, demo_balance 5], demo_chain))"
proof -
  have "hd (pubkey_bytes native_loader_id) = 5" "hd (pubkey_bytes (demo_key 0)) = 0" "hd (pubkey_bytes default_pubkey) = 0"
    by (simp_all add: native_loader_id_def demo_key_def default_pubkey_def hd_replicate)
  then have "demo_key 0 \<noteq> native_loader_id" "native_loader_id \<noteq> default_pubkey" by auto
  moreover have "demo_key 1 \<noteq> demo_key 2" "demo_key 0 \<noteq> demo_key 1" "demo_key 0 \<noteq> demo_key 2" by (simp_all add: demo_key_def)
  ultimately have ne: "demo_key 0 \<noteq> native_loader_id" "native_loader_id \<noteq> default_pubkey" "demo_key 1 \<noteq> demo_key 2"
    "demo_key 0 \<noteq> demo_key 1" "demo_key 0 \<noteq> demo_key 2" by simp_all
  have "load_executable_accounts (map_of demo_ledger) (demo_key 0) = Inr (hd demo_chain)"
    using ne by (simp add: load_executable_accounts_def executable_loop.simps demo_ledger_def system_program_id_demo
        create_loadable_account_def demo_chain_def)
  then show ?thesis
    using ne by (simp add: load_transaction_def load_tx_accounts_def demo_tx_def demo_transfer_message_def has_duplicates_def
        message_new_with_compiled_instructions_def program_ids_def demo_ledger_def system_program_id_demo demo_balance_def
        account_new_def load_loaders_def demo_chain_def calculate_fee_def demo_bank_def Let_def)
qed

lemma demo_process:
  "process_message demo_env demo_transfer_message demo_chain [demo_balance 9, demo_balance 5] 0 Map.empty =
     (Ok (demo_chain, [demo_balance 6, demo_balance 8]), Map.empty)"
  by (simp add: message_processor_defs demo_env_def default_message_processor_def
      demo_transfer_message_def demo_chain_def demo_balance_def system_process_instruction_def
      transfer_difs_def account_new_def add_difs_def sub_difs_def signer_key_def
      upt_rec [of _ "Suc (Suc 0)"])

lemma demo_execute:
  assumes "\<forall>k. bank_ld demo_bank_env demo_bank s k = map_of demo_ledger k" "sh_status s = status_cache_default"
  shows "load_and_execute_transactions demo_bank_env [demo_tx] [Inr ()] MAX_RECENT_BLOCKHASHES (demo_bank\<lparr>bank_locks := demo_locks\<rparr>, s) =
    Ok ([Inr ([demo_balance 6, demo_balance 8], demo_chain)], [Inr ()],
        demo_bank\<lparr>bank_locks := demo_locks, bank_transaction_count := 1\<rparr>, s)"
proof -
  have "bank_ld demo_bank_env demo_bank s = map_of demo_ledger" using assms(1) by blast
  moreover have "bank_runtime demo_bank_env (demo_bank\<lparr>bank_locks := demo_locks\<rparr>) = demo_env"
    using demo_bank_runtime by (simp add: bank_runtime_def)
  moreover have "bank_tick_height demo_bank = 0" "bank_symbols demo_bank = Map.empty" "bank_transaction_count demo_bank = 0"
    "tx_message demo_tx = demo_transfer_message"
    by (simp_all add: demo_bank_def bank_default_def demo_tx_def)
  ultimately show ?thesis
    by (simp add: load_and_execute_transactions_def demo_check assms(2) load_accounts_def demo_load demo_process)
qed

lemma demo_aligned: "\<forall>tx \<in> set [demo_tx]. aligned tx"
  by (simp add: aligned_def, rule exI [of _ "[demo_key 1, demo_key 2]"], rule exI [of _ "[system_program_id]"])
    (simp add: demo_tx_def demo_transfer_message_def message_new_with_compiled_instructions_def program_ids_def
      system_program_id_demo demo_key_def)

lemma demo_statuses: "sh_status s = status_cache_default \<Longrightarrow> statuses_ok demo_bank_env [demo_tx] s"
  by (simp add: statuses_ok_def sc_ok_def status_cache_default_def demo_bank_env_def CACHED_SIGNATURE_SIZE_def demo_tx_def)

lemma demo_stores:
  assumes "storable demo_db_env (sh_db s) = storable demo_db_env (accounts_db_new_with_file_size 256)"
  shows "\<forall>ka \<in> set (accounts_to_store [demo_tx] [Inr ()] [Inr ([demo_balance 6, demo_balance 8], demo_chain)]).
    storable (be_db demo_bank_env) (sh_db s) ka"
proof -
  have E: "be_db demo_bank_env = demo_db_env" by (simp add: demo_bank_env_def)
  show ?thesis unfolding E assms
    by (simp add: accounts_to_store_def demo_tx_def demo_transfer_message_def message_new_with_compiled_instructions_def
        storable_def valid_key_def demo_key_def system_program_id_demo demo_balance_def account_new_def
        demo_db_env_def packed_layout_def align_up_def accounts_db_new_with_file_size_def)
qed

lemma demo_collector: "valid_key (bank_collector_id demo_bank)"
  by (simp add: demo_bank_def valid_key_def demo_key_def)

lemma demo_env_bank: "env_ok (bank_runtime demo_bank_env demo_bank)" "cache_ok (bank_runtime demo_bank_env demo_bank) (bank_symbols demo_bank)"
  using demo_env_ok cache_ok_empty by (simp_all add: demo_bank_runtime, simp add: demo_bank_def bank_default_def)

theorem bank_conserves_witness:
  "\<exists>s rs b' s'. total_balance {demo_key 1, demo_key 2, demo_key 3, demo_key 0} (bank_get_account demo_bank_env demo_bank s) = 16 \<and>
     process_transactions demo_bank_env (\<lambda>_. {}) [demo_tx] (demo_bank, s) = Some (Ok (rs, b', s')) \<and>
     total_balance {demo_key 1, demo_key 2, demo_key 3, demo_key 0} (bank_get_account demo_bank_env b' s') = 16 \<and>
     bank_get_balance demo_bank_env b' s' (demo_key 3) =
       bank_get_balance demo_bank_env demo_bank s (demo_key 3) + batch_fees (bank_fee_calculator demo_bank) (zip [demo_tx] rs)"
proof -
  let ?K = "{demo_key 1, demo_key 2, demo_key 3, demo_key 0}"
  obtain s where s: "bank_inv demo_bank_env {} demo_bank s" "\<forall>k. bank_ld demo_bank_env demo_bank s k = map_of demo_ledger k"
    "sh_status s = status_cache_default" "storable demo_db_env (sh_db s) = storable demo_db_env (accounts_db_new_with_file_size 256)"
    using demo_bank_state by blast
  have K: "finite ?K" "bank_collector_id demo_bank \<in> ?K" "\<forall>tx \<in> set [demo_tx]. set (account_keys (tx_message tx)) \<subseteq> ?K"
    by (simp_all add: demo_bank_def demo_tx_def demo_transfer_message_def message_new_with_compiled_instructions_def system_program_id_demo)
  have "bank_collector_id demo_bank = demo_key 3" "\<forall>tx \<in> set [demo_tx]. demo_key 3 \<notin> set (account_keys (tx_message tx))"
    by (simp_all add: demo_bank_def demo_tx_def demo_transfer_message_def message_new_with_compiled_instructions_def
        system_program_id_demo demo_key_def)
  then obtain rs b' s' where "process_transactions demo_bank_env (\<lambda>_. {}) [demo_tx] (demo_bank, s) = Some (Ok (rs, b', s'))"
    "bank_get_balance demo_bank_env b' s' (demo_key 3) =
       bank_get_balance demo_bank_env demo_bank s (demo_key 3) + batch_fees (bank_fee_calculator demo_bank) (zip [demo_tx] rs)"
    "total_balance ?K (bank_get_account demo_bank_env b' s') = total_balance ?K (bank_get_account demo_bank_env demo_bank s)"
    using bank_conserves [where H = "\<lambda>_. {}", OF s(1) demo_env_bank demo_aligned demo_statuses [OF s(3)] demo_collector demo_lock
      demo_execute [OF s(2,3)] demo_stores [OF s(4)] K] by auto
  moreover have "total_balance ?K (bank_get_account demo_bank_env demo_bank s) = 16"
    using s(2) by (simp add: total_balance_def balance_of_def bank_get_account_alt demo_ledger_def demo_key_def system_program_id_demo
        demo_balance_def account_new_def create_loadable_account_def)
  ultimately show ?thesis by auto
qed

theorem bank_no_replay_witness:
  "\<exists>s rs b' s' rs'. process_transactions demo_bank_env (\<lambda>_. {}) [demo_tx] (demo_bank, s) = Some (Ok (rs, b', s')) \<and>
     check_transactions (demo_bank\<lparr>bank_slot := 2, bank_ancestors := [(2, 0)]\<rparr>) (s'\<lparr>sh_status := sc_add_root 1 (sh_status s')\<rparr>)
       [demo_tx] [Inr ()] MAX_RECENT_BLOCKHASHES = (Ok rs' :: (unit, unit tx_result list) res) \<and>
     rs' ! 0 \<noteq> Inr ()"
proof -
  obtain s where s: "bank_inv demo_bank_env {} demo_bank s" "\<forall>k. bank_ld demo_bank_env demo_bank s k = map_of demo_ledger k"
    "sh_status s = status_cache_default" "storable demo_db_env (sh_db s) = storable demo_db_env (accounts_db_new_with_file_size 256)"
    using demo_bank_state by blast
  note st = demo_statuses [OF s(3)] and ex = demo_execute [OF s(2,3)]
  obtain rs b' s' where p: "process_transactions demo_bank_env (\<lambda>_. {}) [demo_tx] (demo_bank, s) = Some (Ok (rs, b', s'))"
    "batch_done demo_bank_env {} [(demo_tx, Inr ())] rs demo_bank s b' s'"
    using process_transactions_spec [OF s(1) demo_env_bank demo_aligned st demo_collector demo_lock ex demo_stores [OF s(4)], of "\<lambda>_. {}"]
    by auto
  let ?c = "demo_bank\<lparr>bank_slot := 2, bank_ancestors := [(2, 0)]\<rparr>" and ?s = "s'\<lparr>sh_status := sc_add_root 1 (sh_status s')\<rparr>"
  have sig: "signatures demo_tx = [Signature (replicate 64 0)]" and slot: "bank_slot demo_bank = 1"
    by (simp_all add: demo_tx_def demo_bank_def)
  have sc: "sc_ok (sh_status s')" "sc_roots (sh_status s') = []"
    using p(2) s(3) by (simp_all add: batch_done_def status_cache_default_def)
  have rt: "sc_roots (sh_status ?s) = [1]" by (simp add: sc_add_root_def sc(2) MAX_CACHE_ENTRIES_def)
  have ops: "\<forall>op \<in> set [ScAddRoot 1 :: unit tx_result sc_op]. sc_op_ok op" "sc_keeps (bank_slot demo_bank) [ScAddRoot 1 :: unit tx_result sc_op] (sc_roots (sh_status s'))"
    "sc_run [ScAddRoot 1] (sh_status s') = (Ok (sh_status ?s) :: (unit, unit tx_result status_cache) res)"
    by (simp_all add: sc(2) MAX_CACHE_ENTRIES_def)
  have "sc_holds (sh_status s') (recent_blockhash (tx_message demo_tx)) (Signature (replicate 64 0)) (bank_slot demo_bank)"
    using p(2) sig by (simp add: batch_done_def)
  from sc_run_keeps [where 'x = unit, OF sc(1) ops(1,2) this] ops(3)
  have "sc_ok (sh_status ?s)" "sc_holds (sh_status ?s) (recent_blockhash (tx_message demo_tx)) (Signature (replicate 64 0)) 1"
    by (auto simp: slot)
  from sc_holds_status [where 'x = unit, OF this, of "bank_anc ?c"] rt obtain r where
    "(get_signature_status (sh_status ?s) (Signature (replicate 64 0)) (recent_blockhash (tx_message demo_tx)) (bank_anc ?c)
       :: (unit, (fork \<times> unit tx_result) option) res) = Ok (Some r)" by auto
  then have "\<exists>r'. check_signature (sh_status ?s) (bank_anc ?c) demo_tx r = (Ok r' :: (unit, unit tx_result) res)" for r
    by (simp add: check_signature_def sig)
  then obtain rs' where c: "check_transactions ?c ?s [demo_tx] [Inr ()] MAX_RECENT_BLOCKHASHES = (Ok rs' :: (unit, unit tx_result list) res)"
    by (fastforce simp: check_transactions_def check_signatures_def check_refs_def check_age_def)
  have "rs' ! 0 \<noteq> Inr ()"
    by (rule bank_no_replay [OF st demo_lock ex p(1) _ _ _ ops, where tx = demo_tx and r = "Inr ()" and c = ?c and lrs' = "[Inr ()]"])
      (use c sig slot rt in simp_all)
  with p(1) c show ?thesis by blast
qed

end
