(* ===== verification/Bank_Forks.thy ===== *)
theory Bank_Forks
  imports Bank_Safety
begin

text \<open>
  Genesis and the tree of banks: what the first bank holds, and what every sequence of new children,
  batches, ticks, freezes, squashes and drops keeps of the parent pointers, the ancestors and the
  hashes.
\<close>

section \<open>Genesis\<close>

lemma bank_store_load:
  assumes inv: "bank_inv E P b s" and st: "storable (be_db E) (sh_db s) (k, a)"
  shows "\<exists>b' s'. bank_store E k a (b, s) = Some (Ok (b', s')) \<and> bank_inv E P b' s' \<and> bank_frame b b' \<and>
    sh_status s' = sh_status s \<and> storable (be_db E) (sh_db s') = storable (be_db E) (sh_db s) \<and>
    bank_ld E b' s' = (bank_ld E b s)(k \<mapsto> as_stored a)"
proof -
  obtain b' s' where r: "bank_store E k a (b, s) = Some (Ok (b', s'))"
    and m: "bank_moves E P b s {k} (difs a - balance_of (bank_ld E b s) k) b' s'"
    using bank_store_moves [OF inv st] by blast
  have "fork_tip (be_db E) P (bank_anc b) (bank_slot b) (sh_db s)" using inv by (simp add: bank_inv_def)
  then obtain db where db: "db_store (be_db E) (bank_slot b) [(k, a)] (sh_db s) = Some (Ok db :: (unit, accounts_db) res)"
    "storable (be_db E) db = storable (be_db E) (sh_db s)"
    "\<And>j. tip_load (be_db E) (bank_anc b) db j =
      (case map_of (rev [(k, a)]) j of None \<Rightarrow> bank_ld E b s j | Some a \<Rightarrow> Some (as_stored a))"
    using tip.put_loadE [of "be_db E" P "bank_anc b" "bank_slot b" "sh_db s" "[(k, a)]"] st by auto
  have f: "bank_frame b b'" using m by (simp add: bank_moves_def)
  have "sh_db s' = db" using r db(1) by (auto simp: bank_store_def store_slow_def split: if_splits)
  then have "bank_ld E b' s' = (bank_ld E b s)(k \<mapsto> as_stored a)"
    by (simp add: fun_eq_iff db(3) bank_frameD [OF f])
  then show ?thesis using r m db(2) \<open>sh_db s' = db\<close> f by (auto simp: bank_moves_def)
qed

lemma run_fold_store:
  assumes "bank_inv E P b s" "\<forall>ka \<in> set kas. storable (be_db E) (sh_db s) ka"
  shows "\<exists>b' s'. run_fold (\<lambda>(k, a). bank_store E k a) kas (b, s) = Some (Ok (b', s')) \<and> bank_inv E P b' s' \<and> bank_frame b b' \<and>
    sh_status s' = sh_status s \<and> storable (be_db E) (sh_db s') = storable (be_db E) (sh_db s) \<and>
    bank_ld E b' s' = bank_ld E b s ++ map_of (rev (map (\<lambda>(k, a). (k, as_stored a)) kas))"
  using assms
proof (induction kas arbitrary: b s)
  case Nil
  then show ?case by (simp add: run_ok_def)
next
  case (Cons ka kas)
  obtain k a where ka: "ka = (k, a)" by (cases ka)
  obtain b1 s1 where r: "bank_store E k a (b, s) = Some (Ok (b1, s1))" "bank_inv E P b1 s1" "bank_frame b b1"
    "sh_status s1 = sh_status s" "storable (be_db E) (sh_db s1) = storable (be_db E) (sh_db s)"
    "bank_ld E b1 s1 = (bank_ld E b s)(k \<mapsto> as_stored a)"
    using bank_store_load [OF Cons.prems(1), of k a] Cons.prems(2) ka by auto
  obtain b' s' where f: "run_fold (\<lambda>(k, a). bank_store E k a) kas (b1, s1) = Some (Ok (b', s'))" "bank_inv E P b' s'"
    "bank_frame b1 b'" "sh_status s' = sh_status s1" "storable (be_db E) (sh_db s') = storable (be_db E) (sh_db s1)"
    "bank_ld E b' s' = bank_ld E b1 s1 ++ map_of (rev (map (\<lambda>(k, a). (k, as_stored a)) kas))"
    using Cons.IH [OF r(2)] Cons.prems(2) r(5) by auto
  have "bank_ld E b' s' = bank_ld E b s ++ map_of (rev (map (\<lambda>(k, a). (k, as_stored a)) (ka # kas)))"
    by (simp add: f(6) r(6) ka map_add_def fun_eq_iff split: option.split)
  then show ?case using r(1) f(1-5) bank_frame_trans [OF r(3) f(3)] r(4,5) by (simp add: ka)
qed

definition native_programs :: "genesis_block \<Rightarrow> (pubkey \<times> account) list" where
  "native_programs gb = map (\<lambda>(name, k). (k, create_loadable_account (str_bytes name)))
     ([(''morgan_system_program'', system_program_id), (''morgan_bpf_loader'', bpf_loader_id),
       (''morgan_vote_controller'', vote_program_id)] @ gb_native_instruction_processors gb)"

lemma run_fold_map: "run_fold f (map g xs) st = run_fold (\<lambda>x. f (g x)) xs st"
proof (induction xs arbitrary: st)
  case (Cons x xs)
  then have "run_fold f (map g xs) = run_fold (\<lambda>x. f (g x)) xs" by (simp add: fun_eq_iff)
  then show ?case by simp
qed simp

lemma register_native_fold:
  "run_fold (\<lambda>(name, k). register_native_instruction_processor E name k)
     ([(''morgan_system_program'', system_program_id), (''morgan_bpf_loader'', bpf_loader_id),
       (''morgan_vote_controller'', vote_program_id)] @ gb_native_instruction_processors gb) st =
   run_fold (\<lambda>(k, a). bank_store E k a) (native_programs gb) st"
proof -
  have "(\<lambda>(name, k). register_native_instruction_processor E name k) =
      (\<lambda>x. (\<lambda>(k, a). bank_store E k a) ((\<lambda>(name, k). (k, create_loadable_account (str_bytes name))) x))"
    by (auto simp: fun_eq_iff register_native_instruction_processor_def)
  then show ?thesis by (simp only: native_programs_def run_fold_map)
qed

lemma bank_new_spec:
  assumes env: "db_env_ok (be_db E)" and sched: "(epoch_schedule_new (gb_slots_per_epoch gb) (gb_stakers_slot_offset gb) (gb_epoch_warmup gb)
       :: (unit, epoch_schedule) res) = Ok sched"
    and st: "\<forall>ka \<in> set (gb_accounts gb @ native_programs gb). storable (be_db E) accounts_db_new ka"
    and def: "storable (be_db E) accounts_db_new (default_pubkey, default_account\<lparr>difs := 1\<rparr>)"
  shows "\<exists>b s H'. bank_new E now gh gb p H = Some (Ok (b, s, H')) \<and> bank_inv E {} b s \<and>
    bank_ancestors b = [(0, 0)] \<and> bank_slot b = 0 \<and> bank_parent b = None \<and> sh_status s = status_cache_default \<and>
    bank_ld E b s = map_of (rev (map (\<lambda>(k, a). (k, as_stored a)) (gb_accounts gb @ native_programs gb)))"
proof -
  obtain locks H' where lk: "accounts_locks_new p H = (locks, H')" by (cases "accounts_locks_new p H")
  define b0 where "b0 = (bank_default E locks)\<lparr>bank_ancestors := [(0, 0)],
     bank_collector_id := gb_bootstrap_leader_pubkey gb, bank_fee_calculator := gb_fee_calculator gb\<rparr>"
  define s0 :: shared where "s0 = \<lparr>sh_db = accounts_db_new, sh_status = status_cache_default\<rparr>"
  have "db_reach (be_db E) {} accounts_db_new"
    unfolding accounts_db_new_def by (rule db_reach.new) (simp add: ACCOUNT_DATA_FILE_SIZE_def)
  then have tip: "fork_tip (be_db E) {} (bank_anc b0) (bank_slot b0) accounts_db_new"
    using db_reach_ok [OF _ env] env
    by (auto simp: fork_tip_def b0_def bank_default_def accounts_db_new_def accounts_db_new_with_file_size_def accounts_index_default_def)
  have none: "bank_ld E b0 s0 = Map.empty"
    by (simp add: fun_eq_iff tip_load_def db_load_def s0_def accounts_db_new_def accounts_db_new_with_file_size_def
        accounts_index_default_def index_get_def)
  have inv0: "bank_inv E {} b0 s0" using tip none def by (simp add: bank_inv_def s0_def)
  obtain b1 s1 where f1: "run_fold (\<lambda>(k, a). bank_store E k a) (gb_accounts gb) (b0, s0) = Some (Ok (b1, s1))" "bank_inv E {} b1 s1"
    "bank_frame b0 b1" "sh_status s1 = sh_status s0" "storable (be_db E) (sh_db s1) = storable (be_db E) (sh_db s0)"
    "bank_ld E b1 s1 = map_of (rev (map (\<lambda>(k, a). (k, as_stored a)) (gb_accounts gb)))"
    using run_fold_store [OF inv0, of "gb_accounts gb"] st none by (auto simp: s0_def)
  note fr1 = bank_frameD [OF f1(3)]
  define b2 where "b2 = b1\<lparr>bank_queue := genesis_hash now gh (bank_queue b1), bank_ticks_per_slot := gb_ticks_per_slot gb,
     bank_max_tick_height := (bank_slot b1 + 1) * gb_ticks_per_slot gb - 1, bank_is_delta := True, bank_epoch_schedule := sched\<rparr>"
  have inv2: "bank_inv E {} b2 s1" using f1(2) bank_inv_cong [of b2 b1 s1 s1 E "{}"] by (simp add: b2_def)
  obtain b3 s3 where f3: "run_fold (\<lambda>(k, a). bank_store E k a) (native_programs gb) (b2, s1) = Some (Ok (b3, s3))" "bank_inv E {} b3 s3"
    "bank_frame b2 b3" "sh_status s3 = sh_status s1"
    "bank_ld E b3 s3 = bank_ld E b2 s1 ++ map_of (rev (map (\<lambda>(k, a). (k, as_stored a)) (native_programs gb)))"
    using run_fold_store [OF inv2, of "native_programs gb"] st f1(5) by (auto simp: s0_def)
  define b where "b = b3\<lparr>bank_epoch_stakes := (\<lambda>e. if e \<le> get_stakers_epoch (bank_epoch_schedule b3) (bank_slot b3)
     then Some (bank_stakes b3) else bank_epoch_stakes b3 e)\<rparr>"
  have "process_genesis_block E now gh gb ((bank_default E locks)\<lparr>bank_ancestors := [(0, 0)]\<rparr>, s0) = Some (Ok (b3, s3))"
    using f1(1) f3(1) sched unfolding process_genesis_block_def register_native_fold b0_def
    by (simp add: b2_def Let_def)
  then have "bank_new E now gh gb p H = Some (Ok (b, s3, H'))"
    by (simp add: bank_new_def lk s0_def [symmetric] b_def run_ok_def)
  moreover have "bank_inv E {} b s3" using f3(2) bank_inv_cong [of b b3 s3 s3 E "{}"] by (simp add: b_def)
  moreover have "bank_parent b = None"
    using f1(3) f3(3) by (auto simp: b_def bank_frame_def b2_def b0_def bank_default_def)
  moreover have "bank_ancestors b = [(0, 0)]" "bank_slot b = 0" "sh_status s3 = status_cache_default"
    using bank_frameD [OF f3(3)] fr1 f3(4) f1(4) by (simp_all add: b_def b2_def b0_def bank_default_def s0_def)
  moreover have "bank_ld E b s3 = map_of (rev (map (\<lambda>(k, a). (k, as_stored a)) (gb_accounts gb @ native_programs gb)))"
    using f3(5) f1(6) by (simp add: b_def b2_def)
  ultimately show ?thesis by blast
qed

text \<open>
  C34: the genesis bank. For a genesis block with at least the minimum of slots per epoch whose accounts fit into a
  store, creating the bank returns, and the bank then reads exactly the accounts of the block and the
  native programs, the last entry of a key counting and accounts without difs being absent.
\<close>

theorem genesis_bank_accounts:
  assumes "db_env_ok (be_db E)" "MINIMUM_SLOT_LENGTH \<le> gb_slots_per_epoch gb"
    "\<forall>ka \<in> set (gb_accounts gb @ native_programs gb). storable (be_db E) accounts_db_new ka"
    "storable (be_db E) accounts_db_new (default_pubkey, default_account\<lparr>difs := 1\<rparr>)"
  shows "\<exists>b s H'. bank_new E now gh gb p H = Some (Ok (b, s, H')) \<and> bank_inv E {} b s \<and>
    (\<forall>k. bank_get_account E b s k =
       (case map_of (rev (gb_accounts gb @ native_programs gb)) k of
          None \<Rightarrow> None | Some a \<Rightarrow> if difs a = 0 then None else Some a))"
proof -
  have "\<exists>sched. (epoch_schedule_new (gb_slots_per_epoch gb) (gb_stakers_slot_offset gb) (gb_epoch_warmup gb)
      :: (unit, epoch_schedule) res) = Ok sched"
    using assms(2) by (simp add: epoch_schedule_new_def Let_def split_def not_less [symmetric])
  then obtain sched where "(epoch_schedule_new (gb_slots_per_epoch gb) (gb_stakers_slot_offset gb) (gb_epoch_warmup gb)
      :: (unit, epoch_schedule) res) = Ok sched" by blast
  from bank_new_spec [OF assms(1) this assms(3,4), of now gh p H] obtain b s H' where
    b: "bank_new E now gh gb p H = Some (Ok (b, s, H'))" "bank_inv E {} b s"
    "bank_ld E b s = map_of (rev (map (\<lambda>(k, a). (k, as_stored a)) (gb_accounts gb @ native_programs gb)))" by blast
  have "map_of (rev (map (\<lambda>(k, a). (k, as_stored a)) kas)) k = map_option as_stored (map_of (rev kas) k)" for kas k
    by (simp add: rev_map map_of_map)
  then have ld: "bank_ld E b s k = map_option as_stored (map_of (rev (gb_accounts gb @ native_programs gb)) k)" for k
    by (simp only: b(3))
  have "bank_get_account E b s k = (case map_of (rev (gb_accounts gb @ native_programs gb)) k of
      None \<Rightarrow> None | Some a \<Rightarrow> if difs a = 0 then None else Some a)" for k
    by (cases "map_of (rev (gb_accounts gb @ native_programs gb)) k")
      (simp_all add: bank_get_account_alt ld as_stored_def del: rev_append map_of_append)
  with b(1,2) show ?thesis by blast
qed

section \<open>What an operation keeps of its bank\<close>

definition bank_keeps :: "bank \<Rightarrow> bank \<Rightarrow> bool" where
  "bank_keeps b b' \<longleftrightarrow>
     bank_parent b' = bank_parent b \<and> bank_slot b' = bank_slot b \<and> bank_ancestors b' = bank_ancestors b \<and>
     bank_parent_hash b' = bank_parent_hash b \<and> bank_hash b' = bank_hash b"

lemma bank_keeps_refl [simp]: "bank_keeps b b"
  by (simp add: bank_keeps_def)

lemma bank_keeps_trans: "bank_keeps a b \<Longrightarrow> bank_keeps b c \<Longrightarrow> bank_keeps a c"
  by (simp add: bank_keeps_def)

lemma bank_keeps_updates [simp]:
  "bank_keeps b (b'\<lparr>bank_locks := l\<rparr>) = bank_keeps b b'" "bank_keeps (b\<lparr>bank_locks := l\<rparr>) b' = bank_keeps b b'"
  "bank_keeps b (b'\<lparr>bank_stakes := st\<rparr>) = bank_keeps b b'" "bank_keeps b (b'\<lparr>bank_is_delta := d\<rparr>) = bank_keeps b b'"
  "bank_keeps b (b'\<lparr>bank_symbols := sy, bank_transaction_count := n\<rparr>) = bank_keeps b b'"
  "bank_keeps b (b'\<lparr>bank_tick_height := t\<rparr>) = bank_keeps b b'" "bank_keeps b (b'\<lparr>bank_queue := q\<rparr>) = bank_keeps b b'"
  "bank_keeps b (b'\<lparr>bank_tick_height := t, bank_queue := q\<rparr>) = bank_keeps b b'"
  by (simp_all add: bank_keeps_def)

lemma bank_store_keeps: "bank_store E k a (b, s) = Some (Ok (b', s')) \<Longrightarrow> bank_keeps b b'"
  by (auto simp: bank_store_def split: if_splits)

lemma bank_withdraw_keeps: "bank_withdraw E k d (b, s) = Some (Ok (r, b', s')) \<Longrightarrow> bank_keeps b b'"
  by (auto simp: bank_withdraw_def run_ok_def bank_store_keeps split: option.splits if_splits)

lemma bank_deposit_keeps: "bank_deposit E k d (b, s) = Some (Ok (b', s')) \<Longrightarrow> bank_keeps b b'"
  by (auto simp: bank_deposit_def Let_def bank_store_keeps)

lemma collect_fees_keeps: "collect_fees E txrs fees (b, s) = Some (Ok (rs, fees', b', s')) \<Longrightarrow> bank_keeps b b'"
proof (induction txrs arbitrary: fees b s rs)
  case (Cons p txrs)
  obtain tx r where p: "p = (tx, r)" by (cases p)
  show ?case
  proof (cases "\<exists>n e. r = Inl (InstructionError n e)")
    case True
    then obtain n e where r: "r = Inl (InstructionError n e)" by blast
    obtain k ks where k: "account_keys (tx_message tx) = k # ks"
      using Cons.prems r by (cases "account_keys (tx_message tx)") (auto simp: p Let_def idx_def)
    let ?fee = "calculate_fee (bank_fee_calculator b) (tx_message tx)"
    obtain w b1 s1 where w: "bank_withdraw E k ?fee (b, s) = Some (Ok (w, b1, s1))"
      using Cons.prems by (auto simp: p Let_def r k)
    have "\<exists>f rs1. collect_fees E txrs f (b1, s1) = Some (Ok (rs1, fees', b', s'))"
      using Cons.prems w by (cases w) (auto simp: p Let_def r k)
    then show ?thesis using w Cons.IH bank_withdraw_keeps bank_keeps_trans by blast
  next
    case False
    then show ?thesis using Cons.IH Cons.prems
      by (auto simp: p Let_def split: sum.splits transaction_error.splits)
  qed
qed (simp add: run_ok_def)

lemma commit_keeps:
  assumes "commit_transactions E txs lds executed (b, s) = Some (Ok (rs, b', s'))"
  shows "bank_keeps b b'"
proof -
  define b0 where "b0 = (if list_ex can_commit executed then b\<lparr>bank_is_delta := True\<rparr> else b)"
  have "bank_keeps b b0" by (simp add: b0_def)
  from assms obtain s1 rs1 fees b2 s2 where
    "collect_fees E (zip txs executed) 0 (store_stakes E txs executed lds b0, s1) = Some (Ok (rs1, fees, b2, s2))"
    "bank_deposit E (bank_collector_id b2) fees (b2, s2) = Some (Ok (b', s'))"
    by (auto simp: commit_transactions_def b0_def [symmetric] Let_def update_transaction_statuses_def
        filter_program_errors_and_collect_fee_def)
  then have "bank_keeps (store_stakes E txs executed lds b0) b'"
    using collect_fees_keeps bank_deposit_keeps bank_keeps_trans by blast
  then show ?thesis using \<open>bank_keeps b b0\<close> bank_keeps_trans [of b "store_stakes E txs executed lds b0" b']
    by (simp add: store_stakes_def)
qed

lemma process_transactions_keeps:
  assumes "process_transactions E H txs (b, s) = Some (Ok (rs, b', s'))"
  shows "bank_keeps b b'"
proof -
  from assms obtain lrs locks lds executed b1 s1 b2 s2 where
    x: "(load_and_execute_transactions E txs lrs MAX_RECENT_BLOCKHASHES (b\<lparr>bank_locks := locks\<rparr>, s)
      :: (unit, loaded list \<times> unit tx_result list \<times> bank \<times> shared) res) = Ok (lds, executed, b1, s1)" and
    c: "commit_transactions E txs lds executed (b1, s1) = Some (Ok (rs, b2, s2))" and
    b': "b' = b2\<lparr>bank_locks := unlock_accounts txs lrs (bank_locks b2)\<rparr>"
    by (auto simp: process_transactions_def load_execute_and_commit_transactions_def run_ok_def)
  have "bank_keeps b b1" using x by (auto simp: load_and_execute_transactions_def)
  with commit_keeps [OF c] show ?thesis unfolding b' bank_keeps_updates by (rule bank_keeps_trans [rotated])
qed

lemma register_tick_keeps: "register_tick now h b = Ok b' \<Longrightarrow> bank_keeps b b'"
  by (auto simp: register_tick_def Let_def split: if_splits)

text \<open>A later state of the same bank: the hash is set once, the parent is dropped at most.\<close>

definition later_bank :: "bank \<Rightarrow> bank \<Rightarrow> bool" where
  "later_bank b b' \<longleftrightarrow>
     bank_slot b' = bank_slot b \<and> bank_ancestors b' = bank_ancestors b \<and> bank_parent_hash b' = bank_parent_hash b \<and>
     (bank_parent b' = None \<or> bank_parent b' = bank_parent b) \<and> (bank_is_frozen b \<longrightarrow> bank_hash b' = bank_hash b)"

lemma later_bank_keeps: "bank_keeps b b' \<Longrightarrow> later_bank b b'"
  by (simp add: bank_keeps_def later_bank_def)

lemma later_bank_refl [simp]: "later_bank b b"
  by (simp add: later_bank_def)

lemma freeze_later:
  assumes "freeze E (b, s) = Some (Ok (b', s'))"
  shows "later_bank b b'" "bank_parent b' = bank_parent b" "bank_is_frozen b \<Longrightarrow> b' = b \<and> s' = s"
proof -
  have "bank_parent b' = bank_parent b \<and> later_bank b b' \<and> (bank_is_frozen b \<longrightarrow> b' = b \<and> s' = s)"
  proof (cases "bank_is_frozen b")
    case True
    then show ?thesis using assms by (auto simp: freeze_def set_hash_def bank_is_frozen_def run_ok_def)
  next
    case False
    then obtain h where "update_slot_hashes E (b\<lparr>bank_hash := h\<rparr>, s) = Some (Ok (b', s'))"
      using assms by (auto simp: freeze_def set_hash_def bank_is_frozen_def run_ok_def)
    then obtain a where "bank_store E slot_hashes_id a (b\<lparr>bank_hash := h\<rparr>, s) = Some (Ok (b', s'))"
      by (auto simp: update_slot_hashes_def)
    from bank_store_keeps [OF this] show ?thesis using False by (simp add: bank_keeps_def later_bank_def)
  qed
  then show "later_bank b b'" "bank_parent b' = bank_parent b" "bank_is_frozen b \<Longrightarrow> b' = b \<and> s' = s" by simp_all
qed

section \<open>The tree\<close>

inductive world_step :: "bank_env \<Rightarrow> world \<Rightarrow> world \<Rightarrow> bool" for E where
  child: "new_from_parent E i collector_id sl w = Some (Ok (j, w')) \<Longrightarrow> world_step E w w'"
| freeze: "world_freeze E i w = Some (Ok (b, w')) \<Longrightarrow> world_step E w w'"
| squash: "squash E i w = Some (Ok w') \<Longrightarrow> world_step E w w'"
| batch: "w_banks w i = Some b \<Longrightarrow> process_transactions E (w_heap w) txs (b, w_shared w) = Some (Ok (rs, b', s')) \<Longrightarrow>
    world_step E w (w\<lparr>w_banks := (w_banks w)(i \<mapsto> b'), w_shared := s'\<rparr>)"
| tick: "w_banks w i = Some b \<Longrightarrow> register_tick now h b = (Ok b' :: (unit, bank) res) \<Longrightarrow>
    world_step E w (w\<lparr>w_banks := (w_banks w)(i \<mapsto> b')\<rparr>)"
| drop: "\<forall>j b. w_banks w j = Some b \<longrightarrow> bank_parent b \<noteq> Some i \<Longrightarrow> world_step E w (bank_drop i w)"

inductive world_reach :: "bank_env \<Rightarrow> world \<Rightarrow> bool" for E where
  genesis: "bank_new E now gh gb 0 H = Some (Ok (b, s, H')) \<Longrightarrow>
    world_reach E \<lparr>w_shared = s, w_heap = H', w_banks = [0 \<mapsto> b], w_next = 1\<rparr>"
| step: "world_reach E w \<Longrightarrow> world_step E w w' \<Longrightarrow> world_reach E w'"

definition tree_ok :: "(nat \<rightharpoonup> bank) \<Rightarrow> nat \<Rightarrow> bool" where
  "tree_ok banks n \<longleftrightarrow>
     (\<forall>i b. banks i = Some b \<longrightarrow> i < n \<and> bank_anc b (bank_slot b) \<noteq> None \<and>
        (\<exists>ps. parents_loop banks (bank_parent b) = Some ps \<and> sorted_wrt (>) (i # ps) \<and>
           (\<forall>p \<in> set ps. banks p \<noteq> None \<and> bank_anc b (slot_at banks p) \<noteq> None)) \<and>
        (\<forall>p q. bank_parent b = Some p \<longrightarrow> banks p = Some q \<longrightarrow> bank_parent_hash b \<noteq> default_hash \<longrightarrow>
           bank_hash q = bank_parent_hash b))"

lemma parents_loop_Nil [simp]: "parents_loop banks None = Some []"
  by (subst parents_loop.simps) simp

lemma parents_loop_Some [simp]:
  "parents_loop banks (Some i) =
     (case banks i of None \<Rightarrow> None | Some b \<Rightarrow> map_option ((#) i) (parents_loop banks (bank_parent b)))"
  by (subst parents_loop.simps) (auto split: option.split simp: map_option_case Option.bind_def)

text \<open>When banks only drop parents, and no parent goes away, the chains get shorter.\<close>

lemma parents_loop_later:
  assumes "parents_loop banks p = Some ps" "\<forall>i. p = Some i \<longrightarrow> banks' i \<noteq> None"
    "\<forall>i b'. banks' i = Some b' \<longrightarrow> (\<exists>b. banks i = Some b \<and> later_bank b b')"
    "\<forall>j b' i. banks' j = Some b' \<longrightarrow> bank_parent b' = Some i \<longrightarrow> banks i \<noteq> None \<longrightarrow> banks' i \<noteq> None"
  shows "\<exists>n. parents_loop banks' p = Some (take n ps) \<and> (\<forall>i \<in> set (take n ps). banks' i \<noteq> None)"
  using assms(1,2)
proof (induction ps arbitrary: p)
  case Nil
  then show ?case by (cases p) (auto split: option.splits)
next
  case (Cons i ps)
  then obtain b where b: "p = Some i" "banks i = Some b" "parents_loop banks (bank_parent b) = Some ps"
    by (cases p) (auto split: option.splits)
  obtain b' where b': "banks' i = Some b'" "later_bank b b'" using Cons.prems(2) b(1,2) assms(3) by force
  show ?case
  proof (cases "bank_parent b'")
    case None
    then show ?thesis using b b' by (intro exI [of _ 1]) simp
  next
    case (Some j)
    then have "bank_parent b = Some j" using b'(2) by (auto simp: later_bank_def)
    moreover have "banks j \<noteq> None" using b(3) \<open>bank_parent b = Some j\<close> by (auto split: option.splits)
    then have "banks' j \<noteq> None" using assms(4) b'(1) Some by blast
    ultimately obtain n where "parents_loop banks' (bank_parent b) = Some (take n ps)" "\<forall>i \<in> set (take n ps). banks' i \<noteq> None"
      using Cons.IH [OF b(3)] by auto
    then show ?thesis using b(1) b' Some \<open>bank_parent b = Some j\<close> by (intro exI [of _ "Suc n"]) simp
  qed
qed

lemma tree_ok_later:
  assumes ok: "tree_ok banks n"
    and later: "\<forall>i b'. banks' i = Some b' \<longrightarrow> (\<exists>b. banks i = Some b \<and> later_bank b b')"
    and alive: "\<forall>j b' i. banks' j = Some b' \<longrightarrow> bank_parent b' = Some i \<longrightarrow> banks i \<noteq> None \<longrightarrow> banks' i \<noteq> None"
  shows "tree_ok banks' n"
  unfolding tree_ok_def
proof (intro allI impI)
  fix i b' assume i: "banks' i = Some b'"
  obtain b where b: "banks i = Some b" "later_bank b b'" using later i by blast
  obtain ps where o: "i < n" "bank_anc b (bank_slot b) \<noteq> None" "parents_loop banks (bank_parent b) = Some ps" "sorted_wrt (>) (i # ps)"
    "\<forall>p \<in> set ps. banks p \<noteq> None \<and> bank_anc b (slot_at banks p) \<noteq> None"
    and h: "\<forall>p q. bank_parent b = Some p \<longrightarrow> banks p = Some q \<longrightarrow> bank_parent_hash b \<noteq> default_hash \<longrightarrow> bank_hash q = bank_parent_hash b"
    using ok b(1) unfolding tree_ok_def by blast
  have slot: "slot_at banks' p = slot_at banks p" if "banks' p \<noteq> None" for p
    using that later by (force simp: slot_at_def later_bank_def)
  have "parents_loop banks (Some i) = Some (i # ps)" using b(1) o(3) by simp
  from parents_loop_later [OF this _ later alive] i obtain m where
    "parents_loop banks' (Some i) = Some (take m (i # ps))" "\<forall>p \<in> set (take m (i # ps)). banks' p \<noteq> None" by auto
  then obtain m' where m: "parents_loop banks' (bank_parent b') = Some (take m' ps)" "\<forall>p \<in> set (take m' ps). banks' p \<noteq> None"
    using i by (cases m) auto
  have "sorted_wrt (>) (i # take m' ps)" using o(4) by (auto dest: in_set_takeD simp: sorted_wrt_take)
  moreover have "\<forall>p \<in> set (take m' ps). banks' p \<noteq> None \<and> bank_anc b' (slot_at banks' p) \<noteq> None"
    using m(2) o(5) b(2) slot by (auto dest!: in_set_takeD simp: later_bank_def)
  moreover have "bank_hash q = bank_parent_hash b'"
    if q: "bank_parent b' = Some p" "banks' p = Some q" "bank_parent_hash b' \<noteq> default_hash" for p q
  proof -
    obtain q0 where q0: "banks p = Some q0" "later_bank q0 q" using later q(2) by blast
    have "bank_parent b = Some p" using q(1) b(2) by (auto simp: later_bank_def)
    then have "bank_hash q0 = bank_parent_hash b" using h q(3) b(2) q0(1) by (simp add: later_bank_def)
    then show ?thesis using q(3) q0(2) b(2) by (simp add: later_bank_def bank_is_frozen_def)
  qed
  ultimately show "i < n \<and> bank_anc b' (bank_slot b') \<noteq> None \<and>
    (\<exists>ps. parents_loop banks' (bank_parent b') = Some ps \<and> sorted_wrt (>) (i # ps) \<and>
       (\<forall>p \<in> set ps. banks' p \<noteq> None \<and> bank_anc b' (slot_at banks' p) \<noteq> None)) \<and>
    (\<forall>p q. bank_parent b' = Some p \<longrightarrow> banks' p = Some q \<longrightarrow> bank_parent_hash b' \<noteq> default_hash \<longrightarrow>
       bank_hash q = bank_parent_hash b')"
    using m(1) o(1,2) b(2) by (auto simp: later_bank_def)
qed

lemma tree_ok_update:
  assumes "tree_ok banks n" "banks i = Some b" "later_bank b b'"
  shows "tree_ok (banks(i \<mapsto> b')) n"
  by (rule tree_ok_later [OF assms(1)]) (use assms in auto)

lemma ancestors_of_dom: "map_of (ancestors_of banks sl ps) f \<noteq> None \<longleftrightarrow> f = sl \<or> f \<in> slot_at banks ` set ps"
proof -
  have "map_of (fold (\<lambda>(i, p). AList.update (slot_at banks p) (i + 1)) (enumerate k ps) m) f \<noteq> None \<longleftrightarrow>
      map_of m f \<noteq> None \<or> f \<in> slot_at banks ` set ps" for k m
  proof (induction ps arbitrary: k m)
    case (Cons p ps)
    show ?case using Cons [of "Suc k" "AList.update (slot_at banks p) (k + 1) m"] by (auto simp: update_conv')
  qed simp
  then show ?thesis by (auto simp: ancestors_of_def)
qed

lemma parents_loop_new:
  assumes "parents_loop banks p = Some ps" "banks n = None"
  shows "parents_loop (banks(n \<mapsto> b)) p = Some ps"
  using assms
proof (induction ps arbitrary: p)
  case Nil
  then show ?case by (cases p) (auto split: option.splits)
next
  case (Cons i ps)
  then show ?case by (cases p) (auto split: option.splits)
qed

lemma parents_loop_same:
  assumes "parents_loop banks p = Some ps" "\<forall>i. map_option bank_parent (banks' i) = map_option bank_parent (banks i)"
  shows "parents_loop banks' p = Some ps"
  using assms
proof (induction ps arbitrary: p)
  case Nil
  then show ?case by (cases p) (auto split: option.splits)
next
  case (Cons i ps)
  then obtain b where b: "p = Some i" "banks i = Some b" "parents_loop banks (bank_parent b) = Some ps"
    by (cases p) (auto split: option.splits)
  moreover obtain b' where "banks' i = Some b'" "bank_parent b' = bank_parent b"
    using Cons.prems(2) [rule_format, of i] b(2) by auto
  ultimately show ?case using Cons.IH [OF b(3) Cons.prems(2)] by simp
qed

lemma tree_ok_child:
  assumes ok: "tree_ok banks n" and p: "banks i = Some p" "parents_loop banks (bank_parent p) = Some ps"
    and b: "bank_parent b = Some i" "bank_ancestors b = ancestors_of banks (bank_slot b) (i # ps)" "bank_parent_hash b = bank_hash p"
  shows "tree_ok (banks(n \<mapsto> b)) (Suc n)"
proof -
  have n: "banks n = None" using ok unfolding tree_ok_def by (metis not_None_eq less_irrefl)
  have slot: "slot_at (banks(n \<mapsto> b)) q = slot_at banks q" if "banks q \<noteq> None" for q using that n by (auto simp: slot_at_def)
  obtain ps' where o: "i < n" "parents_loop banks (bank_parent p) = Some ps'" "sorted_wrt (>) (i # ps')"
    "\<forall>q \<in> set ps'. banks q \<noteq> None"
    using ok p(1) unfolding tree_ok_def by blast
  have "ps' = ps" using o(2) p(2) by simp
  have "i \<noteq> n" using n p(1) by auto
  have new: "parents_loop (banks(n \<mapsto> b)) (Some i) = Some (i # ps)"
    using parents_loop_new [of banks "Some i" "i # ps" n b] p n by simp
  have old: "\<exists>qs. parents_loop (banks(n \<mapsto> b)) (bank_parent c) = Some qs \<and> sorted_wrt (>) (j # qs) \<and>
      (\<forall>q \<in> set qs. (banks(n \<mapsto> b)) q \<noteq> None \<and> bank_anc c (slot_at (banks(n \<mapsto> b)) q) \<noteq> None)" if "banks j = Some c" for j c
  proof -
    obtain qs where "parents_loop banks (bank_parent c) = Some qs" "sorted_wrt (>) (j # qs)"
      "\<forall>q \<in> set qs. banks q \<noteq> None \<and> bank_anc c (slot_at banks q) \<noteq> None"
      using ok \<open>banks j = Some c\<close> unfolding tree_ok_def by blast
    then show ?thesis using parents_loop_new [of banks "bank_parent c" qs n b] n slot by (intro exI [of _ qs]) auto
  qed
  have "sorted_wrt (>) (n # i # ps)" using o \<open>ps' = ps\<close> by auto
  moreover have "\<forall>q \<in> set (i # ps). (banks(n \<mapsto> b)) q \<noteq> None \<and> bank_anc b (slot_at (banks(n \<mapsto> b)) q) \<noteq> None"
    using o(4) p(1) \<open>ps' = ps\<close> slot unfolding b(2) ancestors_of_dom by auto
  moreover have "bank_anc b (bank_slot b) \<noteq> None" unfolding b(2) ancestors_of_dom by simp
  ultimately show ?thesis
    unfolding tree_ok_def
  proof (intro allI impI, goal_cases)
    case (1 j c)
    show ?case
    proof (cases "j = n")
      case True
      with 1 new b \<open>i \<noteq> n\<close> p(1) show ?thesis by (auto simp del: parents_loop_Some)
    next
      case False
      then have j: "banks j = Some c" using 1(4) by simp
      have "j < n" "bank_anc c (bank_slot c) \<noteq> None" and
        h: "\<forall>p q. bank_parent c = Some p \<longrightarrow> banks p = Some q \<longrightarrow> bank_parent_hash c \<noteq> default_hash \<longrightarrow> bank_hash q = bank_parent_hash c"
        using ok j unfolding tree_ok_def by blast+
      moreover have "bank_parent c \<noteq> Some n" using old [OF j] ok j n unfolding tree_ok_def by (force split: option.splits)
      ultimately show ?thesis using old [OF j] by auto
    qed
  qed
qed

lemma world_freeze_step:
  assumes "world_freeze E i w = Some (Ok (b', w'))"
  obtains b s' where "w_banks w i = Some b" "freeze E (b, w_shared w) = Some (Ok (b', s'))"
    "w' = w\<lparr>w_shared := s', w_banks := (w_banks w)(i \<mapsto> b')\<rparr>"
  using assms by (auto simp: world_freeze_def run_ok_def split: option.splits)

lemma world_freeze_tree:
  assumes "world_freeze E i w = Some (Ok (b', w'))" "tree_ok (w_banks w) (w_next w)"
  shows "tree_ok (w_banks w') (w_next w')" "w_banks w' i = Some b'"
proof -
  from assms(1) obtain b s' where b: "w_banks w i = Some b" "freeze E (b, w_shared w) = Some (Ok (b', s'))"
    "w' = w\<lparr>w_shared := s', w_banks := (w_banks w)(i \<mapsto> b')\<rparr>" by (rule world_freeze_step)
  from tree_ok_update [OF assms(2) b(1) freeze_later(1) [OF b(2)]] b(3)
  show "tree_ok (w_banks w') (w_next w')" "w_banks w' i = Some b'" by simp_all
qed

lemma new_from_parent_tree:
  assumes "new_from_parent E i c sl w = Some (Ok (j, w'))" "tree_ok (w_banks w) (w_next w)"
  shows "tree_ok (w_banks w') (w_next w')"
proof -
  from assms(1) obtain p w1 where fz: "world_freeze E i w = Some (Ok (p, w1))" unfolding new_from_parent_def by force
  note w1 = world_freeze_tree [OF fz assms(2)]
  obtain ps where ps: "bank_parents (w_banks w1) p = Some ps"
    using assms(1) fz by (auto simp: new_from_parent_def split: if_splits option.splits Option.bind_splits)
  obtain locks plocks H where lk: "accounts_locks_new_from_parent (w_next w1) (bank_locks p) (w_heap w1) = (locks, plocks, H)"
    by (metis prod_cases3)
  let ?banks = "(w_banks w1)(i \<mapsto> p\<lparr>bank_locks := plocks\<rparr>)"
  obtain b where b: "w' = w1\<lparr>w_heap := H, w_banks := ?banks(w_next w1 \<mapsto> b), w_next := w_next w1 + 1\<rparr>"
    "bank_parent b = Some i" "bank_slot b = sl" "bank_ancestors b = ancestors_of (w_banks w1) sl (i # ps)" "bank_parent_hash b = bank_hash p"
    using assms(1) fz ps lk by (auto simp: new_from_parent_def Let_def run_ok_def split: if_splits)
  have t: "tree_ok ?banks (w_next w1)"
    by (rule tree_ok_update [OF w1]) (simp add: later_bank_def)
  have "slot_at ?banks = slot_at (w_banks w1)" using w1(2) by (auto simp: slot_at_def fun_eq_iff)
  then have anc: "bank_ancestors b = ancestors_of ?banks (bank_slot b) (i # ps)" using b(3,4) by (simp add: ancestors_of_def)
  have "parents_loop ?banks (bank_parent p) = Some ps"
    by (rule parents_loop_same) (use ps w1(2) in \<open>auto simp: bank_parents_def\<close>)
  then show ?thesis using tree_ok_child [OF t _ _ b(2) anc, of "p\<lparr>bank_locks := plocks\<rparr>"] b(1,5) by simp
qed

lemma squash_step:
  assumes "squash E i w = Some (Ok w')"
  obtains b w1 where "world_freeze E i w = Some (Ok (b, w1))" "w_banks w' = (w_banks w1)(i \<mapsto> b\<lparr>bank_parent := None\<rparr>)" "w_next w' = w_next w1"
  using assms by (auto simp: squash_def Let_def run_ok_def split: Option.bind_splits)

lemma world_step_tree:
  assumes "world_step E w w'" "tree_ok (w_banks w) (w_next w)"
  shows "tree_ok (w_banks w') (w_next w')"
  using assms
proof (cases rule: world_step.cases)
  case (child i c sl j)
  then show ?thesis using new_from_parent_tree assms(2) by blast
next
  case (freeze i b)
  then show ?thesis using world_freeze_tree(1) assms(2) by blast
next
  case (squash i)
  then obtain b w1 where s: "world_freeze E i w = Some (Ok (b, w1))" "w_banks w' = (w_banks w1)(i \<mapsto> b\<lparr>bank_parent := None\<rparr>)"
    "w_next w' = w_next w1" by (rule squash_step)
  have "tree_ok ((w_banks w1)(i \<mapsto> b\<lparr>bank_parent := None\<rparr>)) (w_next w1)"
    by (rule tree_ok_update [OF world_freeze_tree [OF s(1) assms(2)]]) (simp add: later_bank_def)
  then show ?thesis using s(2,3) by simp
next
  case (batch i b txs rs b' s')
  have "tree_ok ((w_banks w)(i \<mapsto> b')) (w_next w)"
    by (rule tree_ok_update [OF assms(2) batch(2) later_bank_keeps [OF process_transactions_keeps [OF batch(3)]]])
  then show ?thesis by (simp add: batch(1))
next
  case (tick i b now h b')
  have "tree_ok ((w_banks w)(i \<mapsto> b')) (w_next w)"
    by (rule tree_ok_update [OF assms(2) tick(2) later_bank_keeps [OF register_tick_keeps [OF tick(3)]]])
  then show ?thesis by (simp add: tick(1))
next
  case (drop i)
  have "tree_ok ((w_banks w)(i := None)) (w_next w)"
    by (rule tree_ok_later [OF assms(2)]) (use drop(2) in auto)
  then show ?thesis using assms(2) by (simp add: drop(1) bank_drop_def split: option.split)
qed

lemma bank_new_tree:
  assumes "bank_new E now gh gb p H = Some (Ok (b, s, H'))"
  shows "bank_parent b = None" "bank_ancestors b = [(0, 0)]" "bank_slot b = 0"
proof -
  have fold: "bank_keeps c c'" if "run_fold (\<lambda>(k, a). bank_store E k a) kas (c, t) = Some (Ok (c', t'))" for kas c c' t t'
    using that
  proof (induction kas arbitrary: c t)
    case (Cons ka kas)
    then obtain c1 t1 where "bank_store E (fst ka) (snd ka) (c, t) = Some (Ok (c1, t1))"
      "run_fold (\<lambda>(k, a). bank_store E k a) kas (c1, t1) = Some (Ok (c', t'))" by (cases ka) auto
    then show ?case using Cons.IH bank_store_keeps bank_keeps_trans by blast
  qed (simp add: run_ok_def)
  obtain locks H0 where lk: "accounts_locks_new p H = (locks, H0)" by (cases "accounts_locks_new p H")
  let ?b0 = "(bank_default E locks)\<lparr>bank_ancestors := [(0, 0)]\<rparr>"
  obtain b3 s3 where g: "process_genesis_block E now gh gb (?b0, \<lparr>sh_db = accounts_db_new, sh_status = status_cache_default\<rparr>) = Some (Ok (b3, s3))"
    and b: "bank_parent b = bank_parent b3" "bank_ancestors b = bank_ancestors b3" "bank_slot b = bank_slot b3"
    using assms by (auto simp: bank_new_def lk run_ok_def)
  let ?b1 = "?b0\<lparr>bank_collector_id := gb_bootstrap_leader_pubkey gb, bank_fee_calculator := gb_fee_calculator gb\<rparr>"
  obtain b1 s1 sched where
    f: "run_fold (\<lambda>(k, a). bank_store E k a) (gb_accounts gb) (?b1, \<lparr>sh_db = accounts_db_new, sh_status = status_cache_default\<rparr>) = Some (Ok (b1, s1))"
    "run_fold (\<lambda>(k, a). bank_store E k a) (native_programs gb)
      (b1\<lparr>bank_queue := genesis_hash now gh (bank_queue b1), bank_ticks_per_slot := gb_ticks_per_slot gb,
          bank_max_tick_height := (bank_slot b1 + 1) * gb_ticks_per_slot gb - 1, bank_is_delta := True, bank_epoch_schedule := sched\<rparr>, s1) =
      Some (Ok (b3, s3))"
    using g unfolding process_genesis_block_def register_native_fold by (auto simp: Let_def)
  show "bank_parent b = None" "bank_ancestors b = [(0, 0)]" "bank_slot b = 0"
    using fold [OF f(1)] fold [OF f(2)] by (simp_all add: b bank_keeps_def bank_default_def)
qed

lemma world_reach_tree: "world_reach E w \<Longrightarrow> tree_ok (w_banks w) (w_next w)"
proof (induction rule: world_reach.induct)
  case (genesis now gh gb H b s H')
  then show ?case using bank_new_tree by (simp add: tree_ok_def)
next
  case (step w w')
  then show ?case using world_step_tree by blast
qed

text \<open>
  A bank that is frozen has a hash, provided that the digest never is the default hash and that there is
  something to hash: accounts of its slot, or the hash of its parent.
\<close>

definition has_hash_input :: "bank \<Rightarrow> shared \<Rightarrow> bool" where
  "has_hash_input b s \<longleftrightarrow> bank_is_frozen b \<or> bank_parent_hash b \<noteq> default_hash \<or> db_has_accounts (sh_db s) (bank_slot b)"

lemma freeze_hash:
  assumes "freeze E (b, s) = Some (Ok (b', s'))" "\<forall>x. be_sha E x \<noteq> default_hash" "has_hash_input b s"
  shows "bank_is_frozen b'"
proof (cases "bank_is_frozen b")
  case True
  then show ?thesis using freeze_later(3) [OF assms(1)] by simp
next
  case False
  then obtain h where h: "bank_hash_internal_state E b s = Some (Ok h)" "update_slot_hashes E (b\<lparr>bank_hash := h\<rparr>, s) = Some (Ok (b', s'))"
    using assms(1) by (auto simp: freeze_def set_hash_def bank_is_frozen_def run_ok_def)
  have "h \<noteq> default_hash"
    using h(1) assms(2,3) False
    by (auto simp: bank_hash_internal_state_def has_hash_input_def extend_and_hash_def run_ok_def split: if_splits sum.splits) (metis obj_sumE)
  moreover obtain a where "bank_store E slot_hashes_id a (b\<lparr>bank_hash := h\<rparr>, s) = Some (Ok (b', s'))"
    using h(2) by (auto simp: update_slot_hashes_def)
  ultimately show ?thesis using bank_store_keeps by (fastforce simp: bank_keeps_def bank_is_frozen_def)
qed

lemma new_from_parent_hash:
  assumes "new_from_parent E i k sl w = Some (Ok (j, w'))" "w_banks w i = Some p" "has_hash_input p (w_shared w)"
    "\<forall>x. be_sha E x \<noteq> default_hash" "tree_ok (w_banks w) (w_next w)"
  shows "\<exists>q c. w_banks w' i = Some q \<and> w_banks w' j = Some c \<and> bank_is_frozen q \<and> bank_parent_hash c = bank_hash q"
proof -
  from assms(1) obtain p' w1 where fz: "world_freeze E i w = Some (Ok (p', w1))" unfolding new_from_parent_def by force
  then obtain s' where f: "freeze E (p, w_shared w) = Some (Ok (p', s'))"
    "w1 = w\<lparr>w_shared := s', w_banks := (w_banks w)(i \<mapsto> p')\<rparr>"
    using assms(2) by (auto elim: world_freeze_step)
  have "i \<noteq> w_next w" using assms(2,5) by (auto simp: tree_ok_def)
  then show ?thesis
    using assms(1) fz f(2) freeze_hash [OF f(1) assms(4,3)]
    by (auto simp: new_from_parent_def Let_def run_ok_def bank_is_frozen_def split: if_splits Option.bind_splits prod.splits)
qed

lemma later_bank_trans: "later_bank a b \<Longrightarrow> later_bank b c \<Longrightarrow> later_bank a c"
  by (auto simp: later_bank_def bank_is_frozen_def)

text \<open>An address that was given out is never given to another bank: what is there later is the same bank, later.\<close>

definition later_world :: "world \<Rightarrow> world \<Rightarrow> bool" where
  "later_world w w' \<longleftrightarrow> w_next w \<le> w_next w' \<and>
     (\<forall>i < w_next w. \<forall>b'. w_banks w' i = Some b' \<longrightarrow> (\<exists>b. w_banks w i = Some b \<and> later_bank b b'))"

lemma later_world_update:
  "w_banks w i = Some b \<Longrightarrow> later_bank b b' \<Longrightarrow> w_next w' = w_next w \<Longrightarrow> w_banks w' = (w_banks w)(i \<mapsto> b') \<Longrightarrow> later_world w w'"
  by (auto simp: later_world_def)

lemma later_world_trans: "later_world u v \<Longrightarrow> later_world v w \<Longrightarrow> later_world u w"
  unfolding later_world_def by (meson later_bank_trans le_trans less_le_trans)

lemma world_freeze_later: "world_freeze E i w = Some (Ok (b', w')) \<Longrightarrow> later_world w w' \<and> w_banks w' i = Some b'"
  by (elim world_freeze_step) (auto intro!: later_world_update dest: freeze_later(1))

lemma new_from_parent_later:
  assumes "new_from_parent E i k sl w = Some (Ok (j, w'))"
  shows "later_world w w'"
proof -
  from assms obtain p w1 where fz: "world_freeze E i w = Some (Ok (p, w1))" unfolding new_from_parent_def by force
  note w1 = world_freeze_later [OF fz]
  have "later_world w1 w'"
    using assms fz w1
    by (auto simp: new_from_parent_def Let_def run_ok_def later_world_def later_bank_def split: if_splits Option.bind_splits prod.splits)
  then show ?thesis using w1 later_world_trans by blast
qed

lemma world_step_later: "world_step E w w' \<Longrightarrow> later_world w w'"
proof (induction rule: world_step.induct)
  case (child i k sl w j w')
  then show ?case by (rule new_from_parent_later)
next
  case (freeze i w b w')
  then show ?case using world_freeze_later by blast
next
  case (squash i w w')
  then obtain b w1 where s: "world_freeze E i w = Some (Ok (b, w1))" "w_banks w' = (w_banks w1)(i \<mapsto> b\<lparr>bank_parent := None\<rparr>)"
    "w_next w' = w_next w1" by (rule squash_step)
  have "later_world w1 w'" by (rule later_world_update [OF _ _ s(3,2)]) (use world_freeze_later [OF s(1)] in \<open>auto simp: later_bank_def\<close>)
  then show ?case using world_freeze_later [OF s(1)] later_world_trans by blast
next
  case (batch w i b txs rs b' s')
  show ?case by (rule later_world_update [OF batch(1) later_bank_keeps [OF process_transactions_keeps [OF batch(2)]]]) simp_all
next
  case (tick w i b now h b')
  show ?case by (rule later_world_update [OF tick(1) later_bank_keeps [OF register_tick_keeps [OF tick(2)]]]) simp_all
next
  case (drop w i)
  then show ?case by (auto simp: later_world_def bank_drop_def split: option.split if_splits)
qed

lemma world_steps_later: "(world_step E)\<^sup>*\<^sup>* w w' \<Longrightarrow> later_world w w'"
proof (induction rule: rtranclp_induct)
  case (step u v)
  then show ?case using world_step_later later_world_trans by blast
qed (simp add: later_world_def)

text \<open>
  C35: the tree of banks stays well formed. After any sequence of new children, batches, ticks, freezes,
  squashes and drops from the genesis bank, the slot of each bank is among its ancestors, following its
  parents ends, at banks that were created before it and are still there, and the slots of all of them are
  among its ancestors. Moreover, let a child be created from the bank at \<open>i\<close>, which is frozen, or has written
  accounts, or has a non-zero parent hash itself, and let the digest never be zero. Then the parent is frozen
  by this, and whatever happens afterwards, for as long as both are there, the parent keeps a hash that is not
  zero and the child has recorded this hash as the one of its parent.
\<close>

theorem bank_tree_invariant:
  assumes "world_reach E w"
  shows "(\<forall>i b. w_banks w i = Some b \<longrightarrow>
      bank_anc b (bank_slot b) \<noteq> None \<and>
      (\<exists>ps. bank_parents (w_banks w) b = Some ps \<and> sorted_wrt (>) (i # ps) \<and>
         (\<forall>p \<in> set ps. w_banks w p \<noteq> None \<and> bank_anc b (slot_at (w_banks w) p) \<noteq> None))) \<and>
    (\<forall>i p k sl j w1 w2 q c.
      (\<forall>x. be_sha E x \<noteq> default_hash) \<longrightarrow> w_banks w i = Some p \<longrightarrow>
      bank_is_frozen p \<or> bank_parent_hash p \<noteq> default_hash \<or> db_has_accounts (sh_db (w_shared w)) (bank_slot p) \<longrightarrow>
      new_from_parent E i k sl w = Some (Ok (j, w1)) \<longrightarrow> (world_step E)\<^sup>*\<^sup>* w1 w2 \<longrightarrow>
      w_banks w2 i = Some q \<longrightarrow> w_banks w2 j = Some c \<longrightarrow>
      bank_is_frozen q \<and> bank_parent_hash c = bank_hash q)"
proof -
  note t = world_reach_tree [OF assms]
  have "bank_is_frozen q \<and> bank_parent_hash c = bank_hash q"
    if "\<forall>x. be_sha E x \<noteq> default_hash" "w_banks w i = Some p"
      "bank_is_frozen p \<or> bank_parent_hash p \<noteq> default_hash \<or> db_has_accounts (sh_db (w_shared w)) (bank_slot p)"
      and new: "new_from_parent E i k sl w = Some (Ok (j, w1))" and steps: "(world_step E)\<^sup>*\<^sup>* w1 w2"
      and q: "w_banks w2 i = Some q" and c: "w_banks w2 j = Some c" for i p k sl j w1 w2 q c
  proof -
    from new_from_parent_hash [OF new that(2) _ that(1) t] that(3) obtain q1 c1 where
      1: "w_banks w1 i = Some q1" "w_banks w1 j = Some c1" "bank_is_frozen q1" "bank_parent_hash c1 = bank_hash q1"
      by (auto simp: has_hash_input_def)
    have "i < w_next w1" "j < w_next w1" using new_from_parent_tree [OF new t] 1(1,2) by (auto simp: tree_ok_def)
    with world_steps_later [OF steps] q c 1(1,2) have "later_bank q1 q" "later_bank c1 c" unfolding later_world_def by fastforce+
    then show ?thesis using 1(3,4) by (simp add: later_bank_def bank_is_frozen_def)
  qed
  moreover have "\<forall>i b. w_banks w i = Some b \<longrightarrow> bank_anc b (bank_slot b) \<noteq> None \<and>
      (\<exists>ps. bank_parents (w_banks w) b = Some ps \<and> sorted_wrt (>) (i # ps) \<and>
         (\<forall>p \<in> set ps. w_banks w p \<noteq> None \<and> bank_anc b (slot_at (w_banks w) p) \<noteq> None))"
    using t unfolding tree_ok_def bank_parents_def by blast
  ultimately show ?thesis by blast
qed

definition demo_genesis :: genesis_block where
  "demo_genesis = genesis_block_new (demo_key 3) [(demo_key 1, demo_balance 10)] []"

lemma str_bytes_length [simp]: "length (str_bytes s) = length s"
  by (simp add: str_bytes_def)

lemma demo_genesis_storable:
  "\<forall>ka \<in> set (gb_accounts demo_genesis @ native_programs demo_genesis). storable (be_db demo_bank_env) accounts_db_new ka"
  "storable (be_db demo_bank_env) accounts_db_new (default_pubkey, default_account\<lparr>difs := 1\<rparr>)"
  by (simp_all add: demo_genesis_def genesis_block_new_def native_programs_def storable_def valid_key_def demo_key_def
      demo_balance_def account_new_def create_loadable_account_def native_loader_id_def demo_bank_env_def demo_db_env_def
      packed_layout_def align_up_def accounts_db_new_def accounts_db_new_with_file_size_def ACCOUNT_DATA_FILE_SIZE_def
      system_program_id_demo bpf_loader_id_def vote_program_id_def default_pubkey_def default_account_def)

theorem genesis_bank_accounts_witness:
  "\<exists>b s H'. bank_new demo_bank_env 0 default_hash demo_genesis 0 (\<lambda>_. {}) = Some (Ok (b, s, H')) \<and>
     bank_get_account demo_bank_env b s (demo_key 1) = Some (demo_balance 10) \<and>
     bank_get_account demo_bank_env b s (demo_key 2) = None"
proof -
  have "db_env_ok (be_db demo_bank_env)" "MINIMUM_SLOT_LENGTH \<le> gb_slots_per_epoch demo_genesis"
    by (simp_all add: demo_bank_env_def demo_db_env_ok demo_genesis_def genesis_block_new_def MINIMUM_SLOT_LENGTH_def MAX_LOCKOUT_HISTORY_def)
  from genesis_bank_accounts [OF this demo_genesis_storable, of 0 default_hash 0 "\<lambda>_. {}"] obtain b s H' where
    "bank_new demo_bank_env 0 default_hash demo_genesis 0 (\<lambda>_. {}) = Some (Ok (b, s, H'))"
    "\<forall>k. bank_get_account demo_bank_env b s k =
       (case map_of (rev (gb_accounts demo_genesis @ native_programs demo_genesis)) k of
          None \<Rightarrow> None | Some a \<Rightarrow> if difs a = 0 then None else Some a)" by blast
  moreover have ne: "k \<noteq> k'" if "last (pubkey_bytes k) \<noteq> last (pubkey_bytes k')" for k k' using that by auto
  have "demo_key 1 \<noteq> bpf_loader_id" "demo_key 1 \<noteq> vote_program_id" "demo_key 2 \<noteq> bpf_loader_id" "demo_key 2 \<noteq> vote_program_id"
    "demo_key 1 \<noteq> demo_key 0" "demo_key 2 \<noteq> demo_key 0" "demo_key 2 \<noteq> demo_key 1"
    by (rule ne, simp add: bpf_loader_id_def vote_program_id_def demo_key_def)+
  ultimately show ?thesis
    by (simp add: demo_genesis_def genesis_block_new_def native_programs_def demo_balance_def account_new_def system_program_id_demo)
qed

text \<open>A genesis bank that reads an account has written one, since there is no slot before its own.\<close>

lemma genesis_has_accounts:
  assumes inv: "bank_inv E P b s" and b: "bank_slot b = 0" and ld: "bank_ld E b s k = Some a"
  shows "db_has_accounts (sh_db s) 0"
proof -
  let ?db = "sh_db s" and ?ix = "db_index (sh_db s)"
  have tip: "fork_tip (be_db E) P (bank_anc b) 0 ?db" using inv b by (simp add: bank_inv_def)
  have db: "store_inv (be_db E) P (index_refs ?ix) ?db" "finite (dom (account_maps ?ix))" "0 \<notin> P"
    using tip by (simp_all add: fork_tip_def db_ok_def)
  from ld obtain info g where g: "index_get ?ix k (bank_anc b) = Some (info, g)"
    by (auto simp: tip_load_def db_load_alt Option.bind_eq_Some_conv)
  note v = index_get_SomeD [OF g]
  have "g = 0" using v tip by (auto simp: visible_def is_root_def fork_tip_def)
  with v db(2) have r: "(0, info) \<in># index_refs ?ix" by (auto simp: index_refs_mem)
  then have "ref_inv (be_db E) P ?db 0 info" using db(1) by (simp add: store_inv_def)
  then obtain e where e: "map_of (db_storage ?db) (ai_id info) = Some e" "se_fork e = 0" using db(3) by (auto simp: ref_inv_def)
  then have "entry_inv (be_db E) P (index_refs ?ix) ?db (ai_id info) e" using db(1) by (simp add: store_inv_def)
  then have "se_count e \<noteq> 0" using r by (auto simp: entry_inv_def)
  then show ?thesis using map_of_SomeD [OF e(1)] e(2) by (force simp: db_has_accounts_def list_ex_iff)
qed

text \<open>An environment in which banks can be frozen: every balance and every hash of a delta can be written.\<close>

definition demo_any_codec :: "'a \<Rightarrow> 'a codec" where
  "demo_any_codec x =
     \<lparr>serialize = (\<lambda>_. Inr [0]), serialize_into = (\<lambda>_ b. Inr b), deserialize = (\<lambda>_. Some x), serialized_size = (\<lambda>_. Inr 1)\<rparr>"

definition demo_tree_env :: bank_env where
  "demo_tree_env = demo_bank_env
     \<lparr>be_slot_hashes_codec := table_codec [[], [(0, Hash [1])]], be_balance_codec := demo_any_codec \<lparr>bal_difs = 0, bal_owner = default_pubkey, bal_executable = False, bal_reputations = 0\<rparr>,
      be_delta_codec := demo_any_codec None, be_sha := (\<lambda>_. Hash [1])\<rparr>"

lemma demo_tree_hash: "\<exists>h. accounts_hash_internal_state (be_db demo_tree_env) (\<lambda>_. Hash [1]) (be_balance_codec demo_tree_env) db f =
    (Some (Ok h) :: (unit, hash option) res option)"
proof -
  have "layout_ok (env_layout (be_db demo_tree_env))" by (simp add: demo_tree_env_def demo_bank_env_def demo_db_env_def packed_layout_ok)
  from scan_total [OF this] obtain stores where st: "all_some (scan_account_storage (be_db demo_tree_env) db f) = Some stores" by blast
  have "\<exists>ys. res_map (\<lambda>r. res_bind (hash_account (\<lambda>_. Hash [1]) (be_balance_codec demo_tree_env) r) (\<lambda>h.
      Ok (storage_meta.meta_pubkey (sa_meta r), write_version (sa_meta r), h))) rs = Ok ys" for rs
    by (induction rs) (auto simp: hash_account_def demo_tree_env_def demo_any_codec_def)
  then show ?thesis by (fastforce simp: accounts_hash_internal_state_def st hash_records_def Let_def)
qed

lemma demo_slot_hashes:
  "slot_hashes_create_account (be_slot_hashes_codec demo_tree_env) 1 = Ok (account_new 1 0 1 syscall_id)"
  "slot_hashes_from (be_slot_hashes_codec demo_tree_env) (account_new 1 0 1 syscall_id) = Some []"
  "slot_hashes_to (be_slot_hashes_codec demo_tree_env) (slot_hashes_add 0 (Hash [1]) []) (account_new 1 0 1 syscall_id) =
     Some ((account_new 1 0 1 syscall_id)\<lparr>data := [1]\<rparr>)"
  by (simp_all add: slot_hashes_create_account_def slot_hashes_size_of_def size_of_value_def slot_hashes_from_def slot_hashes_to_def
      account_state_def account_set_state_def slot_hashes_add_def MAX_SLOT_HASHES_def demo_tree_env_def table_codec_def account_new_def)

lemma demo_tree_freeze:
  assumes inv: "bank_inv demo_tree_env P b s" and b: "bank_slot b = 0" "bank_ld demo_tree_env b s slot_hashes_id = None"
    and a: "bank_ld demo_tree_env b s k = Some a" "data a \<noteq> []"
  shows "\<exists>b' s'. freeze demo_tree_env (b, s) = Some (Ok (b', s'))"
proof (cases "bank_is_frozen b")
  case True
  then show ?thesis by (simp add: freeze_def set_hash_def bank_is_frozen_def run_ok_def)
next
  case False
  have has: "db_has_accounts (sh_db s) (bank_slot b)" using genesis_has_accounts [OF inv b(1) a(1)] b(1) by simp
  have sha: "be_sha demo_tree_env = (\<lambda>_. Hash [1])" by (simp add: demo_tree_env_def)
  have delta: "serialize (be_delta_codec demo_tree_env) x = Inr [0]" for x by (simp add: demo_tree_env_def demo_any_codec_def)
  obtain h where "accounts_hash_internal_state (be_db demo_tree_env) (be_sha demo_tree_env) (be_balance_codec demo_tree_env) (sh_db s) (bank_slot b) =
      (Some (Ok h) :: (unit, hash option) res option)" using demo_tree_hash sha by metis
  then have h: "bank_hash_internal_state demo_tree_env b s = Some (Ok (Hash [1]))"
    using has delta by (simp add: bank_hash_internal_state_def extend_and_hash_def sha run_ok_def)
  let ?b = "b\<lparr>bank_hash := Hash [1]\<rparr>" and ?a = "(account_new 1 0 1 syscall_id)\<lparr>data := [1]\<rparr>"
  have inv1: "bank_inv demo_tree_env P ?b s" using inv bank_inv_cong [of ?b b s s] by simp
  have "storable (be_db demo_tree_env) (sh_db s) (k, a\<lparr>difs := 1\<rparr>)" using inv a(1) by (simp add: bank_inv_def)
  then have "storable (be_db demo_tree_env) (sh_db s) (slot_hashes_id, ?a)"
    using a(2) by (cases "data a") (auto simp: storable_def account_new_def valid_key_def slot_hashes_id_def syscall_id_def)
  from bank_store_load [OF inv1 this] obtain b' s' where "bank_store demo_tree_env slot_hashes_id ?a (?b, s) = Some (Ok (b', s'))" by blast
  moreover have "bank_get_account demo_tree_env ?b s slot_hashes_id = None" using b(2) by (simp add: bank_get_account_alt)
  ultimately have "update_slot_hashes demo_tree_env (?b, s) = Some (Ok (b', s'))"
    using b(1) by (simp add: update_slot_hashes_def demo_slot_hashes demo_slot_hashes [unfolded One_nat_def] run_ok_def)
  then show ?thesis using h False by (simp add: freeze_def set_hash_def bank_is_frozen_def run_ok_def)
qed

lemma demo_tree_genesis:
  "\<exists>b s H'. bank_new demo_tree_env 0 default_hash demo_genesis 0 (\<lambda>_. {}) = Some (Ok (b, s, H')) \<and> bank_inv demo_tree_env {} b s \<and>
     bank_slot b = 0 \<and> bank_parent b = None \<and> bank_ld demo_tree_env b s slot_hashes_id = None \<and>
     (\<exists>k a. bank_ld demo_tree_env b s k = Some a \<and> data a \<noteq> [])"
proof -
  have db: "be_db demo_tree_env = be_db demo_bank_env" by (simp add: demo_tree_env_def)
  have env: "db_env_ok (be_db demo_tree_env)" by (simp add: demo_tree_env_def demo_bank_env_def demo_db_env_ok)
  have "\<exists>sched. (epoch_schedule_new (gb_slots_per_epoch demo_genesis) (gb_stakers_slot_offset demo_genesis) (gb_epoch_warmup demo_genesis)
      :: (unit, epoch_schedule) res) = Ok sched"
    by (simp add: demo_genesis_def genesis_block_new_def epoch_schedule_new_def MINIMUM_SLOT_LENGTH_def MAX_LOCKOUT_HISTORY_def
        Let_def split_def)
  with bank_new_spec [OF env _ demo_genesis_storable [folded db], of _ 0 default_hash 0 "\<lambda>_. {}"] obtain b s H' where
    b: "bank_new demo_tree_env 0 default_hash demo_genesis 0 (\<lambda>_. {}) = Some (Ok (b, s, H'))" "bank_inv demo_tree_env {} b s"
    "bank_slot b = 0" "bank_parent b = None" and
    ld: "bank_ld demo_tree_env b s = map_of (rev (map (\<lambda>(k, a). (k, as_stored a)) (gb_accounts demo_genesis @ native_programs demo_genesis)))"
    by blast
  have ne: "k \<noteq> k'" if "hd (pubkey_bytes k) \<noteq> hd (pubkey_bytes k')" for k k' using that by auto
  have "slot_hashes_id \<noteq> bpf_loader_id" "slot_hashes_id \<noteq> vote_program_id" "slot_hashes_id \<noteq> demo_key 0" "slot_hashes_id \<noteq> demo_key 1"
    by (rule ne, simp add: bpf_loader_id_def vote_program_id_def demo_key_def slot_hashes_id_def hd_replicate)+
  then have "bank_ld demo_tree_env b s slot_hashes_id = None"
    unfolding ld by (simp add: demo_genesis_def genesis_block_new_def native_programs_def system_program_id_demo)
  moreover have "\<exists>a. bank_ld demo_tree_env b s vote_program_id = Some a \<and> data a \<noteq> []"
    unfolding ld by (auto simp: demo_genesis_def genesis_block_new_def native_programs_def create_loadable_account_def as_stored_def str_bytes_def)
  ultimately show ?thesis using b by blast
qed

theorem bank_tree_invariant_witness:
  "\<exists>w w' q c. world_reach demo_tree_env w \<and> new_from_parent demo_tree_env 0 (demo_key 3) 1 w = Some (Ok (1, w')) \<and>
     w_banks w' 0 = Some q \<and> w_banks w' 1 = Some c \<and> bank_is_frozen q \<and> bank_parent_hash c = bank_hash q \<and>
     bank_anc c (bank_slot c) \<noteq> None \<and> bank_parents (w_banks w') c = Some [0]"
proof -
  obtain b s H' k a where g: "bank_new demo_tree_env 0 default_hash demo_genesis 0 (\<lambda>_. {}) = Some (Ok (b, s, H'))"
    "bank_inv demo_tree_env {} b s" "bank_slot b = 0" "bank_parent b = None" "bank_ld demo_tree_env b s slot_hashes_id = None"
    "bank_ld demo_tree_env b s k = Some a" "data a \<noteq> []" using demo_tree_genesis by blast
  define w where "w = \<lparr>w_shared = s, w_heap = H', w_banks = [0 \<mapsto> b], w_next = 1\<rparr>"
  have r: "world_reach demo_tree_env w" unfolding w_def by (rule world_reach.genesis [OF g(1)])
  have has: "db_has_accounts (sh_db (w_shared w)) (bank_slot b)" using genesis_has_accounts [OF g(2,3,6)] g(3) by (simp add: w_def)
  obtain b' s' where f: "freeze demo_tree_env (b, s) = Some (Ok (b', s'))" using demo_tree_freeze [OF g(2,3,5,6,7)] by blast
  have b': "bank_parent b' = None" "bank_slot b' = 0" using freeze_later(1,2) [OF f] g(3,4) by (simp_all add: later_bank_def)
  have "\<exists>w'. new_from_parent demo_tree_env 0 (demo_key 3) 1 w = Some (Ok (1, w')) \<and> w_banks w' 0 \<noteq> None \<and>
      (\<exists>c. w_banks w' 1 = Some c \<and> bank_parents (w_banks w') c = Some [0])"
    using b' f by (simp add: new_from_parent_def world_freeze_def w_def bank_parents_def run_ok_def split_def Let_def)
  then obtain w' q c where n: "new_from_parent demo_tree_env 0 (demo_key 3) 1 w = Some (Ok (1, w'))" "w_banks w' 0 = Some q"
    "w_banks w' 1 = Some c" "bank_parents (w_banks w') c = Some [0]" by auto
  have r': "world_reach demo_tree_env w'" by (rule world_reach.step [OF r world_step.child [OF n(1)]])
  have sha: "\<forall>x. be_sha demo_tree_env x \<noteq> default_hash" by (simp add: demo_tree_env_def default_hash_def numeral_eq_Suc)
  have "w_banks w 0 = Some b" by (simp add: w_def)
  with bank_tree_invariant [OF r, THEN conjunct2, rule_format, of 0 b "demo_key 3" 1 1 w' w' q c] sha has n
  have "bank_is_frozen q \<and> bank_parent_hash c = bank_hash q" by simp
  moreover have "bank_anc c (bank_slot c) \<noteq> None" using bank_tree_invariant [OF r', THEN conjunct1] n(3) by blast
  ultimately show ?thesis using r n by blast
qed

end
