(* ===== verification/Short_Vec.thy ===== *)
theory Short_Vec
  imports Message_Model
begin

unbundle bit_operations_syntax

text \<open>
  The compact vector format of \<^verbatim>\<open>interface/src/short_vec.rs\<close> and the wire format of transactions
  that is built from it. The serializer underneath (bincode) writes the bytes of fixed-size fields one
  after the other and hands out the elements of a tuple up to its declared length; a failure of the
  serializer or the deserializer is \<open>None\<close>.
\<close>

section \<open>Lengths\<close>

function short_u16_serialize :: "u16 \<Rightarrow> bytes" where
  "short_u16_serialize rem_len =
     (let elem = (ucast (rem_len AND 127) :: u8); rest = drop_bit 7 rem_len
      in if rest = 0 then [elem] else (elem OR 128) # short_u16_serialize rest)"
  by pat_completeness auto

lemma unat_drop_bit_7: "unat (drop_bit 7 (x :: u16)) = unat x div 128"
  by (simp add: drop_bit_eq_div unat_div)

lemma drop_bit_7_eq_0 [simp]: "drop_bit 7 (x :: u16) = 0 \<longleftrightarrow> unat x < 128"
  by (metis div_eq_0_iff unat_drop_bit_7 unat_eq_zero zero_neq_numeral)

termination short_u16_serialize
  by (relation "measure unat") (auto simp: unat_drop_bit_7 not_less intro!: div_less_dividend)

declare short_u16_serialize.simps [simp del]

text \<open>The visitor over a tuple of at most \<open>n\<close> further bytes; \<open>sz\<close> of them have been read.\<close>

fun short_len_visit :: "nat \<Rightarrow> nat \<Rightarrow> u64 \<Rightarrow> bytes \<Rightarrow> (u16 \<times> bytes) option" where
  "short_len_visit 0 sz len bs = None"
| "short_len_visit (Suc n) sz len [] = None"
| "short_len_visit (Suc n) sz len (elem # bs) =
     (let len' = len OR push_bit (sz * 7) (ucast elem AND 127); sz' = sz + 1
      in if (ucast elem :: u64) AND 128 = 0 then Some (ucast len', bs)
         else if sz' > 2 + 1 then None
         else short_len_visit n sz' len' bs)"

definition short_u16_deserialize :: "bytes \<Rightarrow> (u16 \<times> bytes) option" where
  "short_u16_deserialize bs = short_len_visit 3 0 0 bs"

definition decode_len :: "bytes \<Rightarrow> ('e, nat \<times> nat) res" where
  "decode_len bs =
     (case short_u16_deserialize bs of
        None \<Rightarrow> Panic
      | Some (short_len, _) \<Rightarrow> Ok (unat short_len, length (short_u16_serialize short_len)))"

lemma unat_drop_bit_14: "unat (drop_bit 14 (x :: u16)) = unat x div 16384"
  by (simp add: drop_bit_eq_div unat_div)

lemma drop_bit_14_eq_0 [simp]: "drop_bit 14 (x :: u16) = 0 \<longleftrightarrow> unat x < 16384"
  by (metis div_eq_0_iff unat_drop_bit_14 unat_eq_zero zero_neq_numeral)

lemma short_u16_serialize_cases:
  "short_u16_serialize v =
     (if unat v < 128 then [ucast (v AND 127)]
      else if unat v < 16384 then [ucast (v AND 127) OR 128, ucast (drop_bit 7 v AND 127)]
      else [ucast (v AND 127) OR 128, ucast (drop_bit 7 v AND 127) OR 128, ucast (drop_bit 14 v AND 127)])"
proof -
  have "unat v < 2 ^ LENGTH(16)" by (rule unsigned_less)
  then have "unat v div 16384 < 128" by simp
  then have u: "unat (drop_bit 14 v) < 128" by (simp add: unat_drop_bit_14)
  have d: "drop_bit 7 (drop_bit 7 v) = drop_bit 14 v" by (simp add: drop_bit_drop_bit)
  show ?thesis
    using u by (simp add: short_u16_serialize.simps [of v] short_u16_serialize.simps [of "drop_bit 7 v"]
        short_u16_serialize.simps [of "drop_bit 14 v"] d unat_drop_bit_7 Let_def div_less_iff_less_mult)
qed

lemma bit_127: "bit (127 :: int) n \<longleftrightarrow> n < 7"
proof -
  have "(127 :: int) = mask 7" by (simp add: mask_eq_exp_minus_1)
  then show ?thesis by (simp only: bit_mask_iff) auto
qed

lemma bit_128: "bit (128 :: int) n \<longleftrightarrow> n = 7"
proof -
  have "(128 :: int) = 2 ^ 7" by simp
  then show ?thesis by (simp only: bit_exp_iff) auto
qed

lemmas byte_bits = bit_127 bit_128 bit_simps

lemma last_byte: "(ucast (ucast ((x :: u16) AND 127) :: u8) :: u64) AND 128 = 0"
  by (rule bit_word_eqI) (auto simp: byte_bits)

lemma more_byte: "(ucast (ucast ((x :: u16) AND 127) OR 128 :: u8) :: u64) AND 128 \<noteq> 0"
proof -
  have "bit ((ucast (ucast (x AND 127) OR 128 :: u8) :: u64) AND 128) 7" by (simp add: byte_bits)
  then show ?thesis by auto
qed

lemma data_bits:
  "(ucast (ucast ((x :: u16) AND 127) :: u8) :: u64) AND 127 = ucast (take_bit 7 x)"
  "(ucast (ucast (x AND 127) OR 128 :: u8) :: u64) AND 127 = ucast (take_bit 7 x)"
  subgoal by (rule bit_word_eqI) (auto simp: byte_bits)
  subgoal by (rule bit_word_eqI) (auto simp: byte_bits)
  done

lemma short_u16_bits:
  "ucast (ucast (take_bit 7 v) OR push_bit 7 (ucast (take_bit 7 (drop_bit 7 v))) OR push_bit 14 (ucast (take_bit 7 (drop_bit 14 v))) :: u64)
     = (v :: u16)"
proof (rule bit_word_eqI)
  fix n assume "n < LENGTH(16)"
  then consider "n < 7" | "7 \<le> n" "n < 14" | "14 \<le> n" "n < 16" by fastforce
  then show "bit (ucast (ucast (take_bit 7 v) OR push_bit 7 (ucast (take_bit 7 (drop_bit 7 v)))
      OR push_bit 14 (ucast (take_bit 7 (drop_bit 14 v))) :: u64) :: u16) n = bit v n"
    by cases (auto simp: bit_simps)
qed

lemma short_u16_roundtrip: "short_u16_deserialize (short_u16_serialize v @ rest) = Some (v, rest)"
proof -
  consider "unat v < 128" | "128 \<le> unat v" "unat v < 16384" | "16384 \<le> unat v" by linarith
  then show ?thesis
  proof cases
    case 1
    then have z: "drop_bit 7 v = 0" "drop_bit 14 v = 0" by simp_all
    show ?thesis
      using short_u16_bits [of v, unfolded z] 1
      by (simp add: short_u16_deserialize_def short_u16_serialize_cases numeral_3_eq_3 Let_def last_byte more_byte data_bits)
  next
    case 2
    then have z: "drop_bit 14 v = 0" by simp
    show ?thesis
      using short_u16_bits [of v, unfolded z] 2
      by (simp add: short_u16_deserialize_def short_u16_serialize_cases numeral_3_eq_3 Let_def last_byte more_byte data_bits)
  next
    case 3
    then show ?thesis
      using short_u16_bits [of v]
      by (simp add: short_u16_deserialize_def short_u16_serialize_cases numeral_3_eq_3 Let_def last_byte more_byte data_bits or.assoc)
  qed
qed

lemma those_Some: "those (map (\<lambda>x. Some (f x)) xs) = Some (map f xs)"
  by (induction xs) simp_all

lemma short_u16_single:
  assumes "n < 128"
  shows "short_u16_serialize (of_nat n) = [of_nat n]"
proof -
  have u: "unat (of_nat n :: u16) = n" using assms by (simp add: unat_of_nat take_bit_eq_mod)
  have "(127 :: u16) = mask 7" by (simp add: mask_eq_exp_minus_1)
  then have "(of_nat n :: u16) AND 127 = take_bit 7 (of_nat n)" by (simp add: take_bit_eq_mask)
  then have "unat ((of_nat n :: u16) AND 127) = n" using assms u by (simp add: unsigned_take_bit_eq take_bit_eq_mod unat_mod)
  then have "unat (ucast ((of_nat n :: u16) AND 127) :: u8) = n" using assms by (simp add: unsigned_ucast_eq take_bit_eq_mod)
  then have "(ucast ((of_nat n :: u16) AND 127) :: u8) = of_nat n" using assms by (simp add: unat_eq_unat_iff [symmetric] unat_of_nat take_bit_eq_mod)
  then show ?thesis using assms u by (simp add: short_u16_serialize_cases)
qed

section \<open>Vectors\<close>

definition short_vec_serialize :: "('a \<Rightarrow> bytes option) \<Rightarrow> 'a list \<Rightarrow> bytes option" where
  "short_vec_serialize enc elements =
     (if length elements > 65535 then None
      else map_option (\<lambda>bss. short_u16_serialize (of_nat (length elements)) @ concat bss) (those (map enc elements)))"

fun short_vec_visit :: "(bytes \<Rightarrow> ('a \<times> bytes) option) \<Rightarrow> nat \<Rightarrow> bytes \<Rightarrow> ('a list \<times> bytes) option" where
  "short_vec_visit dec 0 bs = Some ([], bs)"
| "short_vec_visit dec (Suc n) bs =
     (case dec bs of
        None \<Rightarrow> None
      | Some (elem, bs') \<Rightarrow> map_option (\<lambda>(elems, bs''). (elem # elems, bs'')) (short_vec_visit dec n bs'))"

definition short_vec_deserialize :: "(bytes \<Rightarrow> ('a \<times> bytes) option) \<Rightarrow> bytes \<Rightarrow> ('a list \<times> bytes) option" where
  "short_vec_deserialize dec bs =
     (case short_u16_deserialize bs of None \<Rightarrow> None | Some (short_len, bs') \<Rightarrow> short_vec_visit dec (unat short_len) bs')"

text \<open>
  A wire format: every value that satisfies \<open>ok\<close> is written, and is read back from the bytes that were
  written, whatever follows them.
\<close>

locale wire =
  fixes enc :: "'a \<Rightarrow> bytes option"
    and dec :: "bytes \<Rightarrow> ('a \<times> bytes) option"
    and ok :: "'a \<Rightarrow> bool"
  assumes dec_enc: "ok x \<Longrightarrow> \<exists>bs. enc x = Some bs \<and> (\<forall>rest. dec (bs @ rest) = Some (x, rest))"
begin

lemma visit_enc:
  "list_all ok xs \<Longrightarrow>
     \<exists>bss. those (map enc xs) = Some bss \<and> (\<forall>rest. short_vec_visit dec (length xs) (concat bss @ rest) = Some (xs, rest))"
proof (induction xs)
  case (Cons x xs)
  then obtain bss where bss: "those (map enc xs) = Some bss"
    "\<forall>rest. short_vec_visit dec (length xs) (concat bss @ rest) = Some (xs, rest)" by auto
  obtain bs where "enc x = Some bs" "\<forall>rest. dec (bs @ rest) = Some (x, rest)" using Cons.prems dec_enc by auto
  with bss show ?case by (intro exI [of _ "bs # bss"]) simp
qed simp

lemma short_vec_wire:
  "wire (short_vec_serialize enc) (short_vec_deserialize dec) (\<lambda>xs. length xs \<le> 65535 \<and> list_all ok xs)"
proof
  fix xs assume xs: "length xs \<le> 65535 \<and> list_all ok xs"
  then obtain bss where bss: "those (map enc xs) = Some bss"
    "\<forall>rest. short_vec_visit dec (length xs) (concat bss @ rest) = Some (xs, rest)" using visit_enc by blast
  have "unat (of_nat (length xs) :: u16) = length xs" using xs by (simp add: unat_of_nat take_bit_eq_mod)
  then show "\<exists>bs. short_vec_serialize enc xs = Some bs \<and> (\<forall>rest. short_vec_deserialize dec (bs @ rest) = Some (xs, rest))"
    using xs bss by (simp add: short_vec_serialize_def short_vec_deserialize_def short_u16_roundtrip)
qed

end

section \<open>Transactions\<close>

definition u8_serialize :: "u8 \<Rightarrow> bytes option" where
  "u8_serialize b = Some [b]"

fun u8_deserialize :: "bytes \<Rightarrow> (u8 \<times> bytes) option" where
  "u8_deserialize [] = None"
| "u8_deserialize (b # bs) = Some (b, bs)"

text \<open>Arrays of a fixed number of bytes: keys, hashes and signatures.\<close>

definition array_deserialize :: "nat \<Rightarrow> (bytes \<Rightarrow> 'a) \<Rightarrow> bytes \<Rightarrow> ('a \<times> bytes) option" where
  "array_deserialize n mk bs = (if n \<le> length bs then Some (mk (take n bs), drop n bs) else None)"

definition append_opt :: "bytes option \<Rightarrow> bytes option \<Rightarrow> bytes option" where
  "append_opt a b = (case a of None \<Rightarrow> None | Some x \<Rightarrow> map_option ((@) x) b)"

definition compiled_instruction_serialize :: "compiled_instruction \<Rightarrow> bytes option" where
  "compiled_instruction_serialize ci =
     append_opt (u8_serialize (program_ids_index ci))
       (append_opt (short_vec_serialize u8_serialize (ci_accounts ci)) (short_vec_serialize u8_serialize (ci_data ci)))"

definition compiled_instruction_deserialize :: "bytes \<Rightarrow> (compiled_instruction \<times> bytes) option" where
  "compiled_instruction_deserialize bs =
     Option.bind (u8_deserialize bs) (\<lambda>(p, bs).
     Option.bind (short_vec_deserialize u8_deserialize bs) (\<lambda>(as, bs).
     Option.bind (short_vec_deserialize u8_deserialize bs) (\<lambda>(d, bs).
       Some (\<lparr>program_ids_index = p, ci_accounts = as, ci_data = d\<rparr>, bs))))"

definition message_header_serialize :: "message_header \<Rightarrow> bytes option" where
  "message_header_serialize h =
     Some [num_required_signatures h, num_credit_only_signed_accounts h, num_credit_only_unsigned_accounts h]"

definition message_header_deserialize :: "bytes \<Rightarrow> (message_header \<times> bytes) option" where
  "message_header_deserialize bs =
     Option.bind (u8_deserialize bs) (\<lambda>(r, bs).
     Option.bind (u8_deserialize bs) (\<lambda>(s, bs).
     Option.bind (u8_deserialize bs) (\<lambda>(u, bs).
       Some (\<lparr>num_required_signatures = r, num_credit_only_signed_accounts = s, num_credit_only_unsigned_accounts = u\<rparr>, bs))))"

definition message_serialize :: "message \<Rightarrow> bytes option" where
  "message_serialize m =
     append_opt (message_header_serialize (header m))
       (append_opt (short_vec_serialize (\<lambda>k. Some (pubkey_bytes k)) (account_keys m))
         (append_opt (Some (hash_bytes (recent_blockhash m)))
           (short_vec_serialize compiled_instruction_serialize (instructions m))))"

definition message_deserialize :: "bytes \<Rightarrow> (message \<times> bytes) option" where
  "message_deserialize bs =
     Option.bind (message_header_deserialize bs) (\<lambda>(h, bs).
     Option.bind (short_vec_deserialize (array_deserialize 32 Pubkey) bs) (\<lambda>(ks, bs).
     Option.bind (array_deserialize 32 Hash bs) (\<lambda>(bh, bs).
     Option.bind (short_vec_deserialize compiled_instruction_deserialize bs) (\<lambda>(ixs, bs).
       Some (\<lparr>header = h, account_keys = ks, recent_blockhash = bh, instructions = ixs\<rparr>, bs)))))"

definition transaction_serialize :: "transaction \<Rightarrow> bytes option" where
  "transaction_serialize tx =
     append_opt (short_vec_serialize (\<lambda>s. Some (signature_bytes s)) (signatures tx)) (message_serialize (tx_message tx))"

definition transaction_deserialize :: "bytes \<Rightarrow> (transaction \<times> bytes) option" where
  "transaction_deserialize bs =
     Option.bind (short_vec_deserialize (array_deserialize 64 Signature) bs) (\<lambda>(sigs, bs).
     Option.bind (message_deserialize bs) (\<lambda>(m, bs).
       Some (\<lparr>signatures = sigs, tx_message = m\<rparr>, bs)))"

interpretation u8w: wire u8_serialize u8_deserialize "\<lambda>_. True"
  by unfold_locales (simp add: u8_serialize_def)

interpretation keyw: wire "\<lambda>k. Some (pubkey_bytes k)" "array_deserialize 32 Pubkey" "\<lambda>k. length (pubkey_bytes k) = 32"
  by unfold_locales (simp add: array_deserialize_def)

interpretation hashw: wire "\<lambda>h. Some (hash_bytes h)" "array_deserialize 32 Hash" "\<lambda>h. length (hash_bytes h) = 32"
  by unfold_locales (simp add: array_deserialize_def)

interpretation sigw: wire "\<lambda>s. Some (signature_bytes s)" "array_deserialize 64 Signature" "\<lambda>s. length (signature_bytes s) = 64"
  by unfold_locales (simp add: array_deserialize_def)

interpretation u8sw: wire "short_vec_serialize u8_serialize" "short_vec_deserialize u8_deserialize"
    "\<lambda>xs. length xs \<le> 65535 \<and> list_all (\<lambda>_. True) xs"
  by (rule u8w.short_vec_wire)

definition ci_ok :: "compiled_instruction \<Rightarrow> bool" where
  "ci_ok ci \<longleftrightarrow> length (ci_accounts ci) \<le> 65535 \<and> length (ci_data ci) \<le> 65535"

lemma list_all_True [simp]: "list_all (\<lambda>_. True) xs"
  by (simp add: list_all_iff)

interpretation ciw: wire compiled_instruction_serialize compiled_instruction_deserialize ci_ok
proof
  fix ci assume "ci_ok ci"
  then obtain as d where "short_vec_serialize u8_serialize (ci_accounts ci) = Some as"
    "\<forall>rest. short_vec_deserialize u8_deserialize (as @ rest) = Some (ci_accounts ci, rest)"
    "short_vec_serialize u8_serialize (ci_data ci) = Some d"
    "\<forall>rest. short_vec_deserialize u8_deserialize (d @ rest) = Some (ci_data ci, rest)"
    using u8sw.dec_enc [of "ci_accounts ci"] u8sw.dec_enc [of "ci_data ci"] by (auto simp: ci_ok_def)
  then show "\<exists>bs. compiled_instruction_serialize ci = Some bs \<and> (\<forall>rest. compiled_instruction_deserialize (bs @ rest) = Some (ci, rest))"
    by (simp add: compiled_instruction_serialize_def compiled_instruction_deserialize_def append_opt_def u8_serialize_def)
qed

interpretation headerw: wire message_header_serialize message_header_deserialize "\<lambda>_. True"
  by unfold_locales (simp add: message_header_serialize_def message_header_deserialize_def)

interpretation keysw: wire "short_vec_serialize (\<lambda>k. Some (pubkey_bytes k))" "short_vec_deserialize (array_deserialize 32 Pubkey)"
    "\<lambda>ks. length ks \<le> 65535 \<and> list_all (\<lambda>k. length (pubkey_bytes k) = 32) ks"
  by (rule keyw.short_vec_wire)

interpretation cisw: wire "short_vec_serialize compiled_instruction_serialize" "short_vec_deserialize compiled_instruction_deserialize"
    "\<lambda>cis. length cis \<le> 65535 \<and> list_all ci_ok cis"
  by (rule ciw.short_vec_wire)

interpretation sigsw: wire "short_vec_serialize (\<lambda>s. Some (signature_bytes s))" "short_vec_deserialize (array_deserialize 64 Signature)"
    "\<lambda>ss. length ss \<le> 65535 \<and> list_all (\<lambda>s. length (signature_bytes s) = 64) ss"
  by (rule sigw.short_vec_wire)

definition message_ok :: "message \<Rightarrow> bool" where
  "message_ok m \<longleftrightarrow>
     length (account_keys m) \<le> 65535 \<and> list_all (\<lambda>k. length (pubkey_bytes k) = 32) (account_keys m) \<and>
     length (hash_bytes (recent_blockhash m)) = 32 \<and> length (instructions m) \<le> 65535 \<and> list_all ci_ok (instructions m)"

interpretation messagew: wire message_serialize message_deserialize message_ok
proof
  fix m assume ok: "message_ok m"
  obtain h where "message_header_serialize (header m) = Some h" "\<forall>rest. message_header_deserialize (h @ rest) = Some (header m, rest)"
    using headerw.dec_enc [of "header m"] by auto
  moreover obtain ks where "short_vec_serialize (\<lambda>k. Some (pubkey_bytes k)) (account_keys m) = Some ks"
    "\<forall>rest. short_vec_deserialize (array_deserialize 32 Pubkey) (ks @ rest) = Some (account_keys m, rest)"
    using ok keysw.dec_enc [of "account_keys m"] by (auto simp: message_ok_def)
  moreover have "\<forall>rest. array_deserialize 32 Hash (hash_bytes (recent_blockhash m) @ rest) = Some (recent_blockhash m, rest)"
    using ok hashw.dec_enc [of "recent_blockhash m"] by (simp add: message_ok_def)
  moreover obtain cs where "short_vec_serialize compiled_instruction_serialize (instructions m) = Some cs"
    "\<forall>rest. short_vec_deserialize compiled_instruction_deserialize (cs @ rest) = Some (instructions m, rest)"
    using ok cisw.dec_enc [of "instructions m"] by (auto simp: message_ok_def)
  ultimately show "\<exists>bs. message_serialize m = Some bs \<and> (\<forall>rest. message_deserialize (bs @ rest) = Some (m, rest))"
    by (simp add: message_serialize_def message_deserialize_def append_opt_def)
qed

text \<open>The transactions that can be sent: every vector has at most 65535 elements, keys and hashes have 32 bytes, signatures 64.\<close>

definition tx_ok :: "transaction \<Rightarrow> bool" where
  "tx_ok tx \<longleftrightarrow>
     length (signatures tx) \<le> 65535 \<and> list_all (\<lambda>s. length (signature_bytes s) = 64) (signatures tx) \<and> message_ok (tx_message tx)"

interpretation txw: wire transaction_serialize transaction_deserialize tx_ok
proof
  fix tx assume ok: "tx_ok tx"
  obtain ss where "short_vec_serialize (\<lambda>s. Some (signature_bytes s)) (signatures tx) = Some ss"
    "\<forall>rest. short_vec_deserialize (array_deserialize 64 Signature) (ss @ rest) = Some (signatures tx, rest)"
    using ok sigsw.dec_enc [of "signatures tx"] by (auto simp: tx_ok_def)
  moreover obtain m where "message_serialize (tx_message tx) = Some m" "\<forall>rest. message_deserialize (m @ rest) = Some (tx_message tx, rest)"
    using ok messagew.dec_enc [of "tx_message tx"] by (auto simp: tx_ok_def)
  ultimately show "\<exists>bs. transaction_serialize tx = Some bs \<and> (\<forall>rest. transaction_deserialize (bs @ rest) = Some (tx, rest))"
    by (simp add: transaction_serialize_def transaction_deserialize_def append_opt_def)
qed

section \<open>Properties\<close>

text \<open>
  C40: lengths take one to three bytes. A length below 128 is written in one byte, one below 16384 in two
  and any other in three; whatever bytes follow, reading it back gives the length and leaves exactly those bytes, and
  \<open>decode_len\<close> returns the length and the number of bytes it takes.
\<close>

theorem short_len_bounds:
  "length (short_u16_serialize v) = (if unat v < 128 then 1 else if unat v < 16384 then 2 else 3) \<and>
   short_u16_deserialize (short_u16_serialize v @ rest) = Some (v, rest) \<and>
   decode_len (short_u16_serialize v @ rest) = Ok (unat v, length (short_u16_serialize v))"
  by (simp add: decode_len_def short_u16_roundtrip) (simp add: short_u16_serialize_cases)

text \<open>
  Lengths that are not written by the serializer are accepted too, and for them \<open>decode_len\<close> does not
  return the number of bytes that were read.
\<close>

lemma decode_len_padded: "short_u16_deserialize [128, 0, 7] = Some (0, [7]) \<and> decode_len [128, 0, 7] = Ok (0, 1)"
proof -
  have "short_u16_deserialize [128, 0, 7] = Some (0, [7])"
    by (simp add: short_u16_deserialize_def numeral_3_eq_3 Let_def)
  then show ?thesis by (simp add: decode_len_def short_u16_serialize_cases)
qed

text \<open>
  C39: a transaction on the wire is read back. Every transaction whose vectors have at most 65535
  elements is serialized, and the deserializer returns it from those bytes and leaves what follows them.
\<close>

theorem transaction_roundtrip:
  assumes "tx_ok tx"
  shows "\<exists>bs. transaction_serialize tx = Some bs \<and> (\<forall>rest. transaction_deserialize (bs @ rest) = Some (tx, rest))"
  using txw.dec_enc [OF assms] .

definition wire_tx :: transaction where
  "wire_tx = \<lparr>signatures = [Signature (replicate 64 9)],
     tx_message = message_new_with_compiled_instructions 1 0 1 [demo_key 1, demo_key 2] default_hash
       [\<lparr>program_ids_index = 1, ci_accounts = [0], ci_data = [5, 6]\<rparr>]\<rparr>"

lemma wire_tx_ok: "tx_ok wire_tx"
  by (simp add: wire_tx_def tx_ok_def message_ok_def message_new_with_compiled_instructions_def demo_key_def default_hash_def ci_ok_def)

lemma wire_tx_bytes:
  "\<exists>bs. transaction_serialize wire_tx = Some bs \<and> length bs < 512"
proof -
  have "short_u16_serialize 1 = [1]" "short_u16_serialize 2 = [2]"
    using short_u16_single [of 1] short_u16_single [of 2] by simp_all
  then show ?thesis
    by (simp add: wire_tx_def message_new_with_compiled_instructions_def transaction_serialize_def message_serialize_def
        message_header_serialize_def compiled_instruction_serialize_def short_vec_serialize_def append_opt_def u8_serialize_def
        demo_key_def default_hash_def)
qed

theorem transaction_roundtrip_witness:
  "\<exists>bs. transaction_serialize wire_tx = Some bs \<and> transaction_deserialize (bs @ [1, 2, 3]) = Some (wire_tx, [1, 2, 3])"
  using transaction_roundtrip [OF wire_tx_ok] by blast

end
