(* ===== verification/Packet_Verify.thy ===== *)
theory Packet_Verify
  imports Short_Vec
begin

text \<open>
  The signature check of incoming packets on the CPU, \<^verbatim>\<open>core/src/signatureVerify.rs\<close>: the offsets of
  signatures, message and keys inside a packet and the loop over the signatures. The ed25519 check
  itself is a parameter.
\<close>

definition PACKET_DATA_SIZE :: nat where
  "PACKET_DATA_SIZE = 1280 - 40 - 8"

record packet =
  packet_data :: bytes
  packet_meta_size :: nat

definition byte_slice :: "bytes \<Rightarrow> nat \<Rightarrow> nat \<Rightarrow> ('e, bytes) res" where
  "byte_slice d a b = (if a \<le> b \<and> b \<le> length d then Ok (take (b - a) (drop a d)) else Panic)"

definition get_packet_offsets :: "packet \<Rightarrow> u32 \<Rightarrow> ('e, u32 \<times> u32 \<times> u32 \<times> u32) res" where
  "get_packet_offsets p current_offset =
     res_bind (decode_len (packet_data p)) (\<lambda>(sig_len, sig_size).
       let msg_start_offset = sig_size + sig_len * 64
       in res_bind (byte_slice (packet_data p) msg_start_offset (length (packet_data p))) (\<lambda>d.
          res_bind (decode_len d) (\<lambda>(_, pubkey_size).
            let sig_start = unat current_offset + sig_size;
                msg_start = unat current_offset + msg_start_offset;
                pubkey_start = msg_start + 3 + pubkey_size
            in Ok (of_nat sig_len, of_nat sig_start, of_nat msg_start, of_nat pubkey_start))))"

type_synonym ed25519 = "signature \<Rightarrow> bytes \<Rightarrow> bytes \<Rightarrow> bool"

fun verify_loop :: "ed25519 \<Rightarrow> packet \<Rightarrow> nat \<Rightarrow> nat \<Rightarrow> nat \<Rightarrow> nat \<Rightarrow> ('e, u8) res" where
  "verify_loop verify p msg_start 0 sig_start pubkey_start = Ok 1"
| "verify_loop verify p msg_start (Suc n) sig_start pubkey_start =
     (let pubkey_end = pubkey_start + 32; sig_end = sig_start + 64
      in if pubkey_end \<ge> packet_meta_size p \<or> sig_end \<ge> packet_meta_size p then Ok 0
         else res_bind (byte_slice (packet_data p) sig_start sig_end) (\<lambda>s.
              res_bind (byte_slice (packet_data p) pubkey_start pubkey_end) (\<lambda>k.
              res_bind (byte_slice (packet_data p) msg_start (packet_meta_size p)) (\<lambda>m.
                if \<not> verify (Signature s) k m then Ok 0
                else verify_loop verify p msg_start n (sig_start + 64) (pubkey_start + 32)))))"

definition verify_packet :: "ed25519 \<Rightarrow> packet \<Rightarrow> ('e, u8) res" where
  "verify_packet verify p =
     res_bind (get_packet_offsets p 0) (\<lambda>(sig_len, sig_start, msg_start, pubkey_start).
       if packet_meta_size p \<le> unat msg_start then Ok 0
       else verify_loop verify p (unat msg_start) (unat sig_len) (unat sig_start) (unat pubkey_start))"

section \<open>Layout\<close>

lemma chunk_nth:
  assumes "\<forall>c \<in> set cs. length c = n" "i < length cs"
  shows "take n (drop (i * n) (concat cs @ rest)) = cs ! i"
  using assms
proof (induction cs arbitrary: i)
  case (Cons c cs)
  then show ?case by (cases i) simp_all
qed simp

lemma length_concat_chunks: "\<forall>c \<in> set cs. length c = n \<Longrightarrow> length (concat cs) = length cs * n"
  by (induction cs) simp_all


text \<open>The bytes of a transaction with fewer than 128 signatures and keys.\<close>

lemma message_layout:
  assumes "message_serialize m = Some mb" "length (account_keys m) < 128"
  shows "\<exists>rest. mb = [num_required_signatures (header m), num_credit_only_signed_accounts (header m),
      num_credit_only_unsigned_accounts (header m), of_nat (length (account_keys m))] @
      concat (map pubkey_bytes (account_keys m)) @ hash_bytes (recent_blockhash m) @ rest"
  using assms
  by (auto simp: message_serialize_def append_opt_def message_header_serialize_def short_vec_serialize_def those_Some
      short_u16_single split: option.splits if_splits)

lemma transaction_layout:
  assumes "transaction_serialize tx = Some bs" "length (signatures tx) < 128"
  shows "\<exists>mb. message_serialize (tx_message tx) = Some mb \<and>
    bs = of_nat (length (signatures tx)) # concat (map signature_bytes (signatures tx)) @ mb"
  using assms
  by (auto simp: transaction_serialize_def append_opt_def short_vec_serialize_def those_Some short_u16_single
      split: option.splits if_splits)

lemma decode_len_single:
  assumes "n < 128"
  shows "decode_len (of_nat n # bs) = Ok (n, 1)"
proof -
  have "unat (of_nat n :: u16) = n" using assms by (simp add: unat_of_nat take_bit_eq_mod)
  then show ?thesis
    using short_u16_roundtrip [of "of_nat n" bs] assms by (simp add: decode_len_def short_u16_single)
qed

lemma verify_loop_spec:
  assumes sigs: "\<forall>i < n. sig_start + 64 * i + 64 < packet_meta_size p \<and> take 64 (drop (sig_start + 64 * i) (packet_data p)) = ss i"
    and keys: "\<forall>i < n. pubkey_start + 32 * i + 32 < packet_meta_size p \<and> take 32 (drop (pubkey_start + 32 * i) (packet_data p)) = ks i"
    and sz: "packet_meta_size p \<le> length (packet_data p)" "msg_start \<le> packet_meta_size p"
  shows "(verify_loop verify p msg_start n sig_start pubkey_start :: ('e, u8) res) =
    Ok (if \<forall>i < n. verify (Signature (ss i)) (ks i) (take (packet_meta_size p - msg_start) (drop msg_start (packet_data p))) then 1 else 0)"
  using sigs keys
proof (induction n arbitrary: sig_start pubkey_start ss ks)
  case (Suc n)
  have "(verify_loop verify p msg_start n (sig_start + 64) (pubkey_start + 32) :: ('e, u8) res) =
    Ok (if \<forall>i < n. verify (Signature (ss (Suc i))) (ks (Suc i)) (take (packet_meta_size p - msg_start) (drop msg_start (packet_data p))) then 1 else 0)"
  proof (rule Suc.IH [where ss = "\<lambda>i. ss (Suc i)" and ks = "\<lambda>i. ks (Suc i)"])
    show "\<forall>i < n. sig_start + 64 + 64 * i + 64 < packet_meta_size p \<and> take 64 (drop (sig_start + 64 + 64 * i) (packet_data p)) = ss (Suc i)"
      using Suc.prems(1) by (metis Suc_less_eq add.assoc mult_Suc_right)
    show "\<forall>i < n. pubkey_start + 32 + 32 * i + 32 < packet_meta_size p \<and> take 32 (drop (pubkey_start + 32 + 32 * i) (packet_data p)) = ks (Suc i)"
      using Suc.prems(2) by (metis Suc_less_eq add.assoc mult_Suc_right)
  qed
  moreover have "sig_start + 64 < packet_meta_size p" "take 64 (drop sig_start (packet_data p)) = ss 0"
    "pubkey_start + 32 < packet_meta_size p" "take 32 (drop pubkey_start (packet_data p)) = ks 0"
    using Suc.prems(1) [rule_format, of 0] Suc.prems(2) [rule_format, of 0] by simp_all
  ultimately show ?case using sz by (simp add: byte_slice_def Let_def All_less_Suc2)
qed simp

lemma transaction_short:
  assumes "tx_ok tx" "transaction_serialize tx = Some bs" "length bs < 4096"
  shows "length (signatures tx) < 128" "length (account_keys (tx_message tx)) < 128"
proof -
  have s: "length (concat (map signature_bytes (signatures tx))) = length (signatures tx) * 64"
    using assms(1) by (intro length_concat_chunks [of "map signature_bytes (signatures tx)", simplified])
      (auto simp: tx_ok_def list_all_iff)
  have k: "length (concat (map pubkey_bytes (account_keys (tx_message tx)))) = length (account_keys (tx_message tx)) * 32"
    using assms(1) by (intro length_concat_chunks [of "map pubkey_bytes (account_keys (tx_message tx))", simplified])
      (auto simp: tx_ok_def message_ok_def list_all_iff)
  have "length (concat (map signature_bytes (signatures tx))) + length (concat (map pubkey_bytes (account_keys (tx_message tx)))) \<le> length bs"
    using assms(2)
    by (auto simp: transaction_serialize_def message_serialize_def append_opt_def short_vec_serialize_def those_Some
        message_header_serialize_def split: option.splits if_splits)
  then show "length (signatures tx) < 128" "length (account_keys (tx_message tx)) < 128" using assms(3) s k by simp_all
qed

lemma unat_of_nat_u32: "n < 2 ^ 32 \<Longrightarrow> unat (of_nat n :: u32) = n"
  by (simp add: unat_of_nat take_bit_eq_mod)

lemma packet_offsets:
  assumes "packet_data p = of_nat n # sigs @ r # rest" "n < 128" "unat r < 128" "length sigs = n * 64"
  shows "get_packet_offsets p 0 = Ok (of_nat n, 1, of_nat (1 + n * 64), of_nat (5 + n * 64))"
proof -
  have "decode_len (packet_data p) = (Ok (n, 1) :: ('a, nat \<times> nat) res)" using decode_len_single [OF assms(2)] by (simp add: assms(1))
  moreover have "byte_slice (packet_data p) (1 + n * 64) (length (packet_data p)) = (Ok (r # rest) :: ('a, bytes) res)"
    using assms(4) by (simp add: byte_slice_def assms(1))
  moreover have "decode_len (r # rest) = (Ok (unat r, 1) :: ('a, nat \<times> nat) res)" using decode_len_single [OF assms(3), of rest] by simp
  ultimately show ?thesis by (simp add: get_packet_offsets_def Let_def)
qed

text \<open>Where the parts of a serialized transaction start.\<close>

lemma transaction_parts:
  assumes "tx_ok tx" "transaction_serialize tx = Some bs" "length bs < 4096"
  obtains mb rest where "message_serialize (tx_message tx) = Some mb" "length (signatures tx) < 128" "drop (1 + 64 * length (signatures tx)) bs = mb"
    "bs = of_nat (length (signatures tx)) # concat (map signature_bytes (signatures tx)) @ num_required_signatures (header (tx_message tx)) # rest"
    "length (concat (map signature_bytes (signatures tx))) = length (signatures tx) * 64"
    "\<And>i. i < length (signatures tx) \<Longrightarrow> take 64 (drop (1 + 64 * i) bs) = signature_bytes (signatures tx ! i)"
    "\<And>i. i < length (account_keys (tx_message tx)) \<Longrightarrow>
      take 32 (drop (5 + 64 * length (signatures tx) + 32 * i) bs) = pubkey_bytes (account_keys (tx_message tx) ! i)"
    "5 + 64 * length (signatures tx) + 32 * length (account_keys (tx_message tx)) + 32 \<le> length bs"
proof -
  let ?ss = "map signature_bytes (signatures tx)" and ?ks = "map pubkey_bytes (account_keys (tx_message tx))"
    and ?n = "length (signatures tx)" and ?m = "tx_message tx"
  note short = transaction_short [OF assms]
  obtain mb where mb: "message_serialize ?m = Some mb" "bs = of_nat ?n # concat ?ss @ mb"
    using transaction_layout [OF assms(2) short(1)] by blast
  obtain r1 r2 kn rest where m: "mb = num_required_signatures (header ?m) # [r1, r2, kn] @ concat ?ks @ hash_bytes (recent_blockhash ?m) @ rest"
    using message_layout [OF mb(1) short(2)] by auto
  have cs: "\<forall>c \<in> set ?ss. length c = 64" "\<forall>c \<in> set ?ks. length c = 32" "length (hash_bytes (recent_blockhash ?m)) = 32"
    using assms(1) by (auto simp: tx_ok_def message_ok_def list_all_iff)
  have lens: "length (concat ?ss) = ?n * 64" "length (concat ?ks) = length ?ks * 32"
    using length_concat_chunks [OF cs(1)] length_concat_chunks [OF cs(2)] by simp_all
  have sig: "take 64 (drop (1 + 64 * i) bs) = signature_bytes (signatures tx ! i)" if "i < ?n" for i
    using chunk_nth [OF cs(1), of i mb] that by (simp add: mb(2) mult.commute)
  have "bs = (of_nat ?n # concat ?ss @ [num_required_signatures (header ?m), r1, r2, kn]) @
      concat ?ks @ hash_bytes (recent_blockhash ?m) @ rest" by (simp add: mb(2) m)
  moreover have "length (of_nat ?n # concat ?ss @ [num_required_signatures (header ?m), r1, r2, kn]) = 5 + 64 * ?n"
    using lens(1) by simp
  ultimately have "drop (5 + 64 * ?n) bs = concat ?ks @ hash_bytes (recent_blockhash ?m) @ rest" by (metis append_eq_conv_conj)
  moreover have "drop (5 + 64 * ?n + 32 * i) bs = drop (i * 32) (drop (5 + 64 * ?n) bs)" for i by (simp add: algebra_simps)
  ultimately have "take 32 (drop (5 + 64 * ?n + 32 * i) bs) = pubkey_bytes (account_keys ?m ! i)" if "i < length (account_keys ?m)" for i
    using chunk_nth [OF cs(2), of i "hash_bytes (recent_blockhash ?m) @ rest"] that by (simp only:) simp
  moreover have "drop (1 + 64 * ?n) bs = mb" using lens(1) by (simp add: mb(2))
  moreover have "5 + 64 * ?n + 32 * length (account_keys ?m) + 32 \<le> length bs" using lens cs(3) by (simp add: mb(2) m)
  moreover have "bs = of_nat ?n # concat ?ss @ num_required_signatures (header ?m) # [r1, r2, kn] @ concat ?ks @ hash_bytes (recent_blockhash ?m) @ rest"
    by (simp add: mb(2) m)
  ultimately show ?thesis using that [OF mb(1) short(1) _ _ lens(1) sig] by blast
qed

text \<open>
  C37: the signature check of a packet. For the packet of a transaction whose header asks for fewer than 128 signatures and that
  has no more signatures than keys, the offsets read from the raw bytes are the number of signatures and the places where the
  signatures, the message and the account keys start in those bytes, and the check returns 1 exactly when
  every signature verifies the bytes of the message under the account key at its position.
\<close>

theorem verify_packet_spec:
  assumes "tx_ok tx" "transaction_serialize tx = Some bs" "packet_data p = bs @ pad" "length (packet_data p) = PACKET_DATA_SIZE"
    "packet_meta_size p = length bs" "unat (num_required_signatures (header (tx_message tx))) < 128"
    "length (signatures tx) \<le> length (account_keys (tx_message tx))"
  shows "\<exists>mb. message_serialize (tx_message tx) = Some mb \<and>
    get_packet_offsets p 0 = (Ok (of_nat (length (signatures tx)), 1, of_nat (1 + 64 * length (signatures tx)),
       of_nat (5 + 64 * length (signatures tx))) :: ('e, u32 \<times> u32 \<times> u32 \<times> u32) res) \<and>
    (\<forall>i < length (signatures tx). take 64 (drop (1 + 64 * i) bs) = signature_bytes (signatures tx ! i)) \<and>
    drop (1 + 64 * length (signatures tx)) bs = mb \<and>
    (\<forall>i < length (account_keys (tx_message tx)).
       take 32 (drop (5 + 64 * length (signatures tx) + 32 * i) bs) = pubkey_bytes (account_keys (tx_message tx) ! i)) \<and>
    verify_packet verify p = (Ok (if \<forall>i < length (signatures tx).
      verify (signatures tx ! i) (pubkey_bytes (account_keys (tx_message tx) ! i)) mb then 1 else 0) :: ('e, u8) res)"
proof -
  let ?n = "length (signatures tx)" and ?m = "tx_message tx"
  have len: "length bs < 4096" using assms(3,4) by (simp add: PACKET_DATA_SIZE_def)
  obtain mb rest where t: "message_serialize ?m = Some mb" "?n < 128" "drop (1 + 64 * ?n) bs = mb"
    "bs = of_nat ?n # concat (map signature_bytes (signatures tx)) @ num_required_signatures (header ?m) # rest"
    "length (concat (map signature_bytes (signatures tx))) = ?n * 64"
    and sig: "\<And>i. i < ?n \<Longrightarrow> take 64 (drop (1 + 64 * i) bs) = signature_bytes (signatures tx ! i)"
    and key: "\<And>i. i < length (account_keys ?m) \<Longrightarrow> take 32 (drop (5 + 64 * ?n + 32 * i) bs) = pubkey_bytes (account_keys ?m ! i)"
    and size: "5 + 64 * ?n + 32 * length (account_keys ?m) + 32 \<le> length bs"
    by (rule transaction_parts [OF assms(1,2) len]) (rule that)
  have off: "get_packet_offsets p 0 = (Ok (of_nat ?n, 1, of_nat (1 + 64 * ?n), of_nat (5 + 64 * ?n)) :: ('e, u32 \<times> u32 \<times> u32 \<times> u32) res)"
    using packet_offsets [of p ?n "concat (map signature_bytes (signatures tx))" "num_required_signatures (header ?m)" "rest @ pad"]
      assms(3,6) t(2,4,5) by (simp add: mult.commute)
  have sig': "1 + 64 * i + 64 < length bs \<and> take 64 (drop (1 + 64 * i) (packet_data p)) = signature_bytes (signatures tx ! i)" if "i < ?n" for i
    using sig [OF that] size that by (simp add: assms(3))
  have key': "5 + 64 * ?n + 32 * i + 32 < length bs \<and>
      take 32 (drop (5 + 64 * ?n + 32 * i) (packet_data p)) = pubkey_bytes (account_keys ?m ! i)" if "i < ?n" for i
    using key [of i] size that assms(7) by (simp add: assms(3))
  have msg: "take (length bs - (1 + 64 * ?n)) (drop (1 + 64 * ?n) (packet_data p)) = mb"
    using size by (simp add: assms(3) t(3) [symmetric])
  have "verify_loop verify p (1 + 64 * ?n) ?n 1 (5 + 64 * ?n) = (Ok (if \<forall>i < ?n.
      verify (Signature (signature_bytes (signatures tx ! i))) (pubkey_bytes (account_keys ?m ! i))
        (take (packet_meta_size p - (1 + 64 * ?n)) (drop (1 + 64 * ?n) (packet_data p))) then 1 else 0) :: ('e, u8) res)"
    by (rule verify_loop_spec) (use sig' key' size assms(3,5) in auto)
  then have "verify_loop verify p (1 + 64 * ?n) ?n 1 (5 + 64 * ?n) = (Ok (if \<forall>i < ?n.
      verify (signatures tx ! i) (pubkey_bytes (account_keys ?m ! i)) mb then 1 else 0) :: ('e, u8) res)"
    by (simp only: assms(5) msg signature.collapse)
  moreover have "unat (of_nat ?n :: u32) = ?n" "unat (of_nat (1 + 64 * ?n) :: u32) = 1 + 64 * ?n"
    "unat (of_nat (5 + 64 * ?n) :: u32) = 5 + 64 * ?n"
    using unat_of_nat_u32 [of ?n] unat_of_nat_u32 [of "1 + 64 * ?n"] unat_of_nat_u32 [of "5 + 64 * ?n"] t(2) by simp_all
  moreover have "\<not> packet_meta_size p \<le> 1 + 64 * ?n" using size by (simp add: assms(5))
  ultimately have "verify_packet verify p = (Ok (if \<forall>i < ?n.
      verify (signatures tx ! i) (pubkey_bytes (account_keys ?m ! i)) mb then 1 else 0) :: ('e, u8) res)"
    by (simp add: verify_packet_def off del: of_nat_add of_nat_mult of_nat_Suc)
  then show ?thesis using t(1,3) off sig key by blast
qed

text \<open>
  The length that is decoded in front of the keys is read from the first byte of the message, which is the number of required
  signatures of the header. From 128 on that byte reads as a longer length and the keys are looked for one byte too late.
\<close>

lemma large_header_misplaces_keys:
  "get_packet_offsets \<lparr>packet_data = [0, 200, 1, 0, 1] @ ks, packet_meta_size = 5 + length ks\<rparr> 0 = Ok (0, 1, 1, 6)"
proof -
  have "short_u16_deserialize (200 # 1 # 0 # 1 # ks) = Some (200, 0 # 1 # ks)" "short_u16_deserialize (0 # 200 # 1 # 0 # 1 # ks) = Some (0, 200 # 1 # 0 # 1 # ks)"
    by (simp_all add: short_u16_deserialize_def numeral_3_eq_3 Let_def)
  then show ?thesis by (simp add: get_packet_offsets_def decode_len_def short_u16_serialize_cases byte_slice_def)
qed

theorem verify_packet_spec_witness:
  "\<exists>p mb. message_serialize (tx_message wire_tx) = Some mb \<and>
     verify_packet (\<lambda>s k m. k = replicate 32 1) p = (Ok 1 :: (unit, u8) res) \<and>
     verify_packet (\<lambda>s k m. k = replicate 32 2) p = (Ok 0 :: (unit, u8) res)"
proof -
  obtain bs where bs: "transaction_serialize wire_tx = Some bs" "length bs < PACKET_DATA_SIZE"
    using wire_tx_bytes by (auto simp: PACKET_DATA_SIZE_def)
  let ?p = "\<lparr>packet_data = bs @ replicate (PACKET_DATA_SIZE - length bs) 0, packet_meta_size = length bs\<rparr>"
  have "packet_data ?p = bs @ replicate (PACKET_DATA_SIZE - length bs) 0" "length (packet_data ?p) = PACKET_DATA_SIZE"
    "packet_meta_size ?p = length bs" "unat (num_required_signatures (header (tx_message wire_tx))) < 128"
    "length (signatures wire_tx) \<le> length (account_keys (tx_message wire_tx))"
    using bs(2) by (simp_all add: wire_tx_def message_new_with_compiled_instructions_def)
  note spec = verify_packet_spec [where 'e = unit, OF wire_tx_ok bs(1) this]
  have "length (signatures wire_tx) = 1" "pubkey_bytes (account_keys (tx_message wire_tx) ! 0) = replicate 32 1"
    by (simp_all add: wire_tx_def message_new_with_compiled_instructions_def demo_key_def)
  then show ?thesis
    using spec [of "\<lambda>s k m. k = replicate 32 1"] spec [of "\<lambda>s k m. k = replicate 32 2"]
    by (intro exI [of _ ?p]) auto
qed

section \<open>Malformed packets\<close>

lemma continued_byte: "(ucast (b :: u8) :: u64) AND 128 = 0 \<longleftrightarrow> \<not> bit b 7"
proof
  assume "(ucast b :: u64) AND 128 = 0"
  then have "\<not> bit ((ucast b :: u64) AND 128) 7" by simp
  then show "\<not> bit b 7" by (simp add: byte_bits)
next
  assume "\<not> bit b 7"
  then show "(ucast b :: u64) AND 128 = 0" by (intro bit_word_eqI) (auto simp: byte_bits)
qed

text \<open>
  C38: a malformed packet panics the signature check. When the first three bytes of a packet all have
  their top bit set, or when the packet announces more signatures than it can hold, the check does not
  reject the packet: it panics.
\<close>

theorem malformed_packet_panics:
  assumes "length (packet_data p) = PACKET_DATA_SIZE"
    "(\<forall>b \<in> set (take 3 (packet_data p)). bit b 7) \<or>
     (\<exists>n rest. short_u16_deserialize (packet_data p) = Some (n, rest) \<and> PACKET_DATA_SIZE \<le> unat n * 64)"
  shows "verify_packet verify p = Panic"
proof (cases "short_u16_deserialize (packet_data p)")
  case None
  then show ?thesis by (simp add: verify_packet_def get_packet_offsets_def decode_len_def)
next
  case (Some r)
  have "3 \<le> length (packet_data p)" using assms(1) by (simp add: PACKET_DATA_SIZE_def)
  then obtain b0 b1 b2 bs where d: "packet_data p = b0 # b1 # b2 # bs"
    by (auto simp: numeral_3_eq_3 Suc_le_length_iff)
  obtain n rest where r: "r = (n, rest)" by (cases r)
  have "\<not> (bit b0 7 \<and> bit b1 7 \<and> bit b2 7)"
    using Some by (auto simp: short_u16_deserialize_def d numeral_3_eq_3 Let_def continued_byte)
  then have "PACKET_DATA_SIZE \<le> unat n * 64" using assms(2) Some by (auto simp: d r)
  moreover have "0 < length (short_u16_serialize n)" by (simp add: short_u16_serialize_cases)
  ultimately have "length (packet_data p) < length (short_u16_serialize n) + unat n * 64" using assms(1) by linarith
  then show ?thesis using Some by (simp add: verify_packet_def get_packet_offsets_def decode_len_def r byte_slice_def Let_def)
qed

theorem malformed_packet_panics_witness:
  "verify_packet (\<lambda>s k m. True) \<lparr>packet_data = [255, 255, 255] @ replicate 1229 0, packet_meta_size = 3\<rparr> = Panic"
  by (rule malformed_packet_panics) (simp_all add: PACKET_DATA_SIZE_def numeral_3_eq_3)

end
