(* ===== verification/Block_Meta.thy ===== *)
theory Block_Meta
  imports Morgan_Prelude
begin

text \<open>
  The metadata that the block buffer pool keeps of a slot and of an erasure set,
  \<^verbatim>\<open>src/core/src/blockBufferPool/meta.rs\<close>: how much of a slot has been received and how it is chained
  to other slots, and two bit fields that tell which blobs of an erasure set are present.
\<close>

unbundle bit_operations_syntax

section \<open>Slots\<close>

record slot_meta =
  sm_slot :: u64
  sm_consumed :: u64
  sm_received :: u64
  sm_last_index :: u64
  sm_parent_slot :: u64
  sm_next_slots :: "u64 list"
  sm_is_connected :: bool

definition is_full :: "slot_meta \<Rightarrow> bool" where
  "is_full m \<longleftrightarrow> (if sm_last_index m = - 1 then False else sm_consumed m = sm_last_index m + 1)"

definition is_parent_set :: "slot_meta \<Rightarrow> bool" where
  "is_parent_set m \<longleftrightarrow> sm_parent_slot m \<noteq> - 1"

definition slot_meta_new :: "u64 \<Rightarrow> u64 \<Rightarrow> slot_meta" where
  "slot_meta_new slot parent_slot =
     \<lparr>sm_slot = slot, sm_consumed = 0, sm_received = 0, sm_last_index = - 1, sm_parent_slot = parent_slot,
      sm_next_slots = [], sm_is_connected = (slot = 0)\<rparr>"

section \<open>Erasure sets\<close>

definition NUM_DATA :: nat where
  "NUM_DATA = 8"

definition NUM_CODING :: nat where
  "NUM_CODING = 8"

definition ERASURE_SET_SIZE :: nat where
  "ERASURE_SET_SIZE = NUM_DATA + NUM_CODING"

record erasure_meta =
  em_set_index :: u64
  em_size :: nat
  em_data :: u64
  em_coding :: u64

datatype erasure_meta_status = CanRecover | DataFull | StillNeed nat

definition erasure_meta_new :: "u64 \<Rightarrow> erasure_meta" where
  "erasure_meta_new set_index = \<lparr>em_set_index = set_index, em_size = 0, em_data = 0, em_coding = 0\<rparr>"

definition count_ones :: "u64 \<Rightarrow> nat" where
  "count_ones w = length (filter (bit w) [0..<64])"

definition num_coding :: "erasure_meta \<Rightarrow> nat" where
  "num_coding m = count_ones (em_coding m)"

definition num_data :: "erasure_meta \<Rightarrow> nat" where
  "num_data m = count_ones (em_data m)"

text \<open>The subtractions are those of \<open>usize\<close>: they panic or wrap below zero, which the theorems below rule out.\<close>

definition erasure_status :: "erasure_meta \<Rightarrow> ('e, erasure_meta_status) res" where
  "erasure_status m =
     (if num_data m > NUM_DATA \<or> num_coding m > NUM_CODING then Panic
      else let data_missing = NUM_DATA - num_data m; coding_missing = NUM_CODING - num_coding m
        in if data_missing > 0 \<and> data_missing + coding_missing \<le> NUM_CODING
           then if em_size m \<noteq> 0 then Ok CanRecover else Panic
           else if data_missing = 0 then Ok DataFull
           else Ok (StillNeed (data_missing + coding_missing - NUM_CODING)))"

definition set_index_for :: "u64 \<Rightarrow> u64" where
  "set_index_for i = i div of_nat NUM_DATA"

definition start_index :: "erasure_meta \<Rightarrow> u64" where
  "start_index m = em_set_index m * of_nat NUM_DATA"

definition data_index_in_set :: "erasure_meta \<Rightarrow> u64 \<Rightarrow> u64 option" where
  "data_index_in_set m i = (if set_index_for i = em_set_index m then Some (i - start_index m) else None)"

definition coding_index_in_set :: "erasure_meta \<Rightarrow> u64 \<Rightarrow> u64 option" where
  "coding_index_in_set m i = map_option (\<lambda>i. i + of_nat NUM_DATA) (data_index_in_set m i)"

definition end_indexes :: "erasure_meta \<Rightarrow> u64 \<times> u64" where
  "end_indexes m = (start_index m + of_nat NUM_DATA, start_index m + of_nat NUM_CODING)"

definition set_position :: "u64 \<Rightarrow> bool \<Rightarrow> u64 \<Rightarrow> u64" where
  "set_position p present w =
     (if present then w OR push_bit (unat p) 1 else w AND NOT (push_bit (unat p) 1))"

definition is_coding_present :: "erasure_meta \<Rightarrow> u64 \<Rightarrow> bool" where
  "is_coding_present m i =
     (case data_index_in_set m i of Some p \<Rightarrow> em_coding m AND push_bit (unat p) 1 \<noteq> 0 | None \<Rightarrow> False)"

definition is_data_present :: "erasure_meta \<Rightarrow> u64 \<Rightarrow> bool" where
  "is_data_present m i =
     (case data_index_in_set m i of Some p \<Rightarrow> em_data m AND push_bit (unat p) 1 \<noteq> 0 | None \<Rightarrow> False)"

definition set_coding_present :: "u64 \<Rightarrow> bool \<Rightarrow> erasure_meta \<Rightarrow> erasure_meta" where
  "set_coding_present i present m =
     (case data_index_in_set m i of Some p \<Rightarrow> m\<lparr>em_coding := set_position p present (em_coding m)\<rparr> | None \<Rightarrow> m)"

definition set_data_present :: "u64 \<Rightarrow> bool \<Rightarrow> erasure_meta \<Rightarrow> erasure_meta" where
  "set_data_present i present m =
     (case data_index_in_set m i of Some p \<Rightarrow> m\<lparr>em_data := set_position p present (em_data m)\<rparr> | None \<Rightarrow> m)"

definition set_data_multi :: "u64 list \<Rightarrow> bool \<Rightarrow> erasure_meta \<Rightarrow> erasure_meta" where
  "set_data_multi is present = fold (\<lambda>i. set_data_present i present) is"

definition set_coding_multi :: "u64 list \<Rightarrow> bool \<Rightarrow> erasure_meta \<Rightarrow> erasure_meta" where
  "set_coding_multi is present = fold (\<lambda>i. set_coding_present i present) is"

definition set_size :: "nat \<Rightarrow> erasure_meta \<Rightarrow> erasure_meta" where
  "set_size n m = m\<lparr>em_size := n\<rparr>"

section \<open>The bit fields are sets of indexes\<close>

lemma bit_set_position: "unat p < 64 \<Longrightarrow> bit (set_position p b w) n \<longleftrightarrow> (if n = unat p then b else bit w n)"
  by (auto simp: set_position_def bit_simps dest: bit_imp_le_length)

lemma data_index_in_set_Some:
  assumes "data_index_in_set m i = Some p"
  shows "unat p = unat i mod NUM_DATA" "unat i div NUM_DATA = unat (em_set_index m)"
proof -
  have d: "i div 8 = em_set_index m" and p: "p = i - em_set_index m * 8"
    using assms by (simp_all add: data_index_in_set_def set_index_for_def start_index_def NUM_DATA_def split: if_splits)
  have "p = i mod 8" using p d by (metis minus_div_mult_eq_mod)
  then show "unat p = unat i mod NUM_DATA" by (simp add: unat_mod_distrib NUM_DATA_def)
  have "unat (i div 8) = unat (em_set_index m)" using d by simp
  then show "unat i div NUM_DATA = unat (em_set_index m)" by (simp add: unat_div_distrib NUM_DATA_def)
qed

lemma data_index_in_set_cong:
  "em_set_index m' = em_set_index m \<Longrightarrow> data_index_in_set m' i = data_index_in_set m i"
  by (simp add: data_index_in_set_def start_index_def)

lemma data_index_in_set_inj:
  assumes "data_index_in_set m i = Some p" "data_index_in_set m j = Some q" "unat p = unat q"
  shows "i = j"
proof -
  have "unat i = unat j" using data_index_in_set_Some [OF assms(1)] data_index_in_set_Some [OF assms(2)] assms(3)
    by (metis div_mult_mod_eq)
  then show ?thesis by simp
qed

lemma present_bit:
  "is_data_present m i \<longleftrightarrow> (\<exists>p. data_index_in_set m i = Some p \<and> bit (em_data m) (unat p))"
  "is_coding_present m i \<longleftrightarrow> (\<exists>p. data_index_in_set m i = Some p \<and> bit (em_coding m) (unat p))"
  unfolding is_data_present_def is_coding_present_def bit_iff_and_push_bit_not_eq_0 [symmetric]
  by (simp_all split: option.splits)

lemma set_present_simps [simp]:
  "em_set_index (set_data_present i b m) = em_set_index m" "em_set_index (set_coding_present i b m) = em_set_index m"
  "em_size (set_data_present i b m) = em_size m" "em_size (set_coding_present i b m) = em_size m"
  "em_coding (set_data_present i b m) = em_coding m" "em_data (set_coding_present i b m) = em_data m"
  by (simp_all add: set_data_present_def set_coding_present_def split: option.splits)

lemma data_index_in_set_simps [simp]:
  "data_index_in_set (set_data_present i b m) = data_index_in_set m"
  "data_index_in_set (set_coding_present i b m) = data_index_in_set m"
  "data_index_in_set (set_size n m) = data_index_in_set m"
  by (auto intro!: ext data_index_in_set_cong simp: set_size_def)

lemma in_set_64: "data_index_in_set m i = Some p \<Longrightarrow> unat p < 64"
  using data_index_in_set_Some(1) [of m i p] by (simp add: NUM_DATA_def)

lemma present_set_present:
  "is_data_present (set_data_present i b m) j \<longleftrightarrow> (if i = j \<and> data_index_in_set m i \<noteq> None then b else is_data_present m j)"
  "is_coding_present (set_coding_present i b m) j \<longleftrightarrow> (if i = j \<and> data_index_in_set m i \<noteq> None then b else is_coding_present m j)"
  "is_data_present (set_coding_present i b m) j \<longleftrightarrow> is_data_present m j"
  "is_coding_present (set_data_present i b m) j \<longleftrightarrow> is_coding_present m j"
  by (auto simp: present_bit)
    (auto simp: set_data_present_def set_coding_present_def bit_set_position [OF in_set_64]
       split: option.splits if_splits dest: data_index_in_set_inj)

section \<open>Counting blobs\<close>

definition em_ok :: "erasure_meta \<Rightarrow> bool" where
  "em_ok m \<longleftrightarrow> unat (em_set_index m) < 2 ^ 61 \<and> (\<forall>n. bit (em_data m) n \<or> bit (em_coding m) n \<longrightarrow> n < NUM_DATA)"

lemma in_set_start:
  assumes "unat (em_set_index m) < 2 ^ 61" "n < NUM_DATA"
  shows "data_index_in_set m (start_index m + of_nat n) = Some (of_nat n)"
proof -
  let ?i = "start_index m + of_nat n :: u64"
  have n: "unat (of_nat n :: u64) = n" using assms(2) by (simp add: NUM_DATA_def unat_of_nat)
  have s: "unat (start_index m) = unat (em_set_index m) * 8"
    using assms(1) by (simp add: start_index_def NUM_DATA_def unat_word_ariths)
  have "unat ?i = unat (em_set_index m) * 8 + n"
    using assms n s by (subst unat_plus_no_overflow) (simp_all add: NUM_DATA_def)
  then have "unat ?i div 8 = unat (em_set_index m)" using assms(2) by (simp add: NUM_DATA_def)
  then have "unat (?i div 8) = unat (em_set_index m)" by (simp add: unat_div_distrib)
  then have "?i div 8 = em_set_index m" by simp
  then show ?thesis by (simp add: data_index_in_set_def set_index_for_def NUM_DATA_def)
qed

lemma count_ones_card:
  assumes "\<forall>n. bit w n \<longrightarrow> n < NUM_DATA"
  shows "count_ones w = card {n. bit w n}"
proof -
  have "count_ones w = card {n. n < 64 \<and> bit w n}"
    by (simp add: count_ones_def distinct_length_filter Int_def conj_commute atLeast0LessThan lessThan_def)
  moreover have "{n. n < 64 \<and> bit w n} = {n. bit w n}" using assms by (auto simp: NUM_DATA_def)
  ultimately show ?thesis by simp
qed

lemma card_positions:
  assumes "unat (em_set_index m) < 2 ^ 61" "\<forall>n. bit w n \<longrightarrow> n < NUM_DATA"
  shows "count_ones w = card {i. \<exists>p. data_index_in_set m i = Some p \<and> bit w (unat p)}" "count_ones w \<le> NUM_DATA"
proof -
  let ?I = "{i. \<exists>p. data_index_in_set m i = Some p \<and> bit w (unat p)}"
  have u: "unat (of_nat n :: u64) = n" if "bit w n" for n using assms(2) that by (auto simp: NUM_DATA_def unat_of_nat)
  have "bij_betw (\<lambda>n. start_index m + of_nat n) {n. bit w n} ?I"
  proof (rule bij_betwI')
    fix n k assume "n \<in> {n. bit w n}" "k \<in> {n. bit w n}"
    then show "(start_index m + of_nat n = start_index m + of_nat k) = (n = k)" by (metis add_left_cancel mem_Collect_eq u)
  next
    fix n assume "n \<in> {n. bit w n}"
    then have n: "bit w n" by simp
    then have "data_index_in_set m (start_index m + of_nat n) = Some (of_nat n)" using assms by (simp add: in_set_start)
    then show "start_index m + of_nat n \<in> ?I" using n u [OF n] by simp
  next
    fix i assume "i \<in> ?I"
    then obtain p where p: "data_index_in_set m i = Some p" "bit w (unat p)" by blast
    then have "i = start_index m + of_nat (unat p)" by (auto simp: data_index_in_set_def split: if_splits)
    then show "\<exists>n \<in> {n. bit w n}. i = start_index m + of_nat n" using p(2) by blast
  qed
  then have "card {n. bit w n} = card ?I" by (rule bij_betw_same_card)
  then show "count_ones w = card ?I" using count_ones_card [OF assms(2)] by simp
  have "{n. bit w n} \<subseteq> {..<NUM_DATA}" using assms(2) by blast
  from card_mono [OF finite_lessThan this] show "count_ones w \<le> NUM_DATA" by (simp add: count_ones_card [OF assms(2)])
qed

lemma bit_set_position_less:
  assumes "data_index_in_set m i = Some p" "bit (set_position p b w) n" "\<forall>n. bit w n \<longrightarrow> n < NUM_DATA"
  shows "n < NUM_DATA"
  using assms data_index_in_set_Some(1) [OF assms(1)]
  by (auto simp: bit_set_position [OF in_set_64 [OF assms(1)]] NUM_DATA_def split: if_splits)

lemma em_ok_set_data: "em_ok m \<Longrightarrow> em_ok (set_data_present i b m)"
  unfolding set_data_present_def
  using bit_set_position_less [of m i _ b "em_data m"] by (simp add: em_ok_def split: option.splits)

lemma em_ok_set_coding: "em_ok m \<Longrightarrow> em_ok (set_coding_present i b m)"
  unfolding set_coding_present_def
  using bit_set_position_less [of m i _ b "em_coding m"] by (simp add: em_ok_def split: option.splits)

lemma em_ok_new: "em_ok (erasure_meta_new (set_index_for i))"
proof -
  have "unat i < 2 ^ LENGTH(64)" by (rule unsigned_less)
  then show ?thesis by (simp add: em_ok_def erasure_meta_new_def set_index_for_def NUM_DATA_def unat_div_distrib)
qed

datatype em_op = SetData u64 bool | SetCoding u64 bool | SetSize nat

fun em_apply :: "em_op \<Rightarrow> erasure_meta \<Rightarrow> erasure_meta" where
  "em_apply (SetData i b) = set_data_present i b"
| "em_apply (SetCoding i b) = set_coding_present i b"
| "em_apply (SetSize n) = set_size n"

lemma em_ok_apply: "em_ok m \<Longrightarrow> em_ok (em_apply x m)"
  by (cases x) (auto intro: em_ok_set_data em_ok_set_coding, simp add: em_ok_def set_size_def)

lemma em_ok_run: "em_ok m \<Longrightarrow> em_ok (fold em_apply ops m)"
  by (rule fold_invariant [where P = em_ok and Q = "\<lambda>_. True"]) (simp_all add: em_ok_apply)

text \<open>
  The status of an erasure set is a function of which blobs are present. After any updates of a
  fresh set, with \<open>d\<close> data blobs and \<open>c\<close> coding blobs present among the eight indexes of the set, the
  counts never underflow; the set is full when all data is there, recoverable exactly when data is
  missing and at least as many blobs are present as there are data blobs, and otherwise needs exactly
  the difference. The assertion on the size can only fail for a recoverable set whose size was never set.
\<close>

theorem erasure_status_spec:
  assumes "m = fold em_apply ops (erasure_meta_new (set_index_for k))"
    "d = card {i. is_data_present m i}" "c = card {i. is_coding_present m i}"
  shows "d \<le> NUM_DATA \<and> c \<le> NUM_CODING \<and>
    erasure_status m = (if d = NUM_DATA then Ok DataFull
      else if NUM_DATA \<le> d + c then (if em_size m = 0 then Panic else Ok CanRecover)
      else Ok (StillNeed (NUM_DATA - (d + c))))"
proof -
  have ok: "em_ok m" using em_ok_run [OF em_ok_new] by (simp add: assms(1))
  then have s: "unat (em_set_index m) < 2 ^ 61" "\<forall>n. bit (em_data m) n \<longrightarrow> n < NUM_DATA"
    "\<forall>n. bit (em_coding m) n \<longrightarrow> n < NUM_DATA" by (auto simp: em_ok_def)
  have "num_data m = d" "num_coding m = c" "num_data m \<le> 8" "num_coding m \<le> 8"
    using card_positions [OF s(1,2)] card_positions [OF s(1,3)]
    by (simp_all add: assms(2,3) num_data_def num_coding_def NUM_DATA_def present_bit)
  then show ?thesis by (auto simp: erasure_status_def NUM_DATA_def NUM_CODING_def Let_def)
qed

lemma demo_set_presence:
  assumes "m = fold em_apply [SetSize 10, SetData 9 True, SetCoding 10 True, SetData 9 False] (erasure_meta_new (set_index_for 12))"
  shows "{i. is_data_present m i} = {}" "{i. is_coding_present m i} = {10}" "em_size m = 10"
proof -
  have new: "\<not> is_data_present (set_size n (erasure_meta_new k)) i" "\<not> is_coding_present (set_size n (erasure_meta_new k)) i"
    "em_size (set_size n (erasure_meta_new k)) = n" for n k i
    by (simp_all add: present_bit set_size_def erasure_meta_new_def)
  have "data_index_in_set (erasure_meta_new (set_index_for 12)) 10 \<noteq> None" "data_index_in_set (erasure_meta_new (set_index_for 12)) 9 \<noteq> None"
    by (simp_all add: data_index_in_set_def erasure_meta_new_def set_index_for_def NUM_DATA_def)
  then show "{i. is_data_present m i} = {}" "{i. is_coding_present m i} = {10}" "em_size m = 10"
    by (auto simp: assms present_set_present new split: if_splits)
qed

theorem erasure_status_spec_witness:
  "erasure_status (fold em_apply [SetSize 10, SetData 9 True, SetCoding 10 True, SetData 9 False]
     (erasure_meta_new (set_index_for 12))) = (Ok (StillNeed 7) :: (unit, erasure_meta_status) res)"
  using erasure_status_spec [where 'a = unit, OF refl refl refl, of "[SetSize 10, SetData 9 True, SetCoding 10 True, SetData 9 False]" 12]
  by (simp only: demo_set_presence [OF refl]) (simp add: NUM_DATA_def)

end
