(* ===== verification/Leader_Schedule.thy ===== *)
theory Leader_Schedule
  imports Bank_Safety Block_Meta "HOL-Library.Product_Lexorder"
begin

text \<open>
  The leader schedule of an epoch and its cache: \<^verbatim>\<open>core/src/stakingUtils.rs\<close>,
  \<^verbatim>\<open>core/src/leaderArrange.rs\<close>, \<^verbatim>\<open>core/src/leaderArrangeUtils.rs\<close> and
  \<^verbatim>\<open>core/src/leaderArrangeCache.rs\<close>. The random generator and the weighted distribution are those of
  the \<open>rand\<close> crates: a \<open>sampler\<close> says for which weights a distribution exists and which index the n-th
  draw from a seed gives. Lookups in the block buffer pool are a map from slots to their metadata.
\<close>

section \<open>Stakes of nodes\<close>

definition to_vote_states :: "vote_state codec \<Rightarrow> (pubkey \<times> u64 \<times> account) list \<Rightarrow> (u64 \<times> vote_state) list" where
  "to_vote_states c accs =
     List.map_filter (\<lambda>(_, stake, a).
       case vote_state_deserialize c (data a) of Ok vs \<Rightarrow> Some (stake, vs) | _ \<Rightarrow> None) accs"

definition add_stake :: "u64 \<times> vote_state \<Rightarrow> (pubkey \<times> u64) list \<Rightarrow> (pubkey \<times> u64) list" where
  "add_stake sv m =
     (let k = node_pubkey (snd sv)
      in case map_of m k of Some s \<Rightarrow> AList.update k (s + fst sv) m | None \<Rightarrow> AList.update k (fst sv) m)"

definition to_staked_nodes :: "(u64 \<times> vote_state) list \<Rightarrow> (pubkey \<times> u64) list" where
  "to_staked_nodes xs = fold add_stake xs []"

definition vote_account_stakes :: "bank \<Rightarrow> (pubkey \<times> u64) list" where
  "vote_account_stakes b = map (\<lambda>(k, stake, _). (k, stake)) (vote_accounts (bank_stakes b))"

definition staked_nodes :: "vote_state codec \<Rightarrow> bank \<Rightarrow> (pubkey \<times> u64) list" where
  "staked_nodes c b = to_staked_nodes (to_vote_states c (vote_accounts (bank_stakes b)))"

definition vote_account_stakes_at_epoch :: "bank \<Rightarrow> u64 \<Rightarrow> (pubkey \<times> u64) list option" where
  "vote_account_stakes_at_epoch b epoch = map_option (map (\<lambda>(k, stake, _). (k, stake))) (epoch_vote_accounts b epoch)"

definition staked_nodes_at_epoch :: "vote_state codec \<Rightarrow> bank \<Rightarrow> u64 \<Rightarrow> (pubkey \<times> u64) list option" where
  "staked_nodes_at_epoch c b epoch = map_option (\<lambda>accs. to_staked_nodes (to_vote_states c accs)) (epoch_vote_accounts b epoch)"

definition epoch_stakes_and_lockouts :: "vote_state codec \<Rightarrow> bank \<Rightarrow> u64 \<Rightarrow> ('e, (u64 \<times> u64 option) list) res" where
  "epoch_stakes_and_lockouts c b epoch =
     res_bind (unwrap (epoch_vote_accounts b epoch)) (\<lambda>accs.
       Ok (map (\<lambda>(stake, vs). (stake, root_slot vs)) (to_vote_states c accs)))"

fun supermajority_loop :: "u64 \<Rightarrow> u64 \<Rightarrow> (u64 \<times> u64) list \<Rightarrow> u64 option" where
  "supermajority_loop supermajority acc [] = None"
| "supermajority_loop supermajority acc ((stake, sl) # rest) =
     (if acc + stake > supermajority then Some sl else supermajority_loop supermajority (acc + stake) rest)"

definition find_supermajority_slot :: "u64 \<Rightarrow> (u64 \<times> u64 option) list \<Rightarrow> u64 option" where
  "find_supermajority_slot supermajority xs =
     supermajority_loop supermajority 0
       (rev (sort_key snd (List.map_filter (\<lambda>(stake, sl). map_option (\<lambda>s. (stake, s)) sl) xs)))"

definition get_supermajority_slot :: "vote_state codec \<Rightarrow> bank \<Rightarrow> u64 \<Rightarrow> ('e, u64 option) res" where
  "get_supermajority_slot c b epoch =
     res_bind (epoch_stakes_and_lockouts c b epoch) (\<lambda>xs.
       let total_stake = sum_list (map fst xs) in Ok (find_supermajority_slot (total_stake * 2 div 3) xs))"

section \<open>The schedule of an epoch\<close>

record sampler =
  weights_ok :: "u64 list \<Rightarrow> bool"
  sample :: "bytes \<Rightarrow> u64 list \<Rightarrow> nat \<Rightarrow> nat"

definition NUM_CONSECUTIVE_LEADER_SLOTS :: u64 where
  "NUM_CONSECUTIVE_LEADER_SLOTS = 8"

fun slot_leaders_loop ::
  "(nat \<Rightarrow> nat) \<Rightarrow> pubkey list \<Rightarrow> u64 \<Rightarrow> nat list \<Rightarrow> pubkey \<Rightarrow> nat \<Rightarrow> ('e, pubkey list) res" where
  "slot_leaders_loop draw ids repeat [] current n = Ok []"
| "slot_leaders_loop draw ids repeat (i # is) current n =
     (if repeat = 0 then Panic
      else if i mod unat repeat = 0 then
        res_bind (idx ids (draw n)) (\<lambda>k.
        res_bind (slot_leaders_loop draw ids repeat is k (Suc n)) (\<lambda>ks. Ok (k # ks)))
      else res_bind (slot_leaders_loop draw ids repeat is current n) (\<lambda>ks. Ok (current # ks)))"

definition leader_schedule_new ::
  "sampler \<Rightarrow> (pubkey \<times> u64) list \<Rightarrow> bytes \<Rightarrow> u64 \<Rightarrow> u64 \<Rightarrow> ('e, pubkey list) res" where
  "leader_schedule_new R ids_and_stakes seed len repeat =
     (let ids = map fst ids_and_stakes; stakes = map snd ids_and_stakes
      in if \<not> weights_ok R stakes then Panic
         else slot_leaders_loop (sample R seed stakes) ids repeat [0..<unat len] default_pubkey 0)"

definition schedule_at :: "pubkey list \<Rightarrow> u64 \<Rightarrow> ('e, pubkey) res" where
  "schedule_at ls i = (if ls = [] then Panic else idx ls (unat i mod length ls))"

text \<open>The comparison is by falling stake, then by falling key.\<close>

definition sort_stakes :: "(pubkey \<times> u64) list \<Rightarrow> (pubkey \<times> u64) list" where
  "sort_stakes stakes = remdups_adj (rev (sort_key (\<lambda>(k, s). (s, k)) stakes))"

definition leader_schedule :: "sampler \<Rightarrow> vote_state codec \<Rightarrow> u64 \<Rightarrow> bank \<Rightarrow> ('e, pubkey list option) res" where
  "leader_schedule R c epoch b =
     (case staked_nodes_at_epoch c b epoch of
        None \<Rightarrow> Ok None
      | Some stakes \<Rightarrow>
          res_bind (leader_schedule_new R (sort_stakes stakes) (u64_bytes epoch @ replicate 24 0)
            (get_slots_in_epoch (bank_epoch_schedule b) epoch) NUM_CONSECUTIVE_LEADER_SLOTS) (\<lambda>ls. Ok (Some ls)))"

definition slot_leader_at :: "sampler \<Rightarrow> vote_state codec \<Rightarrow> u64 \<Rightarrow> bank \<Rightarrow> ('e, pubkey option) res" where
  "slot_leader_at R c sl b =
     (let (epoch, slot_index) = get_epoch_and_slot_index (bank_epoch_schedule b) sl
      in res_bind (leader_schedule R c epoch b) (\<lambda>r.
           case r of None \<Rightarrow> Ok None | Some ls \<Rightarrow> res_bind (schedule_at ls slot_index) (\<lambda>k. Ok (Some k))))"

definition num_ticks_left_in_slot :: "bank \<Rightarrow> u64 \<Rightarrow> ('e, u64) res" where
  "num_ticks_left_in_slot b tick_height =
     (if bank_ticks_per_slot b = 0 then Panic
      else Ok (bank_ticks_per_slot b - tick_height mod bank_ticks_per_slot b - 1))"

definition tick_height_to_slot :: "u64 \<Rightarrow> u64 \<Rightarrow> ('e, u64) res" where
  "tick_height_to_slot ticks_per_slot tick_height =
     (if ticks_per_slot = 0 then Panic else Ok (tick_height div ticks_per_slot))"

section \<open>The cache of schedules\<close>

definition MAX_SCHEDULES :: nat where
  "MAX_SCHEDULES = 10"

record leader_schedule_cache =
  cached_schedules :: "(u64 \<times> pubkey list) list"
  cache_order :: "u64 list"
  cache_epoch_schedule :: epoch_schedule
  max_epoch :: u64

definition cache_set_root :: "u64 \<Rightarrow> leader_schedule_cache \<Rightarrow> leader_schedule_cache" where
  "cache_set_root r lc = lc\<lparr>max_epoch := get_stakers_epoch (cache_epoch_schedule lc) r\<rparr>"

definition leader_schedule_cache_new :: "epoch_schedule \<Rightarrow> u64 \<Rightarrow> leader_schedule_cache" where
  "leader_schedule_cache_new es r =
     cache_set_root r \<lparr>cached_schedules = [], cache_order = [], cache_epoch_schedule = es, max_epoch = 0\<rparr>"

definition cache_new_from_bank :: "bank \<Rightarrow> leader_schedule_cache" where
  "cache_new_from_bank b = leader_schedule_cache_new (bank_epoch_schedule b) (bank_slot b)"

definition retain_latest ::
  "(u64 \<times> pubkey list) list \<times> u64 list \<Rightarrow> ('e, (u64 \<times> pubkey list) list \<times> u64 list) res" where
  "retain_latest so =
     (let (schedules, order) = so
      in if length schedules > MAX_SCHEDULES then
           (case order of [] \<Rightarrow> Panic | first # rest \<Rightarrow> Ok (AList.delete first schedules, rest))
         else Ok (schedules, order))"

definition compute_epoch_schedule ::
  "sampler \<Rightarrow> vote_state codec \<Rightarrow> u64 \<Rightarrow> bank \<Rightarrow> leader_schedule_cache \<Rightarrow>
     ('e, pubkey list option \<times> leader_schedule_cache) res" where
  "compute_epoch_schedule R c epoch b lc =
     res_bind (leader_schedule R c epoch b) (\<lambda>r.
       case r of
         None \<Rightarrow> Ok (None, lc)
       | Some ls \<Rightarrow>
           if map_of (cached_schedules lc) epoch = None then
             res_bind (retain_latest (AList.update epoch ls (cached_schedules lc), cache_order lc @ [epoch])) (\<lambda>(schedules, order).
               Ok (Some ls, lc\<lparr>cached_schedules := schedules, cache_order := order\<rparr>))
           else Ok (Some ls, lc))"

definition get_epoch_schedule_else_compute ::
  "sampler \<Rightarrow> vote_state codec \<Rightarrow> u64 \<Rightarrow> bank \<Rightarrow> leader_schedule_cache \<Rightarrow>
     ('e, pubkey list option \<times> leader_schedule_cache) res" where
  "get_epoch_schedule_else_compute R c epoch b lc =
     (case map_of (cached_schedules lc) epoch of
        Some ls \<Rightarrow> Ok (Some ls, lc)
      | None \<Rightarrow> compute_epoch_schedule R c epoch b lc)"

definition slot_leader_at_no_compute :: "u64 \<Rightarrow> leader_schedule_cache \<Rightarrow> ('e, pubkey option) res" where
  "slot_leader_at_no_compute sl lc =
     (let (epoch, slot_index) = get_epoch_and_slot_index (cache_epoch_schedule lc) sl
      in case map_of (cached_schedules lc) epoch of
           None \<Rightarrow> Ok None
         | Some ls \<Rightarrow> res_bind (schedule_at ls slot_index) (\<lambda>k. Ok (Some k)))"

definition slot_leader_at_else_compute ::
  "sampler \<Rightarrow> vote_state codec \<Rightarrow> u64 \<Rightarrow> bank \<Rightarrow> leader_schedule_cache \<Rightarrow> ('e, pubkey option \<times> leader_schedule_cache) res" where
  "slot_leader_at_else_compute R c sl b lc =
     res_bind (slot_leader_at_no_compute sl lc) (\<lambda>cache_result.
       if fst (get_epoch_and_slot_index (cache_epoch_schedule lc) sl) > max_epoch lc then Ok (None, lc)
       else if cache_result \<noteq> None then Ok (cache_result, lc)
       else let (epoch, slot_index) = get_epoch_and_slot_index (bank_epoch_schedule b) sl
            in res_bind (compute_epoch_schedule R c epoch b lc) (\<lambda>(r, lc').
                 case r of None \<Rightarrow> Ok (None, lc')
                 | Some ls \<Rightarrow> res_bind (schedule_at ls slot_index) (\<lambda>k. Ok (Some k, lc'))))"

definition cache_slot_leader_at ::
  "sampler \<Rightarrow> vote_state codec \<Rightarrow> u64 \<Rightarrow> bank option \<Rightarrow> leader_schedule_cache \<Rightarrow> ('e, pubkey option \<times> leader_schedule_cache) res" where
  "cache_slot_leader_at R c sl bo lc =
     (case bo of
        Some b \<Rightarrow> slot_leader_at_else_compute R c sl b lc
      | None \<Rightarrow> res_bind (slot_leader_at_no_compute sl lc) (\<lambda>r. Ok (r, lc)))"

text \<open>
  The slots of one epoch from \<open>start\<close> on: the first one that the node leads and for which no blob
  has been received, with the slot counter.
\<close>

fun scan_epoch ::
  "pubkey \<Rightarrow> pubkey list \<Rightarrow> (u64 \<rightharpoonup> slot_meta) option \<Rightarrow> nat list \<Rightarrow> u64 \<Rightarrow> ('e, bool \<times> u64) res" where
  "scan_epoch me ls pool [] sl = Ok (False, sl)"
| "scan_epoch me ls pool (i # is) sl =
     (let sl = sl + 1
      in res_bind (schedule_at ls (of_nat i)) (\<lambda>k.
           if me = k then
             (case pool of
                None \<Rightarrow> Ok (True, sl)
              | Some metas \<Rightarrow>
                  (case metas sl of
                     None \<Rightarrow> Ok (True, sl)
                   | Some m \<Rightarrow> if sm_received m > 0 then scan_epoch me ls pool is sl else Ok (True, sl)))
           else scan_epoch me ls pool is sl))"

partial_function (option) next_leader_loop ::
  "sampler \<Rightarrow> vote_state codec \<Rightarrow> pubkey \<Rightarrow> bank \<Rightarrow> (u64 \<rightharpoonup> slot_meta) option \<Rightarrow> u64 \<Rightarrow> u64 \<Rightarrow> u64 \<Rightarrow>
     leader_schedule_cache \<Rightarrow> (unit, u64 option \<times> leader_schedule_cache) res option" where
  "next_leader_loop R c me b pool epoch start sl lc =
     (case get_epoch_schedule_else_compute R c epoch b lc of
        Panic \<Rightarrow> Some Panic
      | Err e \<Rightarrow> Some (Err e)
      | Ok (r, lc') \<Rightarrow>
          (case r of
             None \<Rightarrow> Some (Ok (None, lc'))
           | Some ls \<Rightarrow>
               (case scan_epoch me ls pool [unat start..<unat (get_slots_in_epoch (bank_epoch_schedule b) epoch)] sl of
                  Panic \<Rightarrow> Some Panic
                | Err e \<Rightarrow> Some (Err e)
                | Ok (found, sl') \<Rightarrow>
                    if found then Some (Ok (Some sl', lc'))
                    else next_leader_loop R c me b pool (epoch + 1) 0 sl' lc')))"

definition next_leader_slot ::
  "sampler \<Rightarrow> vote_state codec \<Rightarrow> pubkey \<Rightarrow> u64 \<Rightarrow> bank \<Rightarrow> (u64 \<rightharpoonup> slot_meta) option \<Rightarrow> leader_schedule_cache \<Rightarrow>
     (u64 option \<times> leader_schedule_cache) run" where
  "next_leader_slot R c me sl b pool lc =
     (let (epoch, start) = get_epoch_and_slot_index (bank_epoch_schedule b) (sl + 1)
      in next_leader_loop R c me b pool epoch start sl lc)"

section \<open>The schedule does not depend on the order of the map\<close>

definition node_stake :: "(u64 \<times> vote_state) list \<Rightarrow> pubkey \<Rightarrow> u64" where
  "node_stake xs k = sum_list (map fst (filter (\<lambda>p. node_pubkey (snd p) = k) xs))"

lemma distinct_add_stake: "distinct (map fst m) \<Longrightarrow> distinct (map fst (add_stake x m))"
  by (simp add: add_stake_def Let_def distinct_update split: option.split)

lemma map_of_add_stake:
  "map_of (add_stake x m) k =
     (if node_pubkey (snd x) = k then Some ((case map_of m k of None \<Rightarrow> 0 | Some s \<Rightarrow> s) + fst x) else map_of m k)"
  by (simp add: add_stake_def Let_def update_conv' split: option.split)

lemma distinct_add_stakes: "distinct (map fst m) \<Longrightarrow> distinct (map fst (fold add_stake xs m))"
  by (rule fold_invariant [where P = "\<lambda>m. distinct (map fst m)" and Q = "\<lambda>_. True"]) (simp_all add: distinct_add_stake)

lemma map_of_add_stakes:
  "map_of (fold add_stake xs m) k =
     (if k \<in> (node_pubkey \<circ> snd) ` set xs then Some ((case map_of m k of None \<Rightarrow> 0 | Some s \<Rightarrow> s) + node_stake xs k)
      else map_of m k)"
proof (induction xs arbitrary: m)
  case (Cons x xs)
  show ?case
  proof (cases "node_pubkey (snd x) = k")
    case True
    have "node_stake xs k = 0" if "k \<notin> (node_pubkey \<circ> snd) ` set xs"
    proof -
      have "filter (\<lambda>p. node_pubkey (snd p) = k) xs = []" using that by (auto simp: filter_empty_conv)
      then show ?thesis by (simp add: node_stake_def)
    qed
    then show ?thesis using True by (simp add: Cons.IH map_of_add_stake node_stake_def add.assoc)
  next
    case False
    then show ?thesis by (auto simp: Cons.IH map_of_add_stake node_stake_def)
  qed
qed simp

lemma staked_nodes_map:
  "map_of (to_staked_nodes xs) k = (if k \<in> (node_pubkey \<circ> snd) ` set xs then Some (node_stake xs k) else None)"
  "distinct (map fst (to_staked_nodes xs))"
  by (simp_all add: to_staked_nodes_def map_of_add_stakes distinct_add_stakes)

lemma sort_stakes_mset:
  assumes "mset xs = mset ys"
  shows "sort_stakes xs = sort_stakes ys"
proof -
  let ?f = "\<lambda>(k :: pubkey, s :: u64). (s, k)"
  have "sort_key ?f xs = sort_key ?f ys"
    by (rule sort_key_inj_key_eq) (auto simp: assms inj_on_def)
  then show ?thesis by (simp add: sort_stakes_def)
qed

lemma node_stake_mset:
  assumes "mset xs = mset ys"
  shows "node_stake xs k = node_stake ys k"
proof -
  have "mset (map fst (filter (\<lambda>p. node_pubkey (snd p) = k) xs)) = mset (map fst (filter (\<lambda>p. node_pubkey (snd p) = k) ys))"
    by (simp add: mset_map mset_filter assms)
  then show ?thesis unfolding node_stake_def by (simp only: sum_mset_sum_list [symmetric])
qed

lemma to_staked_nodes_mset:
  assumes "mset xs = mset ys"
  shows "mset (to_staked_nodes xs) = mset (to_staked_nodes ys)"
proof -
  have "map_of (to_staked_nodes xs) k = map_of (to_staked_nodes ys) k" for k
    by (simp only: staked_nodes_map mset_eq_setD [OF assms] node_stake_mset [OF assms])
  then have "set (to_staked_nodes xs) = set (to_staked_nodes ys)"
    using set_map_of_compr [OF staked_nodes_map(2), of xs] set_map_of_compr [OF staked_nodes_map(2), of ys] by simp
  moreover have "distinct (to_staked_nodes zs)" for zs using staked_nodes_map(2) [of zs] by (simp add: distinct_map)
  ultimately show ?thesis by (simp add: set_eq_iff_mset_eq_distinct)
qed

lemma to_vote_states_mset: "mset xs = mset ys \<Longrightarrow> mset (to_vote_states c xs) = mset (to_vote_states c ys)"
  unfolding to_vote_states_def List.map_filter_def by (simp add: mset_map mset_filter)

text \<open>
  C15: all nodes compute the same leader schedule. The vote accounts of an epoch are a hash map whose
  iteration order differs from node to node; whatever the order, the leader schedule of the epoch is
  the same.
\<close>

theorem leader_schedule_deterministic:
  assumes "bank_epoch_schedule b = bank_epoch_schedule b'"
    "rel_option (\<lambda>st st'. mset (vote_accounts st) = mset (vote_accounts st')) (bank_epoch_stakes b epoch) (bank_epoch_stakes b' epoch)"
  shows "leader_schedule R c epoch b = leader_schedule R c epoch b'"
proof (cases "bank_epoch_stakes b epoch")
  case None
  then show ?thesis using assms(2) by (simp add: leader_schedule_def staked_nodes_at_epoch_def epoch_vote_accounts_def)
next
  case (Some st)
  then obtain st' where st': "bank_epoch_stakes b' epoch = Some st'" "mset (vote_accounts st) = mset (vote_accounts st')"
    using assms(2) by (auto simp: option_rel_Some1)
  have "sort_stakes (to_staked_nodes (to_vote_states c (vote_accounts st))) = sort_stakes (to_staked_nodes (to_vote_states c (vote_accounts st')))"
    by (intro sort_stakes_mset to_staked_nodes_mset to_vote_states_mset st'(2))
  then show ?thesis using Some st'(1) assms(1) by (simp add: leader_schedule_def staked_nodes_at_epoch_def epoch_vote_accounts_def)
qed

section \<open>Shape of the schedule\<close>

text \<open>
  What the weighted distribution of the \<open>rand\<close> crate documents: it exists for a non-empty list of weights with
  a positive sum that does not overflow, and a draw is the index of a positive weight.
\<close>

definition sampler_ok :: "sampler \<Rightarrow> bool" where
  "sampler_ok R \<longleftrightarrow>
     (\<forall>ws. weights_ok R ws \<longleftrightarrow> 0 < sum_list (map unat ws) \<and> sum_list (map unat ws) < 2 ^ 64) \<and>
     (\<forall>seed ws n. weights_ok R ws \<longrightarrow> sample R seed ws n < length ws \<and> 0 < ws ! sample R seed ws n)"

lemma sampler_draw:
  "sampler_ok R \<Longrightarrow> weights_ok R ws \<Longrightarrow> sample R seed ws n < length ws \<and> 0 < ws ! sample R seed ws n"
  unfolding sampler_ok_def by blast

lemma slot_leaders_loop_Ok:
  assumes "\<forall>n. draw n < length ids" "r \<noteq> 0" "k = unat r"
  shows "n = (if i mod k = 0 then i div k else Suc (i div k)) \<Longrightarrow>
    (i mod k \<noteq> 0 \<longrightarrow> current = ids ! draw (i div k)) \<Longrightarrow>
    slot_leaders_loop draw ids r [i..<m] current n = Ok (map (\<lambda>t. ids ! draw (t div k)) [i..<m])"
proof (induction "m - i" arbitrary: i current n)
  case (Suc d)
  have up: "[i..<m] = i # [Suc i..<m]" and d: "d = m - Suc i" using Suc.hyps(2) by (simp_all add: upt_conv_Cons)
  note IH = Suc.hyps(1) [OF d]
  let ?n = "if Suc i mod k = 0 then Suc i div k else Suc (Suc i div k)"
  have n: "?n = Suc (i div k)" by (simp add: div_Suc)
  have c: "Suc i mod k \<noteq> 0 \<longrightarrow> ids ! draw (i div k) = ids ! draw (Suc i div k)" by (simp add: div_Suc)
  from IH [OF refl c] n show ?case
    using assms Suc.prems by (cases "i mod k = 0") (simp_all add: up)
qed simp

lemma leader_schedule_new_Ok:
  assumes "sampler_ok R" "weights_ok R (map snd stakes)" "r \<noteq> 0"
  shows "leader_schedule_new R stakes seed len r =
    Ok (map (\<lambda>t. map fst stakes ! sample R seed (map snd stakes) (t div unat r)) [0..<unat len])"
proof -
  have "\<forall>n. sample R seed (map snd stakes) n < length (map fst stakes)" using sampler_draw [OF assms(1,2)] by simp
  from slot_leaders_loop_Ok [OF this assms(3) refl, of 0 0] assms(2) show ?thesis by (simp add: leader_schedule_new_def)
qed

lemma sort_stakes_eq:
  assumes "distinct stakes"
  shows "sort_stakes stakes = rev (sort_key (\<lambda>(k, s). (s, k)) stakes)"
proof -
  have "distinct (rev (sort_key (\<lambda>(k, s). (s, k)) stakes))" using assms by simp
  then show ?thesis unfolding sort_stakes_def by (rule remdups_adj_distinct)
qed

lemma sort_stakes_props:
  assumes "distinct stakes"
  shows "mset (sort_stakes stakes) = mset stakes"
  using sort_stakes_eq [OF assms] by simp

definition schedule_shape :: "(pubkey \<times> u64) list \<Rightarrow> pubkey list \<Rightarrow> bool" where
  "schedule_shape stakes ls \<longleftrightarrow>
     (\<forall>k \<in> set ls. \<exists>s. (k, s) \<in> set stakes \<and> 0 < s) \<and>
     (\<forall>i j. i < length ls \<longrightarrow> j < length ls \<longrightarrow>
        i div unat NUM_CONSECUTIVE_LEADER_SLOTS = j div unat NUM_CONSECUTIVE_LEADER_SLOTS \<longrightarrow> ls ! i = ls ! j)"

lemma sum_list_mset: "mset xs = mset ys \<Longrightarrow> sum_list (map f xs) = sum_list (map (f :: 'a \<Rightarrow> nat) ys)"
  by (metis mset_map sum_mset_sum_list)

text \<open>
  The shape of a leader schedule. For an epoch whose staked nodes are known, with a total stake that is
  positive and fits 64 bits, the schedule exists (nothing panics); it names one leader for every slot of the epoch,
  every leader is a node with positive stake, and a leader keeps its turn for eight consecutive slots.
\<close>

theorem leader_schedule_spec:
  assumes "sampler_ok R" "staked_nodes_at_epoch c b epoch = Some stakes"
    "0 < sum_list (map (unat \<circ> snd) stakes)" "sum_list (map (unat \<circ> snd) stakes) < 2 ^ 64"
  shows "\<exists>ls. leader_schedule R c epoch b = (Ok (Some ls) :: ('e, pubkey list option) res) \<and>
    length ls = unat (get_slots_in_epoch (bank_epoch_schedule b) epoch) \<and> schedule_shape stakes ls"
proof -
  have "distinct (map fst stakes)" using assms(2) by (auto simp: staked_nodes_at_epoch_def staked_nodes_map)
  then have m: "mset (sort_stakes stakes) = mset stakes" by (simp add: sort_stakes_props distinct_map)
  let ?st = "sort_stakes stakes" and ?seed = "u64_bytes epoch @ replicate 24 0"
  let ?f = "\<lambda>t. map fst ?st ! sample R ?seed (map snd ?st) (t div unat NUM_CONSECUTIVE_LEADER_SLOTS)"
  have w: "weights_ok R (map snd ?st)" using assms(1,3,4) sum_list_mset [OF m, of "unat \<circ> snd"] by (simp add: sampler_ok_def)
  let ?ls = "map ?f [0..<unat (get_slots_in_epoch (bank_epoch_schedule b) epoch)]"
  have "leader_schedule_new R ?st ?seed (get_slots_in_epoch (bank_epoch_schedule b) epoch) NUM_CONSECUTIVE_LEADER_SLOTS =
      (Ok ?ls :: ('e, pubkey list) res)"
    by (rule leader_schedule_new_Ok [OF assms(1) w]) (simp add: NUM_CONSECUTIVE_LEADER_SLOTS_def)
  then have "leader_schedule R c epoch b = (Ok (Some ?ls) :: ('e, pubkey list option) res)"
    using assms(2) by (simp add: leader_schedule_def)
  moreover have "\<exists>s. (?f t, s) \<in> set stakes \<and> 0 < s" for t
  proof -
    let ?i = "sample R ?seed (map snd ?st) (t div unat NUM_CONSECUTIVE_LEADER_SLOTS)"
    have i: "?i < length ?st" "0 < snd (?st ! ?i)" 
      using sampler_draw [OF assms(1) w, of ?seed "t div unat NUM_CONSECUTIVE_LEADER_SLOTS"] by (simp, metis length_map nth_map)
    then have "?st ! ?i \<in> set stakes" using nth_mem [OF i(1)] mset_eq_setD [OF m] by simp
    then show ?thesis using i by (intro exI [of _ "snd (?st ! ?i)"]) simp
  qed
  then have "schedule_shape stakes ?ls" by (auto simp: schedule_shape_def)
  ultimately show ?thesis by (intro exI [of _ ?ls]) simp
qed

section \<open>The cache is transparent\<close>

text \<open>
  \<open>S\<close> is the schedule of every epoch that the cluster agrees on. A bank agrees with it when it computes either
  nothing, for an epoch it has no stakes for, or the schedule of the epoch.
\<close>

definition agrees :: "sampler \<Rightarrow> vote_state codec \<Rightarrow> (u64 \<rightharpoonup> pubkey list) \<Rightarrow> bank \<Rightarrow> bool" where
  "agrees R c S b \<longleftrightarrow>
     (\<forall>e. leader_schedule R c e b = (Ok None :: (unit, pubkey list option) res) \<or>
          S e \<noteq> None \<and> leader_schedule R c e b = (Ok (S e) :: (unit, pubkey list option) res))"

definition cache_inv :: "(u64 \<rightharpoonup> pubkey list) \<Rightarrow> leader_schedule_cache \<Rightarrow> bool" where
  "cache_inv S lc \<longleftrightarrow>
     (\<forall>e ls. map_of (cached_schedules lc) e = Some ls \<longrightarrow> S e = Some ls) \<and>
     distinct (map fst (cached_schedules lc)) \<and> mset (cache_order lc) = mset (map fst (cached_schedules lc)) \<and>
     length (cached_schedules lc) \<le> MAX_SCHEDULES"

lemma cache_inv_new: "cache_inv S (leader_schedule_cache_new es r)"
  by (simp add: cache_inv_def leader_schedule_cache_new_def cache_set_root_def)

lemma cache_inv_set_root: "cache_inv S lc \<Longrightarrow> cache_inv S (cache_set_root r lc)"
  by (simp add: cache_inv_def cache_set_root_def)

text \<open>Inserting a schedule keeps the cache bounded: when it is full the oldest one leaves.\<close>

lemma mset_delete_keys:
  assumes "distinct (map fst xs)" "k \<in> fst ` set xs"
  shows "mset (map fst (AList.delete k xs)) = mset (map fst xs) - {#k#}" "length (AList.delete k xs) = length xs - 1"
proof -
  show m: "mset (map fst (AList.delete k xs)) = mset (map fst xs) - {#k#}"
    using assms
  proof (induction xs)
    case (Cons x xs)
    then show ?case by (cases "fst x = k") auto
  qed simp
  from arg_cong [OF m, of size] show "length (AList.delete k xs) = length xs - 1" using assms(2) by (simp add: size_Diff_singleton)
qed

lemma update_new: "k \<notin> fst ` set xs \<Longrightarrow> AList.update k v xs = xs @ [(k, v)]"
  by (induction xs) auto

lemma cache_insert:
  assumes "cache_inv S lc" "map_of (cached_schedules lc) e = None" "S e = Some ls"
  shows "\<exists>schedules order. retain_latest (AList.update e ls (cached_schedules lc), cache_order lc @ [e]) = (Ok (schedules, order) :: ('x, _) res) \<and>
    cache_inv S (lc\<lparr>cached_schedules := schedules, cache_order := order\<rparr>)"
proof -
  let ?sch = "AList.update e ls (cached_schedules lc)" and ?ord = "cache_order lc @ [e]"
  have up: "?sch = cached_schedules lc @ [(e, ls)]" using assms(2) by (simp add: update_new map_of_eq_None_iff)
  have inv: "\<forall>e' ls'. map_of ?sch e' = Some ls' \<longrightarrow> S e' = Some ls'" "distinct (map fst ?sch)" "mset ?ord = mset (map fst ?sch)"
    using assms by (auto simp: cache_inv_def update_conv' distinct_update) (simp add: up)
  show ?thesis
  proof (cases "length ?sch > MAX_SCHEDULES")
    case False
    then show ?thesis using inv by (simp add: retain_latest_def cache_inv_def)
  next
    case True
    obtain first rest where o: "?ord = first # rest" by (cases ?ord) auto
    then have f: "first \<in> fst ` set ?sch" using arg_cong [OF inv(3), of set_mset] by auto
    have "mset rest = mset ?ord - {#first#}" by (simp add: o)
    then have "mset rest = mset (map fst (AList.delete first ?sch))" using mset_delete_keys(1) [OF inv(2) f] inv(3) by simp
    moreover have "length (AList.delete first ?sch) \<le> MAX_SCHEDULES"
      using mset_delete_keys(2) [OF inv(2) f] assms(1) by (simp add: up cache_inv_def)
    moreover have "\<forall>e' ls'. map_of (AList.delete first ?sch) e' = Some ls' \<longrightarrow> S e' = Some ls'"
      using inv(1) by (auto simp: delete_conv')
    ultimately show ?thesis using True inv(2) o by (simp add: retain_latest_def cache_inv_def distinct_delete)
  qed
qed

definition knows_epoch :: "sampler \<Rightarrow> vote_state codec \<Rightarrow> u64 \<Rightarrow> bank \<Rightarrow> bool" where
  "knows_epoch R c e b \<longleftrightarrow> leader_schedule R c e b \<noteq> (Ok None :: (unit, pubkey list option) res)"

definition same_schedule :: "leader_schedule_cache \<Rightarrow> leader_schedule_cache \<Rightarrow> bool" where
  "same_schedule lc lc' \<longleftrightarrow> cache_epoch_schedule lc' = cache_epoch_schedule lc \<and> max_epoch lc' = max_epoch lc"

lemma compute_epoch_schedule_Ok:
  assumes "cache_inv S lc" "agrees R c S b"
  shows "\<exists>r lc'. compute_epoch_schedule R c e b lc = (Ok (r, lc') :: (unit, pubkey list option \<times> leader_schedule_cache) res) \<and>
    cache_inv S lc' \<and> same_schedule lc lc' \<and> r = (if knows_epoch R c e b then S e else None) \<and> (knows_epoch R c e b \<longrightarrow> r \<noteq> None)"
proof (cases "knows_epoch R c e b")
  case False
  then show ?thesis using assms(1) by (simp add: knows_epoch_def compute_epoch_schedule_def same_schedule_def)
next
  case True
  then obtain ls where ls: "S e = Some ls" "leader_schedule R c e b = (Ok (Some ls) :: (unit, pubkey list option) res)"
    using assms(2) unfolding agrees_def knows_epoch_def by (metis option.exhaust)
  show ?thesis
  proof (cases "map_of (cached_schedules lc) e")
    case None
    with cache_insert [where 'x = unit, OF assms(1) None ls(1)] True ls show ?thesis
      by (auto simp: compute_epoch_schedule_def same_schedule_def)
  next
    case (Some ls')
    then show ?thesis using True ls assms(1) by (simp add: compute_epoch_schedule_def same_schedule_def)
  qed
qed

lemma get_epoch_schedule_Ok:
  assumes "cache_inv S lc" "agrees R c S b"
  shows "\<exists>r lc'. get_epoch_schedule_else_compute R c e b lc = (Ok (r, lc') :: (unit, pubkey list option \<times> leader_schedule_cache) res) \<and>
    cache_inv S lc' \<and> same_schedule lc lc' \<and> (r = None \<or> r = S e) \<and> (knows_epoch R c e b \<longrightarrow> r \<noteq> None)"
proof (cases "map_of (cached_schedules lc) e")
  case None
  with compute_epoch_schedule_Ok [OF assms, of e] show ?thesis by (auto simp: get_epoch_schedule_else_compute_def)
next
  case (Some ls)
  then show ?thesis using assms(1) by (auto simp: get_epoch_schedule_else_compute_def cache_inv_def same_schedule_def)
qed

text \<open>The leader of a slot in the agreed schedule.\<close>

definition leader_of :: "(u64 \<rightharpoonup> pubkey list) \<Rightarrow> epoch_schedule \<Rightarrow> u64 \<Rightarrow> pubkey option" where
  "leader_of S es sl =
     (let (e, i) = get_epoch_and_slot_index es sl in map_option (\<lambda>ls. ls ! (unat i mod length ls)) (S e))"

lemma schedule_at_Ok: "ls \<noteq> [] \<Longrightarrow> schedule_at ls i = Ok (ls ! (unat i mod length ls))"
  by (simp add: schedule_at_def)

text \<open>
  C13: the cache of leader schedules is transparent. Whatever schedules have been cached before and by
  whichever banks of the cluster, asking for the leader of a slot never panics, keeps the cache correct and bounded
  by ten schedules, and answers nothing for an epoch beyond the last confirmed one; within the confirmed epochs the
  answer is the leader of the agreed schedule whenever the asking bank knows the epoch's stakes, and
  never any other leader.
\<close>

theorem leader_cache_transparent:
  assumes "cache_inv S lc" "agrees R c S b" "cache_epoch_schedule lc = bank_epoch_schedule b" "\<forall>e. S e \<noteq> Some []"
    "get_epoch_and_slot_index (bank_epoch_schedule b) sl = (e, i)"
  shows "\<exists>r lc'. slot_leader_at_else_compute R c sl b lc = (Ok (r, lc') :: (unit, pubkey option \<times> leader_schedule_cache) res) \<and>
    cache_inv S lc' \<and> cache_epoch_schedule lc' = bank_epoch_schedule b \<and> (r = None \<or> r = leader_of S (bank_epoch_schedule b) sl) \<and>
    (max_epoch lc < e \<longrightarrow> r = None) \<and> (e \<le> max_epoch lc \<and> knows_epoch R c e b \<longrightarrow> r = leader_of S (bank_epoch_schedule b) sl \<and> r \<noteq> None)"
proof (cases "map_of (cached_schedules lc) e")
  case (Some ls)
  then have "S e = Some ls" "ls \<noteq> []" using assms(1,4) unfolding cache_inv_def by metis+
  then show ?thesis using assms Some
    by (auto simp: slot_leader_at_else_compute_def slot_leader_at_no_compute_def schedule_at_Ok leader_of_def)
next
  case None
  show ?thesis
  proof (cases "max_epoch lc < e")
    case True
    then show ?thesis using None assms
      by (auto simp: slot_leader_at_else_compute_def slot_leader_at_no_compute_def dest: leD)
  next
    case False
    obtain r lc' where r: "compute_epoch_schedule R c e b lc = (Ok (r, lc') :: (unit, pubkey list option \<times> leader_schedule_cache) res)"
      "cache_inv S lc'" "same_schedule lc lc'" "r = (if knows_epoch R c e b then S e else None)" "knows_epoch R c e b \<longrightarrow> r \<noteq> None"
      using compute_epoch_schedule_Ok [OF assms(1,2), of e] by blast
    have ne: "ls \<noteq> []" if "r = Some ls" for ls using that r(4) assms(4) by (auto split: if_splits)
    show ?thesis using None False assms(3,5) r ne
      by (cases r) (auto simp: slot_leader_at_else_compute_def slot_leader_at_no_compute_def schedule_at_Ok leader_of_def same_schedule_def
          split: if_splits)
  qed
qed

section \<open>The next slot to lead\<close>

definition unreceived :: "(u64 \<rightharpoonup> slot_meta) option \<Rightarrow> u64 \<Rightarrow> bool" where
  "unreceived pool sl \<longleftrightarrow> (\<forall>metas m. pool = Some metas \<longrightarrow> metas sl = Some m \<longrightarrow> sm_received m = 0)"

definition can_lead :: "pubkey \<Rightarrow> pubkey list \<Rightarrow> (u64 \<rightharpoonup> slot_meta) option \<Rightarrow> nat \<Rightarrow> nat \<Rightarrow> bool" where
  "can_lead me ls pool f k \<longleftrightarrow> ls ! (k mod length ls) = me \<and> unreceived pool (of_nat (f + k))"

lemma scan_epoch_step:
  assumes "ls \<noteq> []" "i < 2 ^ 64" "sl + 1 = of_nat (f + i)"
  shows "scan_epoch me ls pool (i # is) sl = (if can_lead me ls pool f i then Ok (True, sl + 1) else scan_epoch me ls pool is (sl + 1))"
proof -
  have "unat (of_nat i :: u64) = i" using assms(2) by (simp add: unat_of_nat)
  then show ?thesis using assms(1)
    by (auto simp: schedule_at_Ok can_lead_def unreceived_def assms(3) word_gt_0 Let_def split: option.split)
qed

lemma unat_of_nat_eqI: "unat (w :: u64) = n \<Longrightarrow> w = of_nat n"
  by (drule arg_cong [of _ _ "of_nat :: nat \<Rightarrow> u64"]) simp

definition none_before :: "pubkey \<Rightarrow> pubkey list \<Rightarrow> (u64 \<rightharpoonup> slot_meta) option \<Rightarrow> nat \<Rightarrow> nat \<Rightarrow> nat \<Rightarrow> bool" where
  "none_before me ls pool f i n \<longleftrightarrow> (\<forall>k. i \<le> k \<longrightarrow> k < n \<longrightarrow> \<not> can_lead me ls pool f k)"

lemma none_before_Suc: "none_before me ls pool f (Suc i) n \<Longrightarrow> \<not> can_lead me ls pool f i \<Longrightarrow> none_before me ls pool f i n"
  unfolding none_before_def by (metis le_less Suc_leI)

definition scan_done :: "pubkey \<Rightarrow> pubkey list \<Rightarrow> (u64 \<rightharpoonup> slot_meta) option \<Rightarrow> nat \<Rightarrow> nat \<Rightarrow> nat \<Rightarrow> (unit, bool \<times> u64) res \<Rightarrow> bool" where
  "scan_done me ls pool f i n r \<longleftrightarrow>
     (\<exists>sl'. r = Ok (False, sl') \<and> unat sl' + 1 = f + n \<and> none_before me ls pool f i n) \<or>
     (\<exists>j sl'. r = Ok (True, sl') \<and> i \<le> j \<and> j < n \<and> unat sl' = f + j \<and> can_lead me ls pool f j \<and> none_before me ls pool f i j)"

lemma scan_done_Suc:
  assumes "scan_done me ls pool f (Suc i) n r" "\<not> can_lead me ls pool f i"
  shows "scan_done me ls pool f i n r"
  using assms(1) unfolding scan_done_def
  by (elim disjE exE conjE) (use none_before_Suc [OF _ assms(2)] Suc_leD in blast)+

lemma scan_epoch_spec:
  assumes "ls \<noteq> []" "f + n \<le> 2 ^ 64"
  shows "i \<le> n \<Longrightarrow> unat sl + 1 = f + i \<Longrightarrow> scan_done me ls pool f i n (scan_epoch me ls pool [i..<n] sl)"
proof (induction "n - i" arbitrary: i sl)
  case 0
  then show ?case by (simp add: scan_done_def none_before_def)
next
  case (Suc d)
  have up: "[i..<n] = i # [Suc i..<n]" and d: "d = n - Suc i" "Suc i \<le> n" using Suc.hyps(2) by (simp_all add: upt_conv_Cons)
  have lt: "unat sl + 1 < 2 ^ 64" "i < 2 ^ 64" using Suc.prems(2) assms(2) d(2) by linarith+
  then have s: "unat (sl + 1) = f + i" using Suc.prems(2) by (simp add: unat_word_ariths)
  have sl: "sl + 1 = of_nat (f + i)" by (rule unat_of_nat_eqI [OF s])
  note step = scan_epoch_step [where 'a = unit, OF assms(1) lt(2) sl, of me pool "[Suc i..<n]", folded up]
  show ?case
  proof (cases "can_lead me ls pool f i")
    case True
    then show ?thesis unfolding step scan_done_def using s d(2)
      by (intro disjI2 exI [of _ i] exI [of _ "sl + 1"]) (simp add: none_before_def)
  next
    case False
    have "scan_done me ls pool f (Suc i) n (scan_epoch me ls pool [Suc i..<n] (sl + 1))"
      by (rule Suc.hyps(1) [OF d]) (simp add: s)
    from scan_done_Suc [OF this False] show ?thesis using step False by simp
  qed
qed

text \<open>The slots that the node can lead: it is the leader, and no blob of the slot has been received.\<close>

definition my_slot :: "pubkey \<Rightarrow> (u64 \<rightharpoonup> pubkey list) \<Rightarrow> epoch_schedule \<Rightarrow> (u64 \<rightharpoonup> slot_meta) option \<Rightarrow> u64 \<Rightarrow> bool" where
  "my_slot me S es pool sl \<longleftrightarrow> leader_of S es sl = Some me \<and> unreceived pool sl"

lemma my_slot_can_lead:
  assumes "sched_ok es p" "S e = Some ls" "unat sl = epoch_first p (unat (slots_per_epoch es)) (unat e) + k"
    "k < epoch_len p (unat (slots_per_epoch es)) (unat e)"
  shows "my_slot me S es pool sl \<longleftrightarrow> can_lead me ls pool (epoch_first p (unat (slots_per_epoch es)) (unat e)) k"
proof -
  obtain e' i where e': "get_epoch_and_slot_index es sl = (e', i)" by fastforce
  let ?F = "epoch_first p (unat (slots_per_epoch es))"
  have n: "unat sl = ?F (unat e') + unat i" "unat i < epoch_len p (unat (slots_per_epoch es)) (unat e')"
    using epoch_index_nat [OF assms(1) e'] by blast+
  have p: "5 \<le> p" using assms(1) by (simp add: sched_ok_def)
  have eq: "?F (unat e') + unat i = ?F (unat e) + k" by (rule trans [OF n(1) [symmetric] assms(3)])
  have "e' = e" "unat i = k" using epoch_unique [OF p eq n(2) assms(4)] by simp_all
  moreover have "of_nat (?F (unat e) + k) = sl" by (rule unat_of_nat_eqI [OF assms(3), symmetric])
  ultimately show ?thesis using assms(2) e' by (simp only: my_slot_def leader_of_def can_lead_def Let_def split_conv option.map option.inject)
qed

text \<open>No slot of the node from number \<open>l\<close> up to but excluding number \<open>u\<close>.\<close>

definition not_mine :: "pubkey \<Rightarrow> (u64 \<rightharpoonup> pubkey list) \<Rightarrow> epoch_schedule \<Rightarrow> (u64 \<rightharpoonup> slot_meta) option \<Rightarrow> nat \<Rightarrow> nat \<Rightarrow> bool" where
  "not_mine me S es pool l u \<longleftrightarrow> (\<forall>t. l \<le> unat t \<longrightarrow> unat t < u \<longrightarrow> \<not> my_slot me S es pool t)"

lemma not_mine_append: "not_mine me S es pool l m \<Longrightarrow> not_mine me S es pool m u \<Longrightarrow> not_mine me S es pool l u"
  unfolding not_mine_def using not_less by blast

lemma not_mine_epoch:
  assumes "sched_ok es p" "S e = Some ls" "f = epoch_first p (unat (slots_per_epoch es)) (unat e)"
    "none_before me ls pool f i n" "n \<le> epoch_len p (unat (slots_per_epoch es)) (unat e)"
  shows "not_mine me S es pool (f + i) (f + n)"
  unfolding not_mine_def
proof (intro allI impI)
  fix t :: u64 assume t: "f + i \<le> unat t" "unat t < f + n"
  then obtain k where k: "unat t = f + k" "i \<le> k" "k < n" 
    using that [of "unat t - f"] by linarith
  then have "\<not> can_lead me ls pool f k" using assms(4) by (simp add: none_before_def)
  then show "\<not> my_slot me S es pool t"
    using my_slot_can_lead [where S = S and e = e and sl = t, OF assms(1,2)] k assms(3,5) by simp
qed

definition next_leader_done ::
  "sampler \<Rightarrow> vote_state codec \<Rightarrow> (u64 \<rightharpoonup> pubkey list) \<Rightarrow> pubkey \<Rightarrow> bank \<Rightarrow> nat \<Rightarrow> (u64 \<rightharpoonup> slot_meta) option \<Rightarrow> nat \<Rightarrow> nat \<Rightarrow>
     (u64 option \<times> leader_schedule_cache) run \<Rightarrow> bool" where
  "next_leader_done R c S me b p pool e l r \<longleftrightarrow>
     (\<exists>lc'. r = Some (Ok (None, lc')) \<and> cache_inv S lc' \<and>
        (\<exists>m. e \<le> m \<and> m < 2 ^ 64 \<and> \<not> knows_epoch R c (of_nat m) b \<and>
           not_mine me S (bank_epoch_schedule b) pool l (epoch_first p (unat (slots_per_epoch (bank_epoch_schedule b))) m))) \<or>
     (\<exists>s lc'. r = Some (Ok (Some s, lc')) \<and> cache_inv S lc' \<and> l \<le> unat s \<and> my_slot me S (bank_epoch_schedule b) pool s \<and>
        not_mine me S (bank_epoch_schedule b) pool l (unat s))"

lemma next_leader_doneI:
  "cache_inv S lc' \<Longrightarrow> e \<le> m \<Longrightarrow> m < 2 ^ 64 \<Longrightarrow> \<not> knows_epoch R c (of_nat m) b \<Longrightarrow>
     not_mine me S (bank_epoch_schedule b) pool l (epoch_first p (unat (slots_per_epoch (bank_epoch_schedule b))) m) \<Longrightarrow>
     next_leader_done R c S me b p pool e l (Some (Ok (None, lc')))"
  "cache_inv S lc' \<Longrightarrow> l \<le> unat s \<Longrightarrow> my_slot me S (bank_epoch_schedule b) pool s \<Longrightarrow>
     not_mine me S (bank_epoch_schedule b) pool l (unat s) \<Longrightarrow> next_leader_done R c S me b p pool e l (Some (Ok (Some s, lc')))"
  unfolding next_leader_done_def by (rule disjI1, blast) (rule disjI2, blast)

lemma next_leader_done_extend:
  assumes "next_leader_done R c S me b p pool (Suc e) l' r" "not_mine me S (bank_epoch_schedule b) pool l l'" "l \<le> l'"
  shows "next_leader_done R c S me b p pool e l r"
proof -
  from assms(1) consider
    lc' m where "r = Some (Ok (None, lc'))" "cache_inv S lc'" "Suc e \<le> m" "m < 2 ^ 64" "\<not> knows_epoch R c (of_nat m) b"
      "not_mine me S (bank_epoch_schedule b) pool l' (epoch_first p (unat (slots_per_epoch (bank_epoch_schedule b))) m)"
  | s lc' where "r = Some (Ok (Some s, lc'))" "cache_inv S lc'" "l' \<le> unat s" "my_slot me S (bank_epoch_schedule b) pool s"
      "not_mine me S (bank_epoch_schedule b) pool l' (unat s)"
    unfolding next_leader_done_def by blast
  then show ?thesis
  proof cases
    case 1
    show ?thesis unfolding 1(1) by (rule next_leader_doneI(1) [OF 1(2) Suc_leD [OF 1(3)] 1(4,5) not_mine_append [OF assms(2) 1(6)]])
  next
    case 2
    show ?thesis unfolding 2(1) by (rule next_leader_doneI(2) [OF 2(2) order_trans [OF assms(3) 2(3)] 2(4) not_mine_append [OF assms(2) 2(5)]])
  qed
qed

lemma scan_epoch_mine:
  assumes "sched_ok es p" "S e = Some ls" "ls \<noteq> []" "F = epoch_first p (unat (slots_per_epoch es))" "F (Suc (unat e)) \<le> 2 ^ 64"
    "unat sl + 1 = F (unat e) + unat i" "unat i \<le> epoch_len p (unat (slots_per_epoch es)) (unat e)"
  obtains (more) sl' where "scan_epoch me ls pool [unat i..<unat (get_slots_in_epoch es e)] sl = (Ok (False, sl') :: (unit, bool \<times> u64) res)"
      "unat sl' + 1 = F (Suc (unat e))" "unat sl \<le> unat sl'" "not_mine me S es pool (unat sl + 1) (unat sl' + 1)"
  | (found) s where "scan_epoch me ls pool [unat i..<unat (get_slots_in_epoch es e)] sl = (Ok (True, s) :: (unit, bool \<times> u64) res)"
      "unat sl + 1 \<le> unat s" "my_slot me S es pool s" "not_mine me S es pool (unat sl + 1) (unat s)"
proof -
  let ?len = "epoch_len p (unat (slots_per_epoch es)) (unat e)"
  have FS: "F (Suc (unat e)) = F (unat e) + ?len" using assms(1,4) by (simp add: epoch_first_Suc sched_ok_def)
  have "scan_done me ls pool (F (unat e)) (unat i) ?len (scan_epoch me ls pool [unat i..<unat (get_slots_in_epoch es e)] sl)"
    unfolding get_slots_in_epoch_nat [OF assms(1)] by (rule scan_epoch_spec [OF assms(3) _ assms(7,6)]) (use FS assms(5) in simp)
  then consider
    sl' where "scan_epoch me ls pool [unat i..<unat (get_slots_in_epoch es e)] sl = (Ok (False, sl') :: (unit, bool \<times> u64) res)"
      "unat sl' + 1 = F (unat e) + ?len" "none_before me ls pool (F (unat e)) (unat i) ?len"
  | j sl' where "scan_epoch me ls pool [unat i..<unat (get_slots_in_epoch es e)] sl = (Ok (True, sl') :: (unit, bool \<times> u64) res)"
      "unat i \<le> j" "j < ?len" "unat sl' = F (unat e) + j" "can_lead me ls pool (F (unat e)) j"
      "none_before me ls pool (F (unat e)) (unat i) j"
    unfolding scan_done_def by blast
  then show ?thesis
  proof cases
    case 1
    have "not_mine me S es pool (unat sl + 1) (unat sl' + 1)"
      using not_mine_epoch [where S = S and e = e, OF assms(1,2) fun_cong [OF assms(4)] 1(3)] assms(6) 1(2) by simp
    moreover have "unat sl \<le> unat sl'" "unat sl' + 1 = F (Suc (unat e))" using 1(2) FS assms(6,7) by linarith+
    ultimately show ?thesis using more [OF 1(1)] by blast
  next
    case 2
    have "my_slot me S es pool sl'"
      using my_slot_can_lead [where S = S and e = e, OF assms(1,2) 2(4) [unfolded assms(4)] 2(3)] 2(5) by (simp add: assms(4))
    moreover have "not_mine me S es pool (unat sl + 1) (unat sl')"
      using not_mine_epoch [where S = S and e = e, OF assms(1,2) fun_cong [OF assms(4)] 2(6) less_imp_le [OF 2(3)]] assms(6) 2(4) by simp
    moreover have "unat sl + 1 \<le> unat sl'" using 2(2,4) assms(6) by linarith
    ultimately show ?thesis using found [OF 2(1)] by blast
  qed
qed

lemma next_leader_loop_spec:
  assumes "agrees R c S b" "sched_ok (bank_epoch_schedule b) p" "\<forall>e. S e \<noteq> Some []"
    "S (of_nat stop) = None" "stop < 2 ^ 64" "F = epoch_first p (unat (slots_per_epoch (bank_epoch_schedule b)))" "F stop \<le> 2 ^ 64"
  shows "unat e \<le> stop \<Longrightarrow> cache_inv S lc \<Longrightarrow> unat sl + 1 = F (unat e) + unat i \<Longrightarrow>
    unat i \<le> epoch_len p (unat (slots_per_epoch (bank_epoch_schedule b))) (unat e) \<Longrightarrow>
    next_leader_done R c S me b p pool (unat e) (unat sl + 1) (next_leader_loop R c me b pool e i sl lc)"
proof (induction "stop - unat e" arbitrary: e lc sl i rule: less_induct)
  case less
  let ?len = "epoch_len p (unat (slots_per_epoch (bank_epoch_schedule b)))"
  have p: "5 \<le> p" using assms(2) by (simp add: sched_ok_def)
  obtain r lc' where r: "get_epoch_schedule_else_compute R c e b lc = (Ok (r, lc') :: (unit, pubkey list option \<times> leader_schedule_cache) res)"
    "cache_inv S lc'" "r = None \<or> r = S e" "knows_epoch R c e b \<longrightarrow> r \<noteq> None"
    using get_epoch_schedule_Ok [OF less.prems(2) assms(1), of e] by blast
  show ?case
  proof (cases r)
    case None
    have lt: "unat e < 2 ^ 64" using less.prems(1) assms(5) by linarith
    have nm: "not_mine me S (bank_epoch_schedule b) pool (unat sl + 1) (F (unat e))" using less.prems(3) by (simp add: not_mine_def)
    have "\<not> knows_epoch R c (of_nat (unat e)) b" using r(4) None by simp
    from next_leader_doneI(1) [OF r(2) order_refl lt this nm [unfolded assms(6)]] show ?thesis
      using r(1) None by (subst next_leader_loop.simps) simp
  next
    case (Some ls)
    then have S: "S e = Some ls" and ne: "ls \<noteq> []" using r(3) assms(3) by auto
    have lt: "unat e < stop" using less.prems(1) S assms(4) by (metis le_neq_implies_less not_None_eq unat_of_nat_eqI)
    have le: "F (Suc (unat e)) \<le> 2 ^ 64" using epoch_first_mono [OF p Suc_leI [OF lt]] assms(7) unfolding assms(6) by (metis order_trans)
    show ?thesis
    proof (rule scan_epoch_mine [where S = S and e = e and F = F, OF assms(2) S ne assms(6) le less.prems(3,4), of me pool])
      fix sl' assume 1: "scan_epoch me ls pool [unat i..<unat (get_slots_in_epoch (bank_epoch_schedule b) e)] sl = (Ok (False, sl') :: (unit, bool \<times> u64) res)"
        "unat sl' + 1 = F (Suc (unat e))" "unat sl \<le> unat sl'" "not_mine me S (bank_epoch_schedule b) pool (unat sl + 1) (unat sl' + 1)"
      have e1: "unat (e + 1) = Suc (unat e)" using lt assms(5) by (simp add: unat_word_ariths)
      have "next_leader_done R c S me b p pool (unat (e + 1)) (unat sl' + 1) (next_leader_loop R c me b pool (e + 1) 0 sl' lc')"
        by (rule less.hyps) (use lt e1 r(2) 1(2) in simp_all)
      then have "next_leader_done R c S me b p pool (unat e) (unat sl + 1) (next_leader_loop R c me b pool (e + 1) 0 sl' lc')"
        unfolding e1 by (rule next_leader_done_extend) (use 1 in simp_all)
      then show ?thesis using r(1) Some 1(1) by (subst next_leader_loop.simps) simp
    next
      fix s assume 2: "scan_epoch me ls pool [unat i..<unat (get_slots_in_epoch (bank_epoch_schedule b) e)] sl = (Ok (True, s) :: (unit, bool \<times> u64) res)"
        "unat sl + 1 \<le> unat s" "my_slot me S (bank_epoch_schedule b) pool s" "not_mine me S (bank_epoch_schedule b) pool (unat sl + 1) (unat s)"
      show ?thesis using next_leader_doneI(2) [OF r(2) 2(2-4)] r(1) Some 2(1) by (subst next_leader_loop.simps) simp
    qed
  qed
qed

lemma next_leader_slot_done:
  assumes "cache_inv S lc" "agrees R c S b" "\<forall>e. S e \<noteq> Some []" "es = bank_epoch_schedule b" "sched_ok es p"
    "F = epoch_first p (unat (slots_per_epoch es))" "S (of_nat stop) = None" "stop < 2 ^ 64" "F stop \<le> 2 ^ 64" "unat sl + 1 < F stop"
  obtains e where "next_leader_done R c S me b p pool e (unat sl + 1) (next_leader_slot R c me sl b pool lc)"
    "unat sl + 1 < F e + epoch_len p (unat (slots_per_epoch es)) e"
proof -
  have p: "5 \<le> p" using assms(5) by (simp add: sched_ok_def)
  have sl1: "unat (sl + 1) = unat sl + 1" using assms(9,10) by (simp add: unat_word_ariths)
  obtain e i where ei: "get_epoch_and_slot_index es (sl + 1) = (e, i)" by fastforce
  note n = epoch_index_nat [OF assms(5) ei, folded assms(6), unfolded sl1]
  have "unat e \<le> stop"
  proof (rule ccontr)
    assume "\<not> unat e \<le> stop"
    then have "F stop \<le> F (unat e)" unfolding assms(6) by (intro epoch_first_mono [OF p]) simp
    then show False using n assms(10) by linarith
  qed
  then have "next_leader_done R c S me b p pool (unat e) (unat sl + 1) (next_leader_slot R c me sl b pool lc)"
    unfolding next_leader_slot_def assms(4) [symmetric] ei Let_def split_conv
    by (rule next_leader_loop_spec [where F = F, OF assms(2) assms(5) [unfolded assms(4)] assms(3,7,8) assms(6) [unfolded assms(4)] assms(9) _ assms(1)])
      (use n in \<open>simp_all add: assms(4)\<close>)
  moreover have "unat sl + 1 < F (unat e) + epoch_len p (unat (slots_per_epoch es)) (unat e)" using n by linarith
  ultimately show ?thesis by (rule that)
qed

lemma next_leader_slot_returns:
  assumes "cache_inv S lc" "agrees R c S b" "\<forall>e. S e \<noteq> Some []" "sched_ok (bank_epoch_schedule b) p"
    "S (of_nat stop) = None" "stop < 2 ^ 64" "epoch_first p (unat (slots_per_epoch (bank_epoch_schedule b))) stop \<le> 2 ^ 64"
    "unat sl + 1 < epoch_first p (unat (slots_per_epoch (bank_epoch_schedule b))) stop"
  shows "\<exists>r lc'. next_leader_slot R c me sl b pool lc = Some (Ok (r, lc')) \<and> cache_inv S lc'"
  using next_leader_slot_done [OF assms(1-3) refl assms(4) refl assms(5-8), of me pool] unfolding next_leader_done_def by metis

text \<open>
  C14: the search for the next slot to lead. For a bank that agrees with the cluster's schedule, when the schedule
  of some later epoch is not known yet and the slots before it are 64-bit numbers, the search returns; the slot it
  finds comes after the current one, is led by the node, has no blob received yet, and is the first such
  slot; when it finds none, no slot up to the first epoch unknown to the bank is such a slot.
\<close>

theorem next_leader_slot_spec:
  assumes "cache_inv S lc" "agrees R c S b" "\<forall>e. S e \<noteq> Some []" "es = bank_epoch_schedule b" "sched_ok es p"
    "F = epoch_first p (unat (slots_per_epoch es))" "S (of_nat stop) = None" "stop < 2 ^ 64" "F stop \<le> 2 ^ 64" "unat sl + 1 < F stop"
  shows "\<exists>r lc'. next_leader_slot R c me sl b pool lc = Some (Ok (r, lc')) \<and> cache_inv S lc' \<and>
    (case r of
       Some s \<Rightarrow> sl < s \<and> my_slot me S es pool s \<and> (\<forall>t. sl < t \<and> t < s \<longrightarrow> \<not> my_slot me S es pool t)
     | None \<Rightarrow> \<exists>m. \<not> knows_epoch R c (of_nat m) b \<and> unat sl + 1 < F (Suc m) \<and> (\<forall>t. sl < t \<and> unat t < F m \<longrightarrow> \<not> my_slot me S es pool t))"
proof -
  have p: "5 \<le> p" using assms(5) by (simp add: sched_ok_def)
  obtain e where d: "next_leader_done R c S me b p pool e (unat sl + 1) (next_leader_slot R c me sl b pool lc)"
    and n: "unat sl + 1 < F e + epoch_len p (unat (slots_per_epoch es)) e" using next_leader_slot_done [OF assms] by metis
  have Fm: "unat sl + 1 < F (Suc m)" if "e \<le> m" for m
  proof -
    have "F (Suc e) \<le> F (Suc m)" unfolding assms(6) by (intro epoch_first_mono [OF p]) (simp add: that)
    moreover have "F (Suc e) = F e + epoch_len p (unat (slots_per_epoch es)) e" unfolding assms(6) by (rule epoch_first_Suc [OF p])
    ultimately show ?thesis using n by linarith
  qed
  have nm: "not_mine me S es pool (unat sl + 1) u \<Longrightarrow> sl < t \<Longrightarrow> unat t < u \<Longrightarrow> \<not> my_slot me S es pool t" for t u
    by (simp add: not_mine_def word_less_nat_alt)
  from d consider
    lc' m where "next_leader_slot R c me sl b pool lc = Some (Ok (None, lc'))" "cache_inv S lc'" "e \<le> m" "\<not> knows_epoch R c (of_nat m) b"
      "not_mine me S es pool (unat sl + 1) (F m)"
  | s lc' where "next_leader_slot R c me sl b pool lc = Some (Ok (Some s, lc'))" "cache_inv S lc'" "unat sl + 1 \<le> unat s" "my_slot me S es pool s"
      "not_mine me S es pool (unat sl + 1) (unat s)"
    unfolding next_leader_done_def assms(4) [symmetric] assms(6) [symmetric] by blast
  then show ?thesis
  proof cases
    case 1
    then show ?thesis using Fm [OF 1(3)] nm [OF 1(5)] by (intro exI [of _ None] exI [of _ lc']) auto
  next
    case 2
    then show ?thesis using nm [OF 2(5)] by (intro exI [of _ "Some s"] exI [of _ lc']) (auto simp: word_less_nat_alt)
  qed
qed

section \<open>A cluster of one staked node\<close>

definition demo_sampler :: sampler where
  "demo_sampler =
     \<lparr>weights_ok = (\<lambda>ws. 0 < sum_list (map unat ws) \<and> sum_list (map unat ws) < 2 ^ 64),
      sample = (\<lambda>seed ws n. case position (\<lambda>w. 0 < w) ws of Some i \<Rightarrow> i | None \<Rightarrow> 0)\<rparr>"

lemma positive_position:
  assumes "0 < sum_list (map unat ws)"
  shows "\<exists>i. position (\<lambda>w. 0 < w) ws = Some i \<and> i < length ws \<and> 0 < (ws :: u64 list) ! i"
proof -
  have "\<exists>w \<in> set ws. 0 < w" using assms by (induction ws) (auto simp: word_less_nat_alt)
  then have "position (\<lambda>w. 0 < w) ws \<noteq> None" by (simp add: position_None)
  then obtain i where i: "position (\<lambda>w. 0 < w) ws = Some i" by blast
  show ?thesis using i position_Some [OF i] by blast
qed

lemma demo_sampler_ok: "sampler_ok demo_sampler"
  unfolding sampler_ok_def
proof (intro conjI allI impI)
  fix seed n ws assume "weights_ok demo_sampler ws"
  then obtain i where "position (\<lambda>w. 0 < w) ws = Some i" "i < length ws" "0 < ws ! i"
    using positive_position [of ws] by (auto simp: demo_sampler_def)
  then show "sample demo_sampler seed ws n < length ws" "0 < ws ! sample demo_sampler seed ws n" by (simp_all add: demo_sampler_def)
qed (simp add: demo_sampler_def)

definition demo_node_codec :: "vote_state codec" where
  "demo_node_codec = table_codec [vote_state_new (demo_key 7) (demo_key 1) 0, vote_state_new (demo_key 8) (demo_key 2) 0]"

definition demo_vote_account :: "u8 \<Rightarrow> u64 \<Rightarrow> pubkey \<times> u64 \<times> account" where
  "demo_vote_account n stake = (demo_key (n + 7), stake, \<lparr>difs = 1, reputations = 0, data = [n], owner = vote_program_id, executable = False\<rparr>)"

definition demo_epoch_bank :: "(pubkey \<times> u64 \<times> account) list \<Rightarrow> bank" where
  "demo_epoch_bank accs = demo_bank
     \<lparr>bank_epoch_schedule := \<lparr>slots_per_epoch = 32, stakers_slot_offset = 32, first_normal_epoch = 0, first_normal_slot = 0\<rparr>,
      bank_epoch_stakes := [0 \<mapsto> \<lparr>vote_accounts = accs, stake_accounts = []\<rparr>]\<rparr>"

theorem leader_schedule_deterministic_witness:
  "leader_schedule demo_sampler demo_node_codec 0 (demo_epoch_bank [demo_vote_account 0 5, demo_vote_account 1 7]) =
   (leader_schedule demo_sampler demo_node_codec 0 (demo_epoch_bank [demo_vote_account 1 7, demo_vote_account 0 5]) :: (unit, pubkey list option) res) \<and>
   staked_nodes_at_epoch demo_node_codec (demo_epoch_bank [demo_vote_account 0 5, demo_vote_account 1 7]) 0 = Some [(demo_key 1, 5), (demo_key 2, 7)]"
proof
  show "leader_schedule demo_sampler demo_node_codec 0 (demo_epoch_bank [demo_vote_account 0 5, demo_vote_account 1 7]) =
     (leader_schedule demo_sampler demo_node_codec 0 (demo_epoch_bank [demo_vote_account 1 7, demo_vote_account 0 5]) :: (unit, pubkey list option) res)"
    by (rule leader_schedule_deterministic) (simp_all add: demo_epoch_bank_def)
  show "staked_nodes_at_epoch demo_node_codec (demo_epoch_bank [demo_vote_account 0 5, demo_vote_account 1 7]) 0 = Some [(demo_key 1, 5), (demo_key 2, 7)]"
    by (simp add: staked_nodes_at_epoch_def epoch_vote_accounts_def demo_epoch_bank_def demo_vote_account_def to_vote_states_def
        List.map_filter_def to_staked_nodes_def add_stake_def vote_state_deserialize_def demo_node_codec_def vote_state_new_def demo_key_def)
qed

abbreviation demo_one_bank :: bank where
  "demo_one_bank \<equiv> demo_epoch_bank [demo_vote_account 0 5]"

lemma demo_one_stakes: "staked_nodes_at_epoch demo_node_codec demo_one_bank e = (if e = 0 then Some [(demo_key 1, 5)] else None)"
  by (simp add: staked_nodes_at_epoch_def epoch_vote_accounts_def demo_epoch_bank_def demo_vote_account_def to_vote_states_def
      List.map_filter_def to_staked_nodes_def add_stake_def vote_state_deserialize_def demo_node_codec_def vote_state_new_def demo_key_def)

theorem leader_schedule_spec_witness:
  "\<exists>ls. leader_schedule demo_sampler demo_node_codec 0 demo_one_bank = (Ok (Some ls) :: (unit, pubkey list option) res) \<and>
     length ls = 32 \<and> schedule_shape [(demo_key 1, 5)] ls"
proof -
  have "get_slots_in_epoch (bank_epoch_schedule demo_one_bank) 0 = 32" by (simp add: demo_epoch_bank_def get_slots_in_epoch_def)
  then show ?thesis
    using leader_schedule_spec [where 'e = unit, OF demo_sampler_ok, of demo_node_codec demo_one_bank 0] by (simp add: demo_one_stakes)
qed

definition demo_cluster :: "u64 \<rightharpoonup> pubkey list" where
  "demo_cluster = [0 \<mapsto> replicate 32 (demo_key 1)]"

lemma demo_one_schedule:
  "leader_schedule demo_sampler demo_node_codec e demo_one_bank = (Ok (demo_cluster e) :: ('e, pubkey list option) res)"
proof (cases "e = 0")
  case True
  have "weights_ok demo_sampler (map snd [(demo_key 1, 5 :: u64)])" by (simp add: demo_sampler_def)
  from leader_schedule_new_Ok [where 'a = 'e, OF demo_sampler_ok this, of NUM_CONSECUTIVE_LEADER_SLOTS "u64_bytes 0 @ replicate 24 0" 32]
  have "leader_schedule_new demo_sampler [(demo_key 1, 5)] (u64_bytes 0 @ replicate 24 0) 32 NUM_CONSECUTIVE_LEADER_SLOTS =
      (Ok (replicate 32 (demo_key 1)) :: ('e, pubkey list) res)"
    by (simp add: NUM_CONSECUTIVE_LEADER_SLOTS_def demo_sampler_def map_replicate_const)
  moreover have "get_slots_in_epoch (bank_epoch_schedule demo_one_bank) 0 = 32" by (simp add: demo_epoch_bank_def get_slots_in_epoch_def)
  ultimately show ?thesis by (simp add: True leader_schedule_def demo_one_stakes demo_cluster_def sort_stakes_def)
next
  case False
  then show ?thesis by (simp add: leader_schedule_def demo_one_stakes demo_cluster_def)
qed

lemma demo_cluster_props:
  "agrees demo_sampler demo_node_codec demo_cluster demo_one_bank" "\<forall>e. demo_cluster e \<noteq> Some []"
  "knows_epoch demo_sampler demo_node_codec e demo_one_bank \<longleftrightarrow> e = 0"
  "sched_ok (bank_epoch_schedule demo_one_bank) 5"
  "leader_of demo_cluster (bank_epoch_schedule demo_one_bank) 4 = Some (demo_key 1)"
  by (simp_all add: agrees_def knows_epoch_def demo_one_schedule)
    (simp_all add: demo_cluster_def demo_epoch_bank_def sched_ok_def leader_of_def get_epoch_and_slot_index_def)

theorem leader_cache_transparent_witness:
  "\<exists>lc'. slot_leader_at_else_compute demo_sampler demo_node_codec 4 demo_one_bank (cache_new_from_bank demo_one_bank) =
     (Ok (Some (demo_key 1), lc') :: (unit, pubkey option \<times> leader_schedule_cache) res)"
proof -
  let ?lc = "cache_new_from_bank demo_one_bank"
  have lc: "cache_inv demo_cluster ?lc" "cache_epoch_schedule ?lc = bank_epoch_schedule demo_one_bank" "max_epoch ?lc = 1"
    by (simp add: cache_new_from_bank_def cache_inv_new)
      (simp_all add: cache_new_from_bank_def leader_schedule_cache_new_def cache_set_root_def demo_epoch_bank_def get_stakers_epoch_def demo_bank_def)
  have "get_epoch_and_slot_index (bank_epoch_schedule demo_one_bank) 4 = (0, 4)"
    by (simp add: demo_epoch_bank_def get_epoch_and_slot_index_def)
  from leader_cache_transparent [OF lc(1) demo_cluster_props(1) lc(2) demo_cluster_props(2) this] show ?thesis
    by (simp add: demo_cluster_props lc(3)) blast
qed

theorem next_leader_slot_spec_witness:
  "\<exists>lc'. next_leader_slot demo_sampler demo_node_codec (demo_key 1) 3 demo_one_bank None (cache_new_from_bank demo_one_bank) =
     Some (Ok (Some 4, lc'))"
proof -
  let ?es = "bank_epoch_schedule demo_one_bank" and ?lc = "cache_new_from_bank demo_one_bank"
  have es: "slots_per_epoch ?es = 32" by (simp add: demo_epoch_bank_def)
  have S: "demo_cluster (of_nat 1) = None" by (simp add: demo_cluster_def)
  have inv: "cache_inv demo_cluster ?lc" by (simp add: cache_new_from_bank_def cache_inv_new)
  have mine: "my_slot (demo_key 1) demo_cluster ?es None 4" using demo_cluster_props(5) by (simp add: my_slot_def unreceived_def)
  have F: "epoch_first 5 32 1 = 32" by (simp add: epoch_first_def)
  have prems: "(1 :: nat) < 2 ^ 64" "epoch_first 5 32 1 \<le> 2 ^ 64" "unat (3 :: u64) + 1 < epoch_first 5 32 1" unfolding F by simp_all
  have spe: "unat (slots_per_epoch ?es) = 32" by (simp add: es)
  note spec = next_leader_slot_spec [OF inv demo_cluster_props(1,2) refl demo_cluster_props(4) refl S, unfolded spe, OF prems, of "demo_key 1" None]
  from spec obtain r lc' where r: "next_leader_slot demo_sampler demo_node_codec (demo_key 1) 3 demo_one_bank None ?lc = Some (Ok (r, lc'))"
    and c: "case r of Some s \<Rightarrow> 3 < s \<and> my_slot (demo_key 1) demo_cluster ?es None s \<and> (\<forall>t. 3 < t \<and> t < s \<longrightarrow> \<not> my_slot (demo_key 1) demo_cluster ?es None t)
     | None \<Rightarrow> \<exists>m. \<not> knows_epoch demo_sampler demo_node_codec (of_nat m) demo_one_bank \<and> unat (3 :: u64) + 1 < epoch_first 5 32 (Suc m) \<and>
         (\<forall>t. 3 < t \<and> unat t < epoch_first 5 32 m \<longrightarrow> \<not> my_slot (demo_key 1) demo_cluster ?es None t)" by blast
  have "r = Some 4"
  proof (cases r)
    case None
    then obtain m where m: "\<not> knows_epoch demo_sampler demo_node_codec (of_nat m) demo_one_bank"
      "\<forall>t. 3 < t \<and> unat t < epoch_first 5 32 m \<longrightarrow> \<not> my_slot (demo_key 1) demo_cluster ?es None t" using c by auto
    have "m \<noteq> 0"
    proof
      assume "m = 0"
      then have "(of_nat m :: u64) = 0" by simp
      then show False using m(1) by (simp only: demo_cluster_props(3))
    qed
    then have "32 \<le> epoch_first 5 32 m" using epoch_first_mono [of 5 1 m 32] F by simp
    then have "(3 :: u64) < 4" "unat (4 :: u64) < epoch_first 5 32 m" by simp_all
    then show ?thesis using m(2) mine by blast
  next
    case (Some s)
    then have s: "3 < s" "\<not> 4 < s" using c mine by auto
    then have "unat s = unat (4 :: u64)" by (simp add: word_less_nat_alt)
    then show ?thesis using Some by (simp only: unat_eq_unat_iff)
  qed
  then show ?thesis using r by blast
qed

end
