(* ===== verification/Water_Clock.thy ===== *)
theory Water_Clock
  imports Short_Vec
begin

text \<open>
  The proof of history of \<^verbatim>\<open>core/src/waterClock.rs\<close> and the entries of the ledger in
  \<^verbatim>\<open>core/src/entryInfo.rs\<close>: the hash chain with its counters, the creation of entries from
  transactions, the split into chunks that fit a blob, and the verification of a chain of entries.
  SHA-256 is the parameter \<open>sha\<close>.
\<close>

section \<open>The clock\<close>

record poh =
  poh_hash :: hash
  poh_num_hashes :: u64
  hashes_per_tick :: u64
  remaining_hashes :: u64

record poh_entry =
  pe_num_hashes :: u64
  pe_hash :: hash

definition poh_new :: "hash \<Rightarrow> u64 option \<Rightarrow> ('e, poh) res" where
  "poh_new h hpt =
     (let n = (case hpt of None \<Rightarrow> - 1 | Some n \<Rightarrow> n)
      in if n > 1 then Ok \<lparr>poh_hash = h, poh_num_hashes = 0, hashes_per_tick = n, remaining_hashes = n\<rparr> else Panic)"

definition poh_reset :: "hash \<Rightarrow> u64 option \<Rightarrow> poh \<Rightarrow> ('e, poh) res" where
  "poh_reset h hpt p = poh_new h hpt"

definition hash_once :: "(bytes \<Rightarrow> hash) \<Rightarrow> hash \<Rightarrow> hash" where
  "hash_once sha h = sha (hash_bytes h)"

definition poh_hash_upto :: "(bytes \<Rightarrow> hash) \<Rightarrow> u64 \<Rightarrow> poh \<Rightarrow> ('e, bool \<times> poh) res" where
  "poh_hash_upto sha max_num_hashes p =
     (let n = min (remaining_hashes p - 1) max_num_hashes;
          p' = p\<lparr>poh_hash := (hash_once sha ^^ unat n) (poh_hash p), poh_num_hashes := poh_num_hashes p + n,
                 remaining_hashes := remaining_hashes p - n\<rparr>
      in if remaining_hashes p' > 0 then Ok (remaining_hashes p' = 1, p') else Panic)"

definition poh_record :: "(bytes \<Rightarrow> hash) \<Rightarrow> hash \<Rightarrow> poh \<Rightarrow> poh_entry option \<times> poh" where
  "poh_record sha mixin p =
     (if remaining_hashes p = 1 then (None, p)
      else let h = sha (hash_bytes (poh_hash p) @ hash_bytes mixin); n = poh_num_hashes p + 1
           in (Some \<lparr>pe_num_hashes = n, pe_hash = h\<rparr>,
               p\<lparr>poh_hash := h, poh_num_hashes := 0, remaining_hashes := remaining_hashes p - 1\<rparr>))"

definition poh_tick :: "(bytes \<Rightarrow> hash) \<Rightarrow> poh \<Rightarrow> poh_entry option \<times> poh" where
  "poh_tick sha p =
     (let p' = p\<lparr>poh_hash := hash_once sha (poh_hash p), poh_num_hashes := poh_num_hashes p + 1,
                 remaining_hashes := remaining_hashes p - 1\<rparr>
      in if hashes_per_tick p' < - 1 \<and> remaining_hashes p' \<noteq> 0 then (None, p')
         else (Some \<lparr>pe_num_hashes = poh_num_hashes p', pe_hash = poh_hash p'\<rparr>,
               p'\<lparr>remaining_hashes := hashes_per_tick p', poh_num_hashes := 0\<rparr>))"

section \<open>Entries\<close>

record entry =
  e_num_hashes :: u64
  e_hash :: hash
  e_transactions :: "transaction list"

definition is_tick :: "entry \<Rightarrow> bool" where
  "is_tick e \<longleftrightarrow> e_transactions e = []"

definition hash_transactions :: "(bytes \<Rightarrow> hash) \<Rightarrow> transaction list \<Rightarrow> hash" where
  "hash_transactions sha txs =
     sha (concat (map (\<lambda>tx. case signatures tx of [] \<Rightarrow> [] | s # _ \<Rightarrow> signature_bytes s) txs))"

definition next_hash :: "(bytes \<Rightarrow> hash) \<Rightarrow> hash \<Rightarrow> u64 \<Rightarrow> transaction list \<Rightarrow> ('e, hash) res" where
  "next_hash sha start n txs =
     (if n = 0 \<and> txs = [] then Ok start
      else res_bind (poh_new start None) (\<lambda>p.
           res_bind (poh_hash_upto sha (if n = 0 then 0 else n - 1) p) (\<lambda>(_, p).
           res_bind (unwrap (fst (if txs = [] then poh_tick sha p else poh_record sha (hash_transactions sha txs) p)))
             (\<lambda>e. Ok (pe_hash e)))))"

text \<open>
  Sizes are those of the wire format: a vector of one empty entry takes a length of 8 bytes and the 48 bytes of
  its count, hash and empty vector.
\<close>

definition BLOB_SIZE :: nat where
  "BLOB_SIZE = 64 * 1024 - 128"

definition BLOB_HEADER_SIZE :: nat where
  "BLOB_HEADER_SIZE = (101 + 15) div 16 * 16"

definition BLOB_DATA_SIZE :: nat where
  "BLOB_DATA_SIZE = BLOB_SIZE - BLOB_HEADER_SIZE * 2"

definition serialized_to_blob_size :: "transaction list \<Rightarrow> ('e, nat) res" where
  "serialized_to_blob_size txs =
     res_bind (res_map (\<lambda>tx. unwrap (transaction_serialize tx)) txs) (\<lambda>bs. Ok (56 + sum_list (map length bs)))"

definition entry_new :: "(bytes \<Rightarrow> hash) \<Rightarrow> hash \<Rightarrow> u64 \<Rightarrow> transaction list \<Rightarrow> ('e, entry) res" where
  "entry_new sha prev n txs =
     res_bind (serialized_to_blob_size txs) (\<lambda>sz.
       if \<not> sz \<le> BLOB_DATA_SIZE then Panic
       else if n = 0 \<and> txs = [] then Ok \<lparr>e_num_hashes = 0, e_hash = prev, e_transactions = txs\<rparr>
       else if n = 0 then
         res_bind (next_hash sha prev 1 txs) (\<lambda>h. Ok \<lparr>e_num_hashes = 1, e_hash = h, e_transactions = txs\<rparr>)
       else res_bind (next_hash sha prev n txs) (\<lambda>h. Ok \<lparr>e_num_hashes = n, e_hash = h, e_transactions = txs\<rparr>))"

definition entry_new_mut :: "(bytes \<Rightarrow> hash) \<Rightarrow> transaction list \<Rightarrow> hash \<times> u64 \<Rightarrow> ('e, entry \<times> hash \<times> u64) res" where
  "entry_new_mut sha txs st =
     res_bind (serialized_to_blob_size txs) (\<lambda>sz.
       if \<not> sz \<le> BLOB_DATA_SIZE then Panic
       else res_bind (entry_new sha (fst st) (snd st) txs) (\<lambda>e. Ok (e, e_hash e, 0)))"

definition entry_verify :: "(bytes \<Rightarrow> hash) \<Rightarrow> entry \<Rightarrow> hash \<Rightarrow> ('e, bool) res" where
  "entry_verify sha e start =
     res_bind (next_hash sha start (e_num_hashes e) (e_transactions e)) (\<lambda>h. Ok (e_hash e = h))"

text \<open>All pairs of an entry and its predecessor are checked; the first one follows \<open>start\<close>.\<close>

definition entries_verify :: "(bytes \<Rightarrow> hash) \<Rightarrow> entry list \<Rightarrow> hash \<Rightarrow> ('e, bool) res" where
  "entries_verify sha es start =
     res_bind (res_map (\<lambda>(x0, x1). entry_verify sha x1 (e_hash x0))
       (zip (\<lparr>e_num_hashes = 0, e_hash = start, e_transactions = []\<rparr> # es) es)) (\<lambda>rs. Ok (list_all id rs))"

definition next_entry_mut :: "(bytes \<Rightarrow> hash) \<Rightarrow> u64 \<Rightarrow> transaction list \<Rightarrow> hash \<Rightarrow> ('e, entry \<times> hash) res" where
  "next_entry_mut sha n txs start = res_bind (entry_new sha start n txs) (\<lambda>e. Ok (e, e_hash e))"

fun create_ticks :: "(bytes \<Rightarrow> hash) \<Rightarrow> nat \<Rightarrow> hash \<Rightarrow> ('e, entry list) res" where
  "create_ticks sha 0 h = Ok []"
| "create_ticks sha (Suc n) h =
     res_bind (next_entry_mut sha 1 [] h) (\<lambda>(e, h'). res_bind (create_ticks sha n h') (\<lambda>es. Ok (e # es)))"

section \<open>Chunks\<close>

partial_function (option) num_will_fit_loop ::
  "('t list \<Rightarrow> nat) \<Rightarrow> nat \<Rightarrow> 't list \<Rightarrow> nat \<Rightarrow> nat \<Rightarrow> nat \<Rightarrow> nat option" where
  "num_will_fit_loop sz max_size xs num upper lower =
     (if sz (take num xs) \<le> max_size then
        (let next = (upper + num) div 2
         in if next = num then Some num else num_will_fit_loop sz max_size xs next upper num)
      else if num = 1 then Some 0
      else (let next = (lower + num) div 2
            in if next = num then Some num else num_will_fit_loop sz max_size xs next num lower))"

definition num_will_fit :: "('t list \<Rightarrow> nat) \<Rightarrow> nat \<Rightarrow> 't list \<Rightarrow> nat option" where
  "num_will_fit sz max_size xs =
     (if xs = [] then Some 0 else num_will_fit_loop sz max_size xs (length xs) (length xs) 1)"

text \<open>The converter of a chunk may keep a state, and panic.\<close>

partial_function (option) split_serializable_chunks ::
  "('t list \<Rightarrow> nat) \<Rightarrow> nat \<Rightarrow> ('t list \<Rightarrow> 's \<Rightarrow> ('e, 'r \<times> 's) res) \<Rightarrow> 't list \<Rightarrow> 's \<Rightarrow> ('e, 'r list \<times> 's) res option" where
  "split_serializable_chunks sz max_size conv xs st =
     (if xs = [] then Some (Ok ([], st))
      else Option.bind (num_will_fit sz max_size xs) (\<lambda>n.
        case conv (take n xs) st of
          Panic \<Rightarrow> Some Panic
        | Err e \<Rightarrow> Some (Err e)
        | Ok (r, st') \<Rightarrow>
            Option.bind (split_serializable_chunks sz max_size conv (drop n xs) st')
              (\<lambda>m. Some (res_bind m (\<lambda>(rs, st''). Ok (r # rs, st''))))))"

definition next_entries_mut ::
  "(bytes \<Rightarrow> hash) \<Rightarrow> transaction list \<Rightarrow> hash \<times> u64 \<Rightarrow> ('e, entry list \<times> hash \<times> u64) res option" where
  "next_entries_mut sha txs st =
     split_serializable_chunks (\<lambda>txs. case (serialized_to_blob_size txs :: (unit, nat) res) of Ok n \<Rightarrow> n | _ \<Rightarrow> 0) BLOB_DATA_SIZE
       (entry_new_mut sha) txs st"

definition next_entries :: "(bytes \<Rightarrow> hash) \<Rightarrow> hash \<Rightarrow> u64 \<Rightarrow> transaction list \<Rightarrow> ('e, entry list) res option" where
  "next_entries sha start n txs =
     Option.bind (next_entries_mut sha txs (start, n)) (\<lambda>m. Some (res_bind m (\<lambda>(es, _). Ok es)))"

section \<open>The clock keeps its counts\<close>

definition poh_ok :: "poh \<Rightarrow> bool" where
  "poh_ok p \<longleftrightarrow> 1 < hashes_per_tick p \<and> 0 < remaining_hashes p \<and>
     unat (poh_num_hashes p) + unat (remaining_hashes p) \<le> unat (hashes_per_tick p)"

lemma unat_u64_less: "unat (w :: u64) < 2 ^ 64"
proof -
  have "unat w < 2 ^ LENGTH(64)" by (rule unsigned_less)
  then show ?thesis by simp
qed

lemma poh_new_ok: "poh_new h hpt = Ok p \<Longrightarrow> poh_ok p \<and> poh_hash p = h \<and> poh_num_hashes p = 0 \<and> remaining_hashes p = hashes_per_tick p"
  by (auto simp: poh_new_def poh_ok_def Let_def word_less_nat_alt split: if_splits option.splits)

lemma poh_hash_upto_Ok:
  assumes "poh_ok p"
  shows "\<exists>n p'. poh_hash_upto sha m p = Ok (remaining_hashes p' = 1, p') \<and> poh_ok p' \<and> hashes_per_tick p' = hashes_per_tick p \<and>
    poh_hash p' = (hash_once sha ^^ n) (poh_hash p) \<and> n = min (unat (remaining_hashes p) - 1) (unat m) \<and>
    unat (poh_num_hashes p') = unat (poh_num_hashes p) + n \<and> unat (remaining_hashes p') + n = unat (remaining_hashes p)"
proof -
  let ?n = "min (remaining_hashes p - 1) m"
  have pos: "0 < unat (remaining_hashes p)" using assms by (simp add: poh_ok_def word_less_nat_alt)
  then have r1: "unat (remaining_hashes p - 1) = unat (remaining_hashes p) - 1" by (simp add: unat_sub_if')
  have n: "unat ?n = min (unat (remaining_hashes p) - 1) (unat m)" by (simp add: min_def word_le_nat_alt r1)
  have le: "?n \<le> remaining_hashes p" using n by (simp add: word_le_nat_alt)
  have rem: "unat (remaining_hashes p - ?n) + unat ?n = unat (remaining_hashes p)" using le by (simp add: unat_sub_le word_le_nat_alt)
  have "unat (poh_num_hashes p) + unat (remaining_hashes p) < 2 ^ 64"
    using assms unat_u64_less [of "hashes_per_tick p"] unfolding poh_ok_def by linarith
  then have num: "unat (poh_num_hashes p + ?n) = unat (poh_num_hashes p) + unat ?n" using n by (intro unat_plus_no_overflow) auto
  have pos': "0 < remaining_hashes p - ?n" using rem n pos by (simp add: word_less_nat_alt)
  let ?p = "p\<lparr>poh_hash := (hash_once sha ^^ unat ?n) (poh_hash p), poh_num_hashes := poh_num_hashes p + ?n,
    remaining_hashes := remaining_hashes p - ?n\<rparr>"
  have "poh_ok ?p" using assms num rem pos' by (simp add: poh_ok_def)
  moreover have "poh_hash_upto sha m p = Ok (remaining_hashes ?p = 1, ?p)" using pos' by (simp add: poh_hash_upto_def Let_def)
  ultimately show ?thesis using n num rem by (intro exI [of _ "unat ?n"] exI [of _ ?p]) simp
qed

lemma poh_num_Suc:
  assumes "poh_ok p"
  shows "unat (poh_num_hashes p + 1) = unat (poh_num_hashes p) + 1"
proof -
  have "unat (poh_num_hashes p) + unat (1 :: u64) < 2 ^ LENGTH(64)"
    using assms unat_u64_less [of "hashes_per_tick p"] by (simp add: poh_ok_def word_less_nat_alt)
  from unat_plus_no_overflow [OF this] show ?thesis by simp
qed

lemma poh_record_ok:
  assumes "poh_ok p" "poh_record sha mixin p = (r, p')"
  shows "poh_ok p' \<and> hashes_per_tick p' = hashes_per_tick p \<and>
    (r = None \<and> p' = p \<and> remaining_hashes p = 1 \<or>
     r = Some \<lparr>pe_num_hashes = poh_num_hashes p + 1, pe_hash = poh_hash p'\<rparr> \<and> poh_num_hashes p' = 0 \<and>
     poh_hash p' = sha (hash_bytes (poh_hash p) @ hash_bytes mixin) \<and>
     unat (poh_num_hashes p + 1) = unat (poh_num_hashes p) + 1 \<and> unat (remaining_hashes p') + 1 = unat (remaining_hashes p))"
proof (cases "remaining_hashes p = 1")
  case True
  then show ?thesis using assms by (auto simp: poh_record_def)
next
  case False
  then have r: "2 \<le> unat (remaining_hashes p)"
    using assms(1) by (auto simp: poh_ok_def word_less_nat_alt unat_eq_unat_iff [symmetric])
  then have "unat (remaining_hashes p - 1) = unat (remaining_hashes p) - 1" by (simp add: unat_sub_if')
  moreover note poh_num_Suc [OF assms(1)]
  ultimately show ?thesis
    using assms False r by (auto simp: poh_record_def poh_ok_def Let_def word_less_nat_alt)
qed

lemma poh_tick_ok:
  assumes "poh_ok p" "poh_tick sha p = (r, p')"
  shows "poh_hash p' = hash_once sha (poh_hash p) \<and> hashes_per_tick p' = hashes_per_tick p \<and>
    unat (poh_num_hashes p + 1) = unat (poh_num_hashes p) + 1 \<and>
    (r = None \<and> poh_ok p' \<and> poh_num_hashes p' = poh_num_hashes p + 1 \<and> unat (remaining_hashes p') + 1 = unat (remaining_hashes p) \<and>
       hashes_per_tick p \<noteq> - 1 \<and> remaining_hashes p \<noteq> 1 \<or>
     r = Some \<lparr>pe_num_hashes = poh_num_hashes p + 1, pe_hash = poh_hash p'\<rparr> \<and> poh_ok p' \<and> poh_num_hashes p' = 0 \<and>
       remaining_hashes p' = hashes_per_tick p \<and> (hashes_per_tick p = - 1 \<or> remaining_hashes p = 1))"
proof -
  have pos: "0 < unat (remaining_hashes p)" using assms(1) by (simp add: poh_ok_def word_less_nat_alt)
  then have r: "unat (remaining_hashes p - 1) = unat (remaining_hashes p) - 1" by (simp add: unat_sub_if')
  note n = poh_num_Suc [OF assms(1)]
  have z: "remaining_hashes p - 1 = 0 \<longleftrightarrow> remaining_hashes p = 1" by simp
  have m: "hashes_per_tick p < - 1 \<longleftrightarrow> hashes_per_tick p \<noteq> - 1" by (simp add: order_less_le)
  show ?thesis
  proof (cases "hashes_per_tick p = - 1 \<or> remaining_hashes p = 1")
    case True
    then show ?thesis using assms n by (auto simp: poh_tick_def Let_def z m poh_ok_def word_less_nat_alt)
  next
    case False
    then have "0 < remaining_hashes p - 1" by (simp add: word_gt_0)
    then show ?thesis using assms n False r pos by (auto simp: poh_tick_def Let_def z m poh_ok_def)
  qed
qed

section \<open>Entries form a chain\<close>

text \<open>The hash that \<open>n\<close> steps of the clock reach, the last of which mixes in the transactions.\<close>

definition chain_hash :: "(bytes \<Rightarrow> hash) \<Rightarrow> hash \<Rightarrow> nat \<Rightarrow> transaction list \<Rightarrow> hash" where
  "chain_hash sha start n txs =
     (if n = 0 \<and> txs = [] then start
      else let h = (hash_once sha ^^ (n - 1)) start
           in if txs = [] then hash_once sha h else sha (hash_bytes h @ hash_bytes (hash_transactions sha txs)))"

lemma next_hash_eq:
  assumes "n \<noteq> - 1 \<or> txs = []"
  shows "next_hash sha start n txs = Ok (chain_hash sha start (unat n) txs)"
proof (cases "n = 0 \<and> txs = []")
  case True
  then show ?thesis by (simp add: next_hash_def chain_hash_def)
next
  case False
  let ?p = "\<lparr>poh_hash = start, poh_num_hashes = 0, hashes_per_tick = - 1, remaining_hashes = - 1\<rparr>" and ?m = "if n = 0 then 0 else n - 1"
  have ok: "poh_ok ?p" by (simp add: poh_ok_def word_less_nat_alt unsigned_minus_1_eq_mask mask_eq_exp_minus_1)
  have m: "unat ?m = unat n - 1" by (simp add: unat_sub_if' unat_gt_0 Suc_leI)
  have max: "unat (- 1 :: u64) = 2 ^ 64 - 1" by (simp add: unsigned_minus_1_eq_mask mask_eq_exp_minus_1)
  obtain k p' where p': "poh_hash_upto sha ?m ?p = (Ok (remaining_hashes p' = 1, p') :: ('a, bool \<times> poh) res)" "poh_ok p'"
    "hashes_per_tick p' = - 1" "poh_hash p' = (hash_once sha ^^ k) start" "k = min (unat (- 1 :: u64) - 1) (unat ?m)"
    "unat (remaining_hashes p') + k = unat (- 1 :: u64)"
    using poh_hash_upto_Ok [OF ok, of sha ?m, where 'a = 'a] by auto
  have k: "k = unat n - 1" using p'(5) m unat_u64_less [of n] max by auto
  have rem: "remaining_hashes p' \<noteq> 1" if "txs \<noteq> []"
  proof
    assume "remaining_hashes p' = 1"
    then have "unat n = unat (- 1 :: u64)" using p'(6) k max by simp
    then show False using assms that by (simp add: unat_eq_unat_iff)
  qed
  have new: "poh_new start None = (Ok ?p :: ('a, poh) res)" by (simp add: poh_new_def word_less_nat_alt max Let_def)
  have "unat n = 0 \<longleftrightarrow> n = 0" by (simp add: unat_eq_zero)
  then show ?thesis
    using False rem p'(1,3,4) k
    by (auto simp: next_hash_def new poh_tick_def poh_record_def chain_hash_def Let_def hash_once_def)
qed

definition entry_follows :: "(bytes \<Rightarrow> hash) \<Rightarrow> hash \<Rightarrow> entry \<Rightarrow> bool" where
  "entry_follows sha start e \<longleftrightarrow>
     (e_num_hashes e \<noteq> - 1 \<or> is_tick e) \<and> e_hash e = chain_hash sha start (unat (e_num_hashes e)) (e_transactions e)"

fun chain_ok :: "(bytes \<Rightarrow> hash) \<Rightarrow> hash \<Rightarrow> entry list \<Rightarrow> bool" where
  "chain_ok sha start [] = True"
| "chain_ok sha start (e # es) = (entry_follows sha start e \<and> chain_ok sha (e_hash e) es)"

lemma entries_verify_Cons:
  "entries_verify sha (e # es) start = (Ok True :: ('e, bool) res) \<longleftrightarrow>
     entry_verify sha e start = (Ok True :: ('e, bool) res) \<and> entries_verify sha es (e_hash e) = (Ok True :: ('e, bool) res)"
proof -
  let ?f = "\<lambda>(x0, x1). entry_verify sha x1 (e_hash x0) :: ('e, bool) res"
  have "res_map ?f (zip (e # es) es) = res_map ?f (zip (\<lparr>e_num_hashes = 0, e_hash = e_hash e, e_transactions = []\<rparr> # es) es)"
    by (cases es) simp_all
  then show ?thesis by (fastforce simp: entries_verify_def)
qed

lemma entry_verify_follows: "entry_follows sha start e \<Longrightarrow> entry_verify sha e start = Ok True"
  by (simp add: entry_follows_def entry_verify_def next_hash_eq is_tick_def)

lemma entries_verify_chain: "chain_ok sha start es \<Longrightarrow> entries_verify sha es start = Ok True"
proof (induction es arbitrary: start)
  case (Cons e es)
  then show ?case by (simp add: entries_verify_Cons entry_verify_follows)
qed (simp add: entries_verify_def)

lemma chain_ok_append: "chain_ok sha start (es @ es') \<longleftrightarrow> chain_ok sha start es \<and> chain_ok sha (last (start # map e_hash es)) es'"
  by (induction es arbitrary: start) auto

text \<open>The clock stands \<open>poh_num_hashes\<close> steps after the hash of the last entry.\<close>

definition poh_at :: "(bytes \<Rightarrow> hash) \<Rightarrow> hash \<Rightarrow> poh \<Rightarrow> bool" where
  "poh_at sha h p \<longleftrightarrow> poh_ok p \<and> poh_hash p = (hash_once sha ^^ unat (poh_num_hashes p)) h"

lemma poh_at_new: "poh_new h hpt = Ok p \<Longrightarrow> poh_at sha h p"
  using poh_new_ok by (fastforce simp: poh_at_def)

lemma poh_at_upto:
  assumes "poh_at sha h p" "poh_hash_upto sha m p = Ok (b, p')"
  shows "poh_at sha h p'"
proof -
  from poh_hash_upto_Ok [where 'a = 'a, of p sha m] assms obtain k where
    k: "poh_ok p'" "poh_hash p' = (hash_once sha ^^ k) (poh_hash p)" "unat (poh_num_hashes p') = k + unat (poh_num_hashes p)"
    by (auto simp: poh_at_def)
  then show ?thesis using assms(1) by (simp add: poh_at_def funpow_add)
qed

lemma poh_at_tick:
  assumes "poh_at sha h p" "poh_tick sha p = (r, p')"
  shows "(case r of None \<Rightarrow> poh_at sha h p'
    | Some e \<Rightarrow> poh_at sha (pe_hash e) p' \<and> pe_hash e = chain_hash sha h (unat (pe_num_hashes e)) [] \<and> 0 < unat (pe_num_hashes e))"
  using poh_tick_ok [OF _ assms(2)] assms(1) by (auto simp: poh_at_def chain_hash_def)

lemma poh_at_record:
  assumes "poh_at sha h p" "poh_record sha (hash_transactions sha txs) p = (r, p')" "txs \<noteq> []"
  shows "(case r of None \<Rightarrow> p' = p \<and> remaining_hashes p = 1
    | Some e \<Rightarrow> poh_at sha (pe_hash e) p' \<and> pe_hash e = chain_hash sha h (unat (pe_num_hashes e)) txs \<and> pe_num_hashes e \<noteq> - 1)"
proof -
  have "unat (pe_num_hashes e) < unat (hashes_per_tick p)" if "r = Some e" for e
    using poh_record_ok [OF _ assms(2)] assms(1) that by (fastforce simp: poh_at_def poh_ok_def word_less_nat_alt)
  then have "pe_num_hashes e \<noteq> - 1" if "r = Some e" for e
    using that by (metis word_less_nat_alt word_n1_ge leD)
  then show ?thesis
    using poh_record_ok [OF _ assms(2)] assms(1,3) by (auto simp: poh_at_def chain_hash_def)
qed

section \<open>Chunks that fit\<close>

definition fit_spec :: "('t list \<Rightarrow> nat) \<Rightarrow> nat \<Rightarrow> 't list \<Rightarrow> nat \<Rightarrow> bool" where
  "fit_spec sz m xs n \<longleftrightarrow>
     n \<le> length xs \<and> (if n = 0 then xs = [] \<or> m < sz (take 1 xs)
       else sz (take n xs) \<le> m \<and> (n < length xs \<longrightarrow> m < sz (take (Suc n) xs)))"

lemma num_will_fit_loop_spec:
  assumes "1 \<le> lower" "lower \<le> num" "num \<le> upper" "upper \<le> length xs" "num = lower \<longrightarrow> upper \<le> lower + 1"
    "lower = 1 \<or> sz (take lower xs) \<le> m" "num = upper \<and> upper = length xs \<or> m < sz (take upper xs)"
  shows "\<exists>n. num_will_fit_loop sz m xs num upper lower = Some n \<and> fit_spec sz m xs n"
  using assms
proof (induction "upper - lower + (if num = upper then 1 else 0)" arbitrary: num upper lower rule: less_induct)
  case less
  show ?case
  proof (cases "sz (take num xs) \<le> m")
    case True
    let ?next = "(upper + num) div 2"
    show ?thesis
    proof (cases "?next = num")
      case eq: True
      then have "upper \<le> num + 1" using less.prems(3) by linarith
      then have "upper = num \<or> upper = Suc num" using less.prems(3) by linarith
      then have "fit_spec sz m xs num" using less.prems True by (auto simp: fit_spec_def)
      then show ?thesis using True eq by (subst num_will_fit_loop.simps) simp
    next
      case False
      then have "num < ?next" "?next < upper" "lower < num" using less.prems(2,3,5) by linarith+
      then have "\<exists>n. num_will_fit_loop sz m xs ?next upper num = Some n \<and> fit_spec sz m xs n"
        using less.prems True by (intro less.hyps) auto
      then show ?thesis using True False by (subst num_will_fit_loop.simps) (simp add: Let_def)
    qed
  next
    case nofit: False
    show ?thesis
    proof (cases "num = 1")
      case True
      then show ?thesis using nofit less.prems by (subst num_will_fit_loop.simps) (auto simp: fit_spec_def)
    next
      case False
      let ?next = "(lower + num) div 2"
      have "lower \<noteq> num" using nofit False less.prems(6) by auto
      then have "lower \<le> ?next" "?next < num" "?next = lower \<longrightarrow> num \<le> lower + 1" using less.prems(2) by linarith+
      then have "\<exists>n. num_will_fit_loop sz m xs ?next num lower = Some n \<and> fit_spec sz m xs n"
        using less.prems nofit by (intro less.hyps) auto
      then show ?thesis using nofit False \<open>?next < num\<close> by (subst num_will_fit_loop.simps) (simp add: Let_def)
    qed
  qed
qed

lemma num_will_fit_spec: "\<exists>n. num_will_fit sz m xs = Some n \<and> fit_spec sz m xs n"
proof (cases "xs = []")
  case True
  then show ?thesis by (simp add: num_will_fit_def fit_spec_def)
next
  case False
  then have "1 \<le> length xs" by (cases xs) simp_all
  then show ?thesis
    using False num_will_fit_loop_spec [of 1 "length xs" "length xs" xs sz m] by (simp add: num_will_fit_def)
qed

text \<open>
  The loop over the chunks, for a converter that succeeds on every chunk that fits and keeps \<open>I\<close>: the
  chunks are the input in order.
\<close>

definition conv_ok ::
  "('t list \<Rightarrow> nat) \<Rightarrow> nat \<Rightarrow> 't set \<Rightarrow> ('t list \<Rightarrow> 's \<Rightarrow> ('e, 'r \<times> 's) res) \<Rightarrow> ('s \<Rightarrow> bool) \<Rightarrow> ('t list \<Rightarrow> 's \<Rightarrow> 'r \<Rightarrow> 's \<Rightarrow> bool) \<Rightarrow> bool" where
  "conv_ok sz m X conv I Q \<longleftrightarrow>
     (\<forall>c st. c \<noteq> [] \<longrightarrow> set c \<subseteq> X \<longrightarrow> sz c \<le> m \<longrightarrow> I st \<longrightarrow> (\<exists>r st'. conv c st = Ok (r, st') \<and> Q c st r st' \<and> I st'))"

lemma split_chunks_spec:
  assumes one: "\<forall>x \<in> set xs. sz [x] \<le> m"
    and conv: "conv_ok sz m (set xs) conv I Q"
    and "I st"
  shows "\<exists>cs rs sts. split_serializable_chunks sz m conv xs st = Some (Ok (rs, last (st # sts))) \<and> concat cs = xs \<and>
    length cs = length rs \<and> length sts = length rs \<and> (\<forall>c \<in> set cs. c \<noteq> [] \<and> sz c \<le> m) \<and>
    (\<forall>i < length rs. Q (cs ! i) ((st # sts) ! i) (rs ! i) (sts ! i))"
  using assms
proof (induction "length xs" arbitrary: xs st rule: less_induct)
  case less
  show ?case
  proof (cases "xs = []")
    case True
    then show ?thesis by (subst split_serializable_chunks.simps) auto
  next
    case False
    obtain n where n: "num_will_fit sz m xs = Some n" "fit_spec sz m xs n" using num_will_fit_spec by blast
    have "n \<noteq> 0" using n(2) False less.prems(1) by (cases xs) (auto simp: fit_spec_def split: if_splits)
    then have c: "take n xs \<noteq> []" "set (take n xs) \<subseteq> set xs" "sz (take n xs) \<le> m"
      using False n(2) by (auto simp: fit_spec_def dest: in_set_takeD)
    obtain r st' where r: "conv (take n xs) st = Ok (r, st')" "Q (take n xs) st r st'" "I st'"
      using less.prems(2,3) c unfolding conv_ok_def by blast
    have sub: "set (drop n xs) \<subseteq> set xs" by (rule set_drop_subset)
    have short: "length (drop n xs) < length xs" using \<open>n \<noteq> 0\<close> False by simp
    have one': "\<forall>x \<in> set (drop n xs). sz [x] \<le> m" using less.prems(1) sub by blast
    have conv': "conv_ok sz m (set (drop n xs)) conv I Q" using less.prems(2) sub unfolding conv_ok_def by (meson order_trans)
    obtain cs rs sts where IH: "split_serializable_chunks sz m conv (drop n xs) st' = Some (Ok (rs, last (st' # sts)))" "concat cs = drop n xs"
      "length cs = length rs" "length sts = length rs" "\<forall>c \<in> set cs. c \<noteq> [] \<and> sz c \<le> m"
      "\<forall>i < length rs. Q (cs ! i) ((st' # sts) ! i) (rs ! i) (sts ! i)"
      using less.hyps [OF short one' conv' r(3)] by blast
    have "split_serializable_chunks sz m conv xs st = Some (Ok (r # rs, last (st # st' # sts)))"
      using False n(1) r(1) IH(1) by (subst split_serializable_chunks.simps) simp
    moreover have "\<forall>i < length (r # rs). Q ((take n xs # cs) ! i) ((st # st' # sts) ! i) ((r # rs) ! i) ((st' # sts) ! i)"
      using IH(6) r(2) by (auto simp: nth_Cons split: nat.split)
    ultimately show ?thesis
      using IH(2-5) c by (intro exI [of _ "take n xs # cs"] exI [of _ "r # rs"] exI [of _ "st' # sts"]) simp
  qed
qed

text \<open>An element that does not fit alone is never passed: the loop appends empty chunks for ever.\<close>

lemma split_chunks_diverges:
  fixes st :: 's
  assumes "(split_serializable_chunks sz m conv ys st :: ('e, 'r list \<times> 's) res option) = Some y"
  shows "(\<forall>st. \<exists>r st'. conv [] st = Ok (r, st')) \<longrightarrow> (\<forall>k. m < sz (take (Suc k) ys)) \<longrightarrow> ys \<noteq> [] \<longrightarrow> False"
proof (rule split_serializable_chunks.raw_induct [OF _ assms], intro impI)
  fix loop :: "('a list \<Rightarrow> nat) \<Rightarrow> nat \<Rightarrow> ('a list \<Rightarrow> 's \<Rightarrow> ('e, 'r \<times> 's) res) \<Rightarrow> 'a list \<Rightarrow> 's \<Rightarrow> ('e, 'r list \<times> 's) res option"
    and sz m conv ys st and y :: "('e, 'r list \<times> 's) res"
  assume IH: "\<And>sz m conv ys st y. loop sz m conv ys st = Some y \<Longrightarrow>
      (\<forall>st. \<exists>r st'. conv [] st = Ok (r, st')) \<longrightarrow> (\<forall>k. m < sz (take (Suc k) ys)) \<longrightarrow> ys \<noteq> [] \<longrightarrow> False"
    and body: "(if ys = [] then Some (Ok ([], st))
      else Option.bind (num_will_fit sz m ys) (\<lambda>n.
        case conv (take n ys) st of
          Ok (r, st') \<Rightarrow> Option.bind (loop sz m conv (drop n ys) st') (\<lambda>m. Some (res_bind m (\<lambda>(rs, st''). Ok (r # rs, st''))))
        | Err e \<Rightarrow> Some (Err e) | Panic \<Rightarrow> Some Panic)) = Some y"
    and h: "\<forall>st. \<exists>r st'. conv [] st = Ok (r, st')" "\<forall>k. m < sz (take (Suc k) ys)" "ys \<noteq> []"
  obtain n where n: "num_will_fit sz m ys = Some n" "fit_spec sz m ys n" using num_will_fit_spec by blast
  have "n = 0"
  proof (cases n)
    case (Suc k)
    then show ?thesis using n(2) h(2) [rule_format, of k] by (simp add: fit_spec_def)
  qed
  obtain r st' where r: "conv [] st = Ok (r, st')" using h(1) by blast
  with body n(1) \<open>n = 0\<close> h(3) have "\<exists>z. loop sz m conv ys st' = Some z" by (cases "loop sz m conv ys st'") auto
  then show False using IH h by blast
qed

text \<open>The chunks before an element that does not fit alone are converted; then the loop is stuck.\<close>

lemma split_chunks_stuck:
  fixes st :: 's and conv :: "'a list \<Rightarrow> 's \<Rightarrow> ('e, 'r \<times> 's) res"
  assumes mono: "\<And>ys y. set ys \<subseteq> S \<Longrightarrow> y \<in> set ys \<Longrightarrow> sz [y] \<le> sz ys"
    and empty: "\<forall>st. \<exists>r st'. conv [] st = Ok (r, st')"
    and "set xs \<subseteq> S" "x \<in> set xs" "m < sz [x]" "conv_ok sz m S conv I Q" "I st"
  shows "split_serializable_chunks sz m conv xs st = None"
  using assms(3,4,7)
proof (induction "length xs" arbitrary: xs st rule: less_induct)
  case less
  have ne: "xs \<noteq> []" using less.prems(2) by auto
  obtain n where n: "num_will_fit sz m xs = Some n" "fit_spec sz m xs n" using num_will_fit_spec by blast
  show ?case
  proof (cases "n = 0")
    case True
    obtain y ys where xs: "xs = y # ys" using ne by (cases xs) auto
    have "m < sz [y]" using n(2) True by (auto simp: fit_spec_def xs split: if_splits)
    moreover have "sz [y] \<le> sz (take (Suc k) xs)" for k
      by (rule mono) (use less.prems(1) in \<open>auto simp: xs dest: in_set_takeD\<close>)
    ultimately have "\<forall>k. m < sz (take (Suc k) xs)" using less_le_trans by blast
    then have "split_serializable_chunks sz m conv xs st \<noteq> Some y" for y
      using split_chunks_diverges [of sz m conv xs st y] empty ne by blast
    then show ?thesis by (cases "split_serializable_chunks sz m conv xs st") auto
  next
    case False
    have c: "take n xs \<noteq> []" "set (take n xs) \<subseteq> S" "sz (take n xs) \<le> m"
      using False ne n(2) less.prems(1) by (auto simp: fit_spec_def dest: in_set_takeD)
    have "x \<notin> set (take n xs)" using mono [OF c(2), of x] c(3) assms(5) by linarith
    then have x: "x \<in> set (drop n xs)" using less.prems(2) by (metis append_take_drop_id Un_iff set_append)
    obtain r st' where r: "conv (take n xs) st = Ok (r, st')" "I st'"
      using assms(6) less.prems(3) c unfolding conv_ok_def by blast
    have "set (drop n xs) \<subseteq> S" using less.prems(1) set_drop_subset [of n xs] by blast
    moreover have "length (drop n xs) < length xs" using False ne by simp
    ultimately have "split_serializable_chunks sz m conv (drop n xs) st' = None" using less.hyps x r(2) by blast
    then show ?thesis using ne n(1) r(1) by (subst split_serializable_chunks.simps) simp
  qed
qed

section \<open>Properties\<close>

text \<open>
  C5: the verification of entries. As long as no entry with transactions claims the largest possible
  number of hashes, the verification accepts a list of entries exactly when the hash of each is what the
  clock reaches from the hash of the one before it, after as many steps as the entry claims and with its
  transactions mixed in last.
\<close>

theorem entries_verify_iff:
  assumes "\<forall>e \<in> set es. e_num_hashes e \<noteq> - 1 \<or> is_tick e"
  shows "entries_verify sha es start = Ok (chain_ok sha start es)"
  using assms
proof (induction es arbitrary: start)
  case (Cons e es)
  let ?f = "\<lambda>(x0, x1). entry_verify sha x1 (e_hash x0) :: ('a, bool) res"
  let ?g = "\<lparr>e_num_hashes = 0, e_hash = e_hash e, e_transactions = []\<rparr>"
  have "res_map ?f (zip (e # es) es) = res_map ?f (zip (?g # es) es)" by (cases es) simp_all
  moreover obtain rs where "res_map ?f (zip (?g # es) es) = Ok rs" "list_all id rs = chain_ok sha (e_hash e) es"
    using Cons.IH [of "e_hash e"] Cons.prems by (auto simp: entries_verify_def)
  moreover have "entry_verify sha e start = (Ok (entry_follows sha start e) :: ('a, bool) res)"
    using Cons.prems by (auto simp: entry_verify_def entry_follows_def next_hash_eq is_tick_def)
  ultimately show ?case by (simp add: entries_verify_def)
qed (simp add: entries_verify_def)

abbreviation txs_size :: "transaction list \<Rightarrow> nat" where
  "txs_size txs \<equiv> (case (serialized_to_blob_size txs :: (unit, nat) res) of Ok n \<Rightarrow> n | _ \<Rightarrow> 0)"

lemma serialized_size_eq:
  assumes "\<forall>tx \<in> set txs. tx_ok tx"
  shows "serialized_to_blob_size txs = (Ok (56 + (\<Sum>tx \<leftarrow> txs. length (the (transaction_serialize tx)))) :: ('e, nat) res)"
proof -
  have "res_map (\<lambda>tx. unwrap (transaction_serialize tx)) txs = (Ok (map (\<lambda>tx. the (transaction_serialize tx)) txs) :: ('e, bytes list) res)"
    using assms by (induction txs) (use txw.dec_enc in \<open>fastforce+\<close>)
  then show ?thesis by (simp add: serialized_to_blob_size_def comp_def)
qed

lemma chain_hash_0: "chain_hash sha h 0 [] = h"
  by (simp add: chain_hash_def)

lemma entry_new_Ok:
  assumes "\<forall>tx \<in> set txs. tx_ok tx" "serialized_to_blob_size txs = (Ok k :: ('e, nat) res)" "k \<le> BLOB_DATA_SIZE" "n \<noteq> - 1 \<or> txs = []"
  shows "\<exists>e. entry_new_mut sha txs (h, n) = (Ok (e, e_hash e, 0) :: ('e, entry \<times> hash \<times> u64) res) \<and> e_transactions e = txs \<and> entry_follows sha h e"
proof -
  have "next_hash sha h n txs = (Ok (chain_hash sha h (unat n) txs) :: ('e, hash) res)" using assms(4) by (rule next_hash_eq)
  moreover have "next_hash sha h 1 txs = (Ok (chain_hash sha h 1 txs) :: ('e, hash) res)"
    using next_hash_eq [of 1 txs sha h, where 'a = 'e] by simp
  ultimately show ?thesis
    using assms(2-4) chain_hash_0 [of sha h]
    by (cases "n = 0"; cases "txs = []") (simp_all add: entry_new_mut_def entry_new_def entry_follows_def is_tick_def)
qed

text \<open>What the converter of transactions does with a chunk.\<close>

abbreviation entry_step :: "(bytes \<Rightarrow> hash) \<Rightarrow> transaction list \<Rightarrow> hash \<times> u64 \<Rightarrow> entry \<Rightarrow> hash \<times> u64 \<Rightarrow> bool" where
  "entry_step sha c st e st' \<equiv> e_transactions e = c \<and> entry_follows sha (fst st) e \<and> st' = (e_hash e, 0)"

lemma entry_conv_ok:
  assumes "\<forall>tx \<in> X. tx_ok tx"
  shows "conv_ok txs_size BLOB_DATA_SIZE X (entry_new_mut sha :: _ \<Rightarrow> _ \<Rightarrow> (unit, entry \<times> hash \<times> u64) res) (\<lambda>st. snd st \<noteq> - 1) (entry_step sha)"
  unfolding conv_ok_def
proof (intro allI impI)
  fix c and st :: "hash \<times> u64"
  assume c: "set c \<subseteq> X" "txs_size c \<le> BLOB_DATA_SIZE" "snd st \<noteq> - 1"
  have ok: "\<forall>tx \<in> set c. tx_ok tx" using assms c(1) by blast
  have "txs_size c = 56 + (\<Sum>tx \<leftarrow> c. length (the (transaction_serialize tx)))"
    by (simp only: serialized_size_eq [OF ok] res.case)
  with c(2) have le: "56 + (\<Sum>tx \<leftarrow> c. length (the (transaction_serialize tx))) \<le> BLOB_DATA_SIZE" by simp
  obtain e where "entry_new_mut sha c (fst st, snd st) = (Ok (e, e_hash e, 0) :: (unit, entry \<times> hash \<times> u64) res)"
    "e_transactions e = c" "entry_follows sha (fst st) e"
    using entry_new_Ok [OF ok serialized_size_eq [OF ok] le] c(3) by blast
  then show "\<exists>e st'. entry_new_mut sha c st = (Ok (e, st') :: (unit, entry \<times> hash \<times> u64) res) \<and> entry_step sha c st e st' \<and> snd st' \<noteq> - 1"
    by simp
qed

lemma entry_steps_chain:
  "length cs = length es \<Longrightarrow> length sts = length es \<Longrightarrow> \<forall>i < length es. entry_step sha (cs ! i) ((st # sts) ! i) (es ! i) (sts ! i) \<Longrightarrow>
     map e_transactions es = cs \<and> chain_ok sha (fst st) es"
proof (induction es arbitrary: cs sts st)
  case (Cons e es)
  obtain c cs' st' sts' where c: "cs = c # cs'" "sts = st' # sts'" using Cons.prems(1,2) by (cases cs; cases sts) auto
  have "entry_step sha (cs' ! i) ((st' # sts') ! i) (es ! i) (sts' ! i)" if "i < length es" for i
    using Cons.prems(3) [rule_format, of "Suc i"] that by (simp add: c)
  then have "map e_transactions es = cs' \<and> chain_ok sha (fst st') es" using Cons.IH [of cs' sts' st'] Cons.prems(1,2) c by simp
  moreover have "entry_step sha c st e st'" using Cons.prems(3) [rule_format, of 0] by (simp add: c)
  ultimately show ?case by (simp add: c)
qed simp

text \<open>
  C6: entries made from transactions. For transactions that can be serialized and each fit into a blob,
  creating entries returns, the entries hold the transactions in order, each fits into a blob, and the
  chain of entries passes the verification from the hash that it started at.
\<close>

theorem next_entries_verify:
  assumes "\<forall>tx \<in> set txs. tx_ok tx \<and> txs_size [tx] \<le> BLOB_DATA_SIZE" "n \<noteq> - 1"
  shows "\<exists>es. next_entries sha start n txs = Some (Ok es :: (unit, entry list) res) \<and> concat (map e_transactions es) = txs \<and>
    entries_verify sha es start = (Ok True :: (unit, bool) res) \<and>
    (\<forall>e \<in> set es. \<not> is_tick e \<and> txs_size (e_transactions e) \<le> BLOB_DATA_SIZE)"
proof -
  have one: "\<forall>tx \<in> set txs. txs_size [tx] \<le> BLOB_DATA_SIZE" and ok: "\<forall>tx \<in> set txs. tx_ok tx" using assms(1) by blast+
  have "snd (start, n) \<noteq> - 1" using assms(2) by simp
  from split_chunks_spec [OF one entry_conv_ok [OF ok, of sha] this] obtain cs es sts where
    r: "split_serializable_chunks txs_size BLOB_DATA_SIZE (entry_new_mut sha) txs (start, n) =
        Some (Ok (es, last ((start, n) # sts)) :: (unit, entry list \<times> hash \<times> u64) res)"
    and c: "concat cs = txs" "length cs = length es" "length sts = length es" "\<forall>c \<in> set cs. c \<noteq> [] \<and> txs_size c \<le> BLOB_DATA_SIZE"
    "\<forall>i < length es. entry_step sha (cs ! i) (((start, n) # sts) ! i) (es ! i) (sts ! i)" by blast
  have e: "map e_transactions es = cs" "chain_ok sha start es" using entry_steps_chain [OF c(2,3,5)] by simp_all
  have "next_entries sha start n txs = Some (Ok es :: (unit, entry list) res)"
    using r by (simp add: next_entries_def next_entries_mut_def split_def)
  moreover have "\<forall>e \<in> set es. \<not> is_tick e \<and> txs_size (e_transactions e) \<le> BLOB_DATA_SIZE"
    using c(4) e(1) by (auto simp: is_tick_def)
  ultimately show ?thesis using c(1) e entries_verify_chain by blast
qed

text \<open>
  C36: a transaction that is too large for a blob stops the ledger. When the transactions can be serialized, the clock has
  not counted the largest possible number of hashes and any one of the transactions, at whatever place in the list, is
  alone larger than the data of a blob, creating the entries never returns.
\<close>

theorem next_entries_diverges:
  assumes "\<forall>tx \<in> set txs. tx_ok tx" "t \<in> set txs" "BLOB_DATA_SIZE < txs_size [t]" "n \<noteq> - 1"
  shows "(next_entries sha start n txs :: (unit, entry list) res option) = None"
proof -
  have size: "txs_size ts = 56 + (\<Sum>tx \<leftarrow> ts. length (the (transaction_serialize tx)))" if "\<forall>tx \<in> set ts. tx_ok tx" for ts
    by (simp only: serialized_size_eq [OF that] res.case)
  have mono: "txs_size [y] \<le> txs_size ys" if "set ys \<subseteq> set txs" "y \<in> set ys" for ys y
  proof -
    have "\<forall>tx \<in> set ys. tx_ok tx" "\<forall>tx \<in> set [y]. tx_ok tx" using assms(1) that by auto
    then show ?thesis
      using size [of ys] size [of "[y]"] member_le_sum_list [of "length (the (transaction_serialize y))" "map (\<lambda>tx. length (the (transaction_serialize tx))) ys"] that(2)
      by simp
  qed
  have empty: "\<forall>st. \<exists>e st'. entry_new_mut sha [] st = (Ok (e, st') :: (unit, entry \<times> hash \<times> u64) res)"
  proof
    fix st :: "hash \<times> u64"
    show "\<exists>e st'. entry_new_mut sha [] st = (Ok (e, st') :: (unit, entry \<times> hash \<times> u64) res)"
      using entry_new_Ok [of "[]" 56 "snd st" sha "fst st", where 'e = unit]
      by (simp add: serialized_to_blob_size_def BLOB_DATA_SIZE_def BLOB_SIZE_def BLOB_HEADER_SIZE_def) blast
  qed
  have "snd (start, n) \<noteq> - 1" using assms(4) by simp
  from split_chunks_stuck [where sz = txs_size and S = "set txs" and x = t, OF mono empty subset_refl assms(2,3) entry_conv_ok [OF assms(1), of sha] this]
  show ?thesis by (simp add: next_entries_def next_entries_mut_def)
qed

text \<open>A hash function to run the clock on, and transactions of both sizes.\<close>

definition demo_sha :: "bytes \<Rightarrow> hash" where
  "demo_sha bs = Hash (replicate 32 (sum_list bs))"

definition big_tx :: transaction where
  "big_tx = \<lparr>signatures = [],
     tx_message = message_new_with_compiled_instructions 1 0 1 [demo_key 1, demo_key 2] default_hash
       [\<lparr>program_ids_index = 1, ci_accounts = [], ci_data = replicate 65500 7\<rparr>]\<rparr>"

theorem entries_verify_iff_witness:
  "entries_verify demo_sha [\<lparr>e_num_hashes = 2, e_hash = demo_sha [3], e_transactions = []\<rparr>] (Hash [3]) =
     (Ok (chain_ok demo_sha (Hash [3]) [\<lparr>e_num_hashes = 2, e_hash = demo_sha [3], e_transactions = []\<rparr>]) :: (unit, bool) res)"
  by (rule entries_verify_iff) (simp add: is_tick_def)

lemma wire_tx_size: "txs_size [wire_tx] \<le> BLOB_DATA_SIZE"
proof -
  have ok: "\<forall>tx \<in> set [wire_tx]. tx_ok tx" using wire_tx_ok by simp
  have "txs_size [wire_tx] = 56 + length (the (transaction_serialize wire_tx))" by (simp only: serialized_size_eq [OF ok] res.case) simp
  then show ?thesis using wire_tx_bytes by (auto simp: BLOB_DATA_SIZE_def BLOB_SIZE_def BLOB_HEADER_SIZE_def)
qed

theorem next_entries_verify_witness:
  "\<exists>es. next_entries demo_sha default_hash 3 [wire_tx, wire_tx] = Some (Ok es :: (unit, entry list) res) \<and>
     concat (map e_transactions es) = [wire_tx, wire_tx] \<and> entries_verify demo_sha es default_hash = (Ok True :: (unit, bool) res)"
proof -
  have "\<forall>tx \<in> set [wire_tx, wire_tx]. tx_ok tx \<and> txs_size [tx] \<le> BLOB_DATA_SIZE" using wire_tx_ok wire_tx_size by simp
  moreover have "(3 :: u64) \<noteq> - 1" by simp
  ultimately show ?thesis using next_entries_verify [of "[wire_tx, wire_tx]" 3 demo_sha default_hash] by blast
qed

lemma big_tx_ok: "tx_ok big_tx"
  by (simp add: big_tx_def tx_ok_def message_ok_def message_new_with_compiled_instructions_def demo_key_def default_hash_def ci_ok_def)

lemma instruction_size:
  assumes "transaction_serialize tx = Some bs" "instructions (tx_message tx) = [ci]"
  shows "length (ci_data ci) \<le> length bs"
proof -
  have "those (map u8_serialize xs) = Some (map (\<lambda>b. [b]) xs)" for xs
    by (induction xs) (simp_all add: u8_serialize_def)
  then show ?thesis
    using assms
    by (auto simp: transaction_serialize_def message_serialize_def append_opt_def short_vec_serialize_def compiled_instruction_serialize_def
        length_concat comp_def sum_list_triv split: option.splits if_splits)
qed

lemma big_tx_size: "BLOB_DATA_SIZE < txs_size [big_tx]"
proof -
  have ok: "\<forall>tx \<in> set [big_tx]. tx_ok tx" using big_tx_ok by simp
  obtain bs where bs: "transaction_serialize big_tx = Some bs" using txw.dec_enc [OF big_tx_ok] by blast
  have "65500 \<le> length bs" using instruction_size [OF bs] by (simp add: big_tx_def message_new_with_compiled_instructions_def)
  moreover have "txs_size [big_tx] = 56 + length bs" using bs by (simp only: serialized_size_eq [OF ok] res.case) simp
  ultimately show ?thesis by (simp add: BLOB_DATA_SIZE_def BLOB_SIZE_def BLOB_HEADER_SIZE_def)
qed

theorem next_entries_diverges_witness:
  "(next_entries demo_sha default_hash 3 [wire_tx, big_tx, wire_tx] :: (unit, entry list) res option) = None"
  by (rule next_entries_diverges [of _ big_tx]) (use big_tx_ok big_tx_size wire_tx_ok in simp_all)

end
