(* ===== verification/Clock_Recorder.thy ===== *)
theory Clock_Recorder
  imports Leader_Schedule Water_Clock
begin

text \<open>
  The recorder of \<^verbatim>\<open>core/src/waterClockRecorder.rs\<close>: it owns the water clock, caches the ticks until a
  working bank is set, registers them with the bank and sends ticks and recorded transactions to the ledger's
  channel. Banks are shared objects, so the recorder holds the address of its working bank in a map of banks. The
  channel is the list of the messages sent so far with a flag for a receiver that is still there. The signal that
  a bank was cleared is sent without looking at the result and is left out. The block buffer pool and the
  time are read through the environment.
\<close>

definition MAX_LAST_LEADER_GRACE_TICKS_FACTOR :: u64 where
  "MAX_LAST_LEADER_GRACE_TICKS_FACTOR = 2"

datatype recorder_error = InvalidCallingObject | MaxHeightReached | MinHeightNotReached | SendError

record working_bank =
  wb_bank :: nat
  min_tick_height :: u64
  max_tick_height :: u64

record recorder_env =
  re_sha :: "bytes \<Rightarrow> hash"
  re_sampler :: sampler
  re_vote_codec :: "vote_state codec"
  re_pool :: "u64 \<rightharpoonup> slot_meta"
  re_hashes_per_tick :: "u64 option"
  re_now :: u64

record recorder =
  rec_poh :: poh
  tick_height :: u64
  start_slot :: u64
  start_tick :: u64
  tick_cache :: "(entry \<times> u64) list"
  rec_working_bank :: "working_bank option"
  start_leader_at_tick :: "u64 option"
  last_leader_tick :: "u64 option"
  max_last_leader_grace_ticks :: u64
  rec_id :: pubkey
  rec_ticks_per_slot :: u64
  rec_cache :: leader_schedule_cache
  rec_banks :: "nat \<rightharpoonup> bank"
  rec_sent :: "(nat \<times> (entry \<times> u64) list) list"
  rec_connected :: bool

section \<open>Leader ticks\<close>

definition compute_leader_slot_ticks :: "u64 option \<Rightarrow> u64 \<Rightarrow> u64 \<Rightarrow> u64 option \<times> u64 option" where
  "compute_leader_slot_ticks next_slot ticks_per_slot grace_ticks =
     (case next_slot of
        None \<Rightarrow> (None, None)
      | Some s \<Rightarrow> (Some (s * ticks_per_slot + grace_ticks), Some ((s + 1) * ticks_per_slot - 1)))"

definition clear_bank :: "recorder_env \<Rightarrow> recorder \<Rightarrow> recorder run" where
  "clear_bank E r =
     (case rec_working_bank r of
        None \<Rightarrow> run_ok r
      | Some w \<Rightarrow>
          (case rec_banks r (wb_bank w) of
             None \<Rightarrow> None
           | Some b \<Rightarrow>
               run_bind (next_leader_slot (re_sampler E) (re_vote_codec E) (rec_id r) (bank_slot b) b (Some (re_pool E)) (rec_cache r))
                 (\<lambda>(n, lc). let (start, last) = compute_leader_slot_ticks n (bank_ticks_per_slot b) (max_last_leader_grace_ticks r)
                            in run_ok (r\<lparr>rec_working_bank := None, start_leader_at_tick := start, last_leader_tick := last, rec_cache := lc\<rparr>))))"

definition would_be_leader :: "recorder \<Rightarrow> u64 \<Rightarrow> bool" where
  "would_be_leader r within_next_n_ticks \<longleftrightarrow>
     rec_working_bank r \<noteq> None \<or>
     (case start_leader_at_tick r of
        None \<Rightarrow> False
      | Some leader_tick \<Rightarrow>
          let ideal = saturating_sub leader_tick (max_last_leader_grace_ticks r)
          in tick_height r \<le> (case last_leader_tick r of None \<Rightarrow> 0 | Some t \<Rightarrow> t) \<and>
             tick_height r \<ge> saturating_sub ideal within_next_n_ticks)"

definition next_slot_leader :: "recorder_env \<Rightarrow> recorder \<Rightarrow> ('e, pubkey option) res" where
  "next_slot_leader E r =
     res_bind (tick_height_to_slot (rec_ticks_per_slot r) (tick_height r)) (\<lambda>s.
     res_bind (cache_slot_leader_at (re_sampler E) (re_vote_codec E) (s + 1) None (rec_cache r)) (\<lambda>(k, _). Ok k))"

definition reached_leader_tick :: "recorder \<Rightarrow> bool \<times> u64" where
  "reached_leader_tick r =
     (case start_leader_at_tick r of
        None \<Rightarrow> (False, 0)
      | Some target \<Rightarrow>
          let ideal = saturating_sub target (max_last_leader_grace_ticks r)
          in if tick_height r \<le> (case last_leader_tick r of None \<Rightarrow> 0 | Some t \<Rightarrow> t) \<and>
                (tick_height r \<ge> target \<or> max_last_leader_grace_ticks r \<ge> saturating_sub target (start_tick r))
             then (True, saturating_sub (tick_height r) ideal)
             else (False, 0))"

section \<open>Banks and the channel\<close>

definition recorder_reset :: "recorder_env \<Rightarrow> u64 \<Rightarrow> hash \<Rightarrow> u64 \<Rightarrow> u64 option \<Rightarrow> u64 \<Rightarrow> recorder \<Rightarrow> recorder run" where
  "recorder_reset E height blockhash sl my_next_leader_slot ticks_per_slot r =
     run_bind (clear_bank E r) (\<lambda>r.
     run_bind (Some (poh_reset blockhash (re_hashes_per_tick E) (rec_poh r))) (\<lambda>p.
       let grace = ticks_per_slot div MAX_LAST_LEADER_GRACE_TICKS_FACTOR;
           (start, last) = compute_leader_slot_ticks my_next_leader_slot ticks_per_slot grace
       in run_ok (r\<lparr>rec_poh := p, tick_cache := [], start_slot := sl, start_tick := height + 1, tick_height := height,
                    max_last_leader_grace_ticks := grace, start_leader_at_tick := start, last_leader_tick := last,
                    rec_ticks_per_slot := ticks_per_slot\<rparr>)))"

definition set_working_bank :: "working_bank \<Rightarrow> recorder \<Rightarrow> recorder" where
  "set_working_bank w r = r\<lparr>rec_working_bank := Some w\<rparr>"

definition set_bank :: "nat \<Rightarrow> recorder \<Rightarrow> recorder option" where
  "set_bank i r =
     (case rec_banks r i of
        None \<Rightarrow> None
      | Some b \<Rightarrow>
          Some (set_working_bank
            \<lparr>wb_bank = i, min_tick_height = bank_tick_height b, max_tick_height = (bank_slot b + 1) * bank_ticks_per_slot b - 1\<rparr>
            (r\<lparr>rec_ticks_per_slot := bank_ticks_per_slot b\<rparr>)))"

fun register_ticks :: "u64 \<Rightarrow> (entry \<times> u64) list \<Rightarrow> bank \<Rightarrow> ('e, bank) res" where
  "register_ticks now [] b = Ok b"
| "register_ticks now (t # ts) b = res_bind (register_tick now (e_hash (fst t)) b) (register_ticks now ts)"

text \<open>Sending fails when the receiver is gone; nothing is sent when there is nothing to send.\<close>

definition send :: "nat \<Rightarrow> (entry \<times> u64) list \<Rightarrow> recorder \<Rightarrow> bool \<times> recorder" where
  "send i es r = (if rec_connected r then (True, r\<lparr>rec_sent := rec_sent r @ [(i, es)]\<rparr>) else (False, r))"

definition send_cached :: "working_bank \<Rightarrow> nat \<Rightarrow> bank \<Rightarrow> recorder \<Rightarrow> bool \<times> recorder" where
  "send_cached w entry_count b r =
     (if entry_count > 0
      then send (wb_bank w) (take entry_count (tick_cache r)) (r\<lparr>rec_banks := (rec_banks r)(wb_bank w \<mapsto> b)\<rparr>)
      else (True, r))"

definition finish_bank :: "recorder_env \<Rightarrow> working_bank \<Rightarrow> bank \<Rightarrow> recorder \<Rightarrow> recorder run" where
  "finish_bank E w b r =
     (if tick_height r \<ge> max_tick_height w then
        if bank_ticks_per_slot b = 0 then Some Panic
        else let s = max_tick_height w div bank_ticks_per_slot b
             in clear_bank E (r\<lparr>start_slot := s, start_tick := (s + 1) * bank_ticks_per_slot b\<rparr>)
      else run_ok r)"

definition flush_cache :: "recorder_env \<Rightarrow> bool \<Rightarrow> recorder \<Rightarrow> ((recorder_error + unit) \<times> recorder) run" where
  "flush_cache E tick r =
     (case rec_working_bank r of
        None \<Rightarrow> run_ok (Inl MaxHeightReached, r)
      | Some w \<Rightarrow>
          if tick_height r < min_tick_height w then run_ok (Inl MinHeightNotReached, r)
          else if tick \<and> tick_height r = min_tick_height w then run_ok (Inl MinHeightNotReached, r)
          else
            (case rec_banks r (wb_bank w) of
               None \<Rightarrow> None
             | Some b \<Rightarrow>
                 let entry_count = length (takeWhile (\<lambda>x. snd x \<le> max_tick_height w) (tick_cache r))
                 in run_bind (Some (register_ticks (re_now E) (take entry_count (tick_cache r)) b)) (\<lambda>b.
                    let (sent, r1) = send_cached w entry_count b r
                    in run_bind (finish_bank E w b r1) (\<lambda>r2.
                         if \<not> sent then run_bind (clear_bank E r2) (\<lambda>r3. run_ok (Inr (), r3))
                         else run_ok (Inr (), r2\<lparr>tick_cache := drop entry_count (tick_cache r2)\<rparr>)))))"

definition recorder_tick :: "recorder_env \<Rightarrow> recorder \<Rightarrow> recorder run" where
  "recorder_tick E r =
     (let (poh_entry, p) = poh_tick (re_sha E) (rec_poh r); r = r\<lparr>rec_poh := p\<rparr>
      in case poh_entry of
           None \<Rightarrow> run_ok r
         | Some pe \<Rightarrow>
             let r = r\<lparr>tick_height := tick_height r + 1\<rparr>
             in if start_leader_at_tick r = None then run_ok r
                else let e = \<lparr>e_num_hashes = pe_num_hashes pe, e_hash = pe_hash pe, e_transactions = []\<rparr>
                     in run_bind (flush_cache E True (r\<lparr>tick_cache := tick_cache r @ [(e, tick_height r)]\<rparr>)) (\<lambda>(_, r). run_ok r))"

partial_function (option) record_loop ::
  "recorder_env \<Rightarrow> u64 \<Rightarrow> hash \<Rightarrow> transaction list \<Rightarrow> recorder \<Rightarrow> (unit, (recorder_error + unit) \<times> recorder) res option" where
  "record_loop E sl mixin txs r =
     Option.bind (flush_cache E False r) (\<lambda>m.
       case m of
         Panic \<Rightarrow> Some Panic
       | Err e \<Rightarrow> Some (Err e)
       | Ok (res, r1) \<Rightarrow>
           (case res of
              Inl e \<Rightarrow> Some (Ok (Inl e, r1))
            | Inr _ \<Rightarrow>
                (case rec_working_bank r1 of
                   None \<Rightarrow> Some (Ok (Inl MaxHeightReached, r1))
                 | Some w \<Rightarrow>
                     (case rec_banks r1 (wb_bank w) of
                        None \<Rightarrow> None
                      | Some b \<Rightarrow>
                          if sl \<noteq> bank_slot b then Some (Ok (Inl MaxHeightReached, r1))
                          else
                            (case poh_record (re_sha E) mixin (rec_poh r1) of (poh_entry, p) \<Rightarrow>
                               (case poh_entry of
                                  Some pe \<Rightarrow>
                                    Some (Ok (case send (wb_bank w)
                                                [(\<lparr>e_num_hashes = pe_num_hashes pe, e_hash = pe_hash pe, e_transactions = txs\<rparr>, tick_height r1)]
                                                (r1\<lparr>rec_poh := p\<rparr>) of (ok, r2) \<Rightarrow> (if ok then Inr () else Inl SendError, r2)))
                                | None \<Rightarrow>
                                    Option.bind (recorder_tick E (r1\<lparr>rec_poh := p\<rparr>)) (\<lambda>m.
                                      case m of
                                        Panic \<Rightarrow> Some Panic
                                      | Err e \<Rightarrow> Some (Err e)
                                      | Ok r2 \<Rightarrow> record_loop E sl mixin txs r2)))))))"

definition recorder_record :: "recorder_env \<Rightarrow> u64 \<Rightarrow> hash \<Rightarrow> transaction list \<Rightarrow> recorder \<Rightarrow> ((recorder_error + unit) \<times> recorder) run" where
  "recorder_record E sl mixin txs r = (if txs = [] then Some Panic else record_loop E sl mixin txs r)"

definition recorder_new ::
  "recorder_env \<Rightarrow> u64 \<Rightarrow> hash \<Rightarrow> u64 \<Rightarrow> u64 option \<Rightarrow> u64 \<Rightarrow> pubkey \<Rightarrow> leader_schedule_cache \<Rightarrow> (nat \<rightharpoonup> bank) \<Rightarrow> ('e, recorder) res" where
  "recorder_new E height last_entry_hash sl my_leader_slot ticks_per_slot me lc banks =
     res_bind (poh_new last_entry_hash (re_hashes_per_tick E)) (\<lambda>p.
       let grace = ticks_per_slot div MAX_LAST_LEADER_GRACE_TICKS_FACTOR;
           (start, last) = compute_leader_slot_ticks my_leader_slot ticks_per_slot grace
       in Ok \<lparr>rec_poh = p, tick_height = height, start_slot = sl, start_tick = height + 1, tick_cache = [],
              rec_working_bank = None, start_leader_at_tick = start, last_leader_tick = last,
              max_last_leader_grace_ticks = grace, rec_id = me, rec_ticks_per_slot = ticks_per_slot, rec_cache = lc,
              rec_banks = banks, rec_sent = [], rec_connected = True\<rparr>)"

section \<open>The recorder never gets stuck\<close>

text \<open>
  A bank is ready when it agrees with the cluster's leader schedule \<open>S\<close> and the search for a leader slot after
  its own slot meets an epoch whose schedule is not known yet.
\<close>

definition bank_ready :: "recorder_env \<Rightarrow> (u64 \<rightharpoonup> pubkey list) \<Rightarrow> bank \<Rightarrow> bool" where
  "bank_ready E S b \<longleftrightarrow> bank_ticks_per_slot b \<noteq> 0 \<and> agrees (re_sampler E) (re_vote_codec E) S b \<and>
     (\<exists>p stop. sched_ok (bank_epoch_schedule b) p \<and> S (of_nat stop) = None \<and> stop < 2 ^ 64 \<and>
        epoch_first p (unat (slots_per_epoch (bank_epoch_schedule b))) stop \<le> 2 ^ 64 \<and>
        unat (bank_slot b) + 1 < epoch_first p (unat (slots_per_epoch (bank_epoch_schedule b))) stop)"

definition last_tick :: "bank \<Rightarrow> u64" where
  "last_tick b = (bank_slot b + 1) * bank_ticks_per_slot b - 1"

definition working_ok :: "(nat \<rightharpoonup> bank) \<Rightarrow> working_bank option \<Rightarrow> bool" where
  "working_ok banks wo \<longleftrightarrow>
     (\<forall>w. wo = Some w \<longrightarrow> (\<exists>b. banks (wb_bank w) = Some b \<and> max_tick_height w = last_tick b))"

definition rec_ready :: "recorder_env \<Rightarrow> (u64 \<rightharpoonup> pubkey list) \<Rightarrow> recorder \<Rightarrow> bool" where
  "rec_ready E S r \<longleftrightarrow> (\<forall>e. S e \<noteq> Some []) \<and> cache_inv S (rec_cache r) \<and> poh_ok (rec_poh r) \<and>
     (\<forall>i b. rec_banks r i = Some b \<longrightarrow> bank_ready E S b) \<and> working_ok (rec_banks r) (rec_working_bank r)"

text \<open>Registering ticks changes neither the slot of a bank nor its stakes.\<close>

definition same_slot :: "bank \<Rightarrow> bank \<Rightarrow> bool" where
  "same_slot b b' \<longleftrightarrow> bank_slot b' = bank_slot b \<and> bank_ticks_per_slot b' = bank_ticks_per_slot b \<and>
     bank_epoch_schedule b' = bank_epoch_schedule b \<and> bank_epoch_stakes b' = bank_epoch_stakes b"

lemma leader_schedule_same: "same_slot b b' \<Longrightarrow> leader_schedule R c e b' = leader_schedule R c e b"
  by (simp add: same_slot_def leader_schedule_def staked_nodes_at_epoch_def epoch_vote_accounts_def split: option.split)

lemma bank_ready_same: "same_slot b b' \<Longrightarrow> bank_ready E S b \<Longrightarrow> bank_ready E S b'"
  by (simp add: bank_ready_def agrees_def leader_schedule_same) (simp add: same_slot_def)

lemma same_slot_last_tick: "same_slot b b' \<Longrightarrow> last_tick b' = last_tick b"
  by (simp add: same_slot_def last_tick_def)

lemma register_tick_Ok: "bank_ticks_per_slot b \<noteq> 0 \<Longrightarrow> \<exists>b'. register_tick now h b = Ok b' \<and> same_slot b b'"
  by (cases "(bank_tick_height b + 1) mod bank_ticks_per_slot b = bank_ticks_per_slot b - 1")
    (simp_all add: register_tick_def Let_def same_slot_def)

lemma register_ticks_Ok:
  "bank_ticks_per_slot b \<noteq> 0 \<Longrightarrow> \<exists>b'. register_ticks now ts b = Ok b' \<and> same_slot b b'"
proof (induction ts arbitrary: b)
  case (Cons t ts)
  obtain b1 where b1: "register_tick now (e_hash (fst t)) b = (Ok b1 :: ('a, bank) res)" "same_slot b b1"
    using register_tick_Ok [OF Cons.prems] by blast
  then obtain b' where "register_ticks now ts b1 = (Ok b' :: ('a, bank) res)" "same_slot b1 b'"
    using Cons.IH [of b1] Cons.prems by (auto simp: same_slot_def)
  then show ?case using b1 by (auto simp: same_slot_def)
qed (simp add: same_slot_def)

text \<open>What clearing the bank leaves alone.\<close>

definition same_log :: "recorder \<Rightarrow> recorder \<Rightarrow> bool" where
  "same_log r r' \<longleftrightarrow> rec_poh r' = rec_poh r \<and> tick_height r' = tick_height r \<and> tick_cache r' = tick_cache r \<and>
     rec_sent r' = rec_sent r \<and> rec_connected r' = rec_connected r \<and> rec_banks r' = rec_banks r"

lemma clear_bank_Ok:
  assumes "rec_ready E S r"
  shows "\<exists>r'. clear_bank E r = run_ok r' \<and> rec_ready E S r' \<and> rec_working_bank r' = None \<and> same_log r r'"
proof (cases "rec_working_bank r")
  case None
  then show ?thesis using assms by (intro exI [of _ r]) (simp add: clear_bank_def same_log_def)
next
  case (Some w)
  then obtain b where b: "rec_banks r (wb_bank w) = Some b" "bank_ready E S b" using assms by (auto simp: rec_ready_def working_ok_def)
  obtain n lc where n: "next_leader_slot (re_sampler E) (re_vote_codec E) (rec_id r) (bank_slot b) b (Some (re_pool E)) (rec_cache r) = Some (Ok (n, lc))"
    "cache_inv S lc"
    using b(2) assms next_leader_slot_returns [where S = S and b = b and lc = "rec_cache r"] unfolding bank_ready_def rec_ready_def by metis
  obtain st la where "compute_leader_slot_ticks n (bank_ticks_per_slot b) (max_last_leader_grace_ticks r) = (st, la)" by fastforce
  then have "clear_bank E r = run_ok (r\<lparr>rec_working_bank := None, start_leader_at_tick := st, last_leader_tick := la, rec_cache := lc\<rparr>)"
    using Some b(1) n(1) by (simp add: clear_bank_def run_bind_def)
  then show ?thesis using assms n(2) by (auto simp: rec_ready_def same_log_def working_ok_def)
qed

definition slot_key :: "bank \<Rightarrow> u64 \<times> u64 \<times> epoch_schedule \<times> (u64 \<rightharpoonup> stakes)" where
  "slot_key b = (bank_slot b, bank_ticks_per_slot b, bank_epoch_schedule b, bank_epoch_stakes b)"

definition same_banks :: "(nat \<rightharpoonup> bank) \<Rightarrow> (nat \<rightharpoonup> bank) \<Rightarrow> bool" where
  "same_banks m m' \<longleftrightarrow> (\<forall>i. map_option slot_key (m' i) = map_option slot_key (m i))"

lemma same_slot_key: "same_slot b b' \<longleftrightarrow> slot_key b' = slot_key b"
  by (simp add: same_slot_def slot_key_def)

lemma same_banks_refl [simp]: "same_banks m m"
  by (simp add: same_banks_def)

lemma same_banks_trans: "same_banks m m1 \<Longrightarrow> same_banks m1 m2 \<Longrightarrow> same_banks m m2"
  by (simp add: same_banks_def)

lemma same_banks_upd: "m i = Some b \<Longrightarrow> same_slot b b' \<Longrightarrow> same_banks m (m(i \<mapsto> b'))"
  by (simp add: same_banks_def same_slot_key)

lemma same_banks_Some:
  assumes "same_banks m m'" "m i = Some b"
  shows "\<exists>b'. m' i = Some b' \<and> same_slot b b'"
proof -
  have "map_option slot_key (m' i) = Some (slot_key b)" using assms by (simp add: same_banks_def)
  then show ?thesis by (auto simp: same_slot_key)
qed

lemma same_banks_sym: "same_banks m m' \<Longrightarrow> same_banks m' m"
  by (simp add: same_banks_def)

definition flushed :: "recorder \<Rightarrow> recorder_error + unit \<Rightarrow> recorder \<Rightarrow> bool" where
  "flushed r res r' \<longleftrightarrow>
     rec_poh r' = rec_poh r \<and> tick_height r' = tick_height r \<and> rec_connected r' = rec_connected r \<and> same_banks (rec_banks r) (rec_banks r') \<and>
     (case res of
        Inl e \<Rightarrow> r' = r
      | Inr _ \<Rightarrow> \<exists>w n. rec_working_bank r = Some w \<and> min_tick_height w \<le> tick_height r \<and>
          n = length (takeWhile (\<lambda>x. snd x \<le> max_tick_height w) (tick_cache r)) \<and>
          (rec_connected r \<longrightarrow> tick_cache r' = drop n (tick_cache r) \<and>
             rec_sent r' = rec_sent r @ (if n = 0 then [] else [(wb_bank w, take n (tick_cache r))])) \<and>
          (\<forall>w'. rec_working_bank r' = Some w' \<longrightarrow> w' = w \<and> tick_height r < max_tick_height w \<and> start_leader_at_tick r' = start_leader_at_tick r))"

lemma rec_ready_banks:
  assumes "rec_ready E S r" "rec_banks r i = Some b" "same_slot b b'"
  shows "rec_ready E S (r\<lparr>rec_banks := (rec_banks r)(i \<mapsto> b')\<rparr>)"
  using assms bank_ready_same [OF assms(3)] same_slot_last_tick [OF assms(3)]
  by (fastforce simp: rec_ready_def working_ok_def)

lemma rec_ready_fields [simp]:
  "rec_ready E S (r\<lparr>rec_sent := x\<rparr>) = rec_ready E S r" "rec_ready E S (r\<lparr>tick_cache := y\<rparr>) = rec_ready E S r"
  "rec_ready E S (r\<lparr>start_slot := z, start_tick := t\<rparr>) = rec_ready E S r" "rec_ready E S (r\<lparr>tick_height := h\<rparr>) = rec_ready E S r"
  by (simp_all add: rec_ready_def)

lemma finish_bank_Ok:
  assumes "rec_ready E S r" "bank_ticks_per_slot b \<noteq> 0"
  shows "\<exists>r'. finish_bank E w b r = run_ok r' \<and> rec_ready E S r' \<and> same_log r r' \<and>
    (rec_working_bank r' = None \<or> r' = r \<and> tick_height r < max_tick_height w)"
proof (cases "tick_height r \<ge> max_tick_height w")
  case True
  let ?s = "max_tick_height w div bank_ticks_per_slot b"
  have "rec_ready E S (r\<lparr>start_slot := ?s, start_tick := (?s + 1) * bank_ticks_per_slot b\<rparr>)" using assms(1) by simp
  from clear_bank_Ok [OF this] True assms(2) show ?thesis by (auto simp: finish_bank_def Let_def same_log_def)
next
  case False
  moreover from False have "tick_height r < max_tick_height w" by (simp only: not_le)
  ultimately show ?thesis using assms(1) by (intro exI [of _ r]) (simp add: finish_bank_def same_log_def)
qed

lemma send_cached_Ok:
  assumes "rec_ready E S r" "rec_banks r (wb_bank w) = Some b" "same_slot b b'" "send_cached w n b' r = (sent, r1)"
  shows "rec_ready E S r1 \<and> rec_poh r1 = rec_poh r \<and> tick_height r1 = tick_height r \<and> rec_connected r1 = rec_connected r \<and>
    same_banks (rec_banks r) (rec_banks r1) \<and> rec_working_bank r1 = rec_working_bank r \<and> tick_cache r1 = tick_cache r \<and>
    start_leader_at_tick r1 = start_leader_at_tick r \<and>
    (rec_connected r \<longrightarrow> sent \<and> rec_sent r1 = rec_sent r @ (if n = 0 then [] else [(wb_bank w, take n (tick_cache r))]))"
  using assms rec_ready_banks [OF assms(1-3)] same_banks_upd [of "rec_banks r" "wb_bank w" b b', OF assms(2,3)]
  by (auto simp: send_cached_def send_def split: if_splits)

lemma flush_cache_Ok:
  assumes "rec_ready E S r"
  shows "\<exists>res r'. flush_cache E tick r = run_ok (res, r') \<and> rec_ready E S r' \<and> flushed r res r'"
proof -
  have err: "\<exists>res r'. run_ok (Inl e, r) = run_ok (res, r') \<and> rec_ready E S r' \<and> flushed r res r'" for e
    using assms by (intro exI [of _ "Inl e"] exI [of _ r]) (simp add: flushed_def)
  show ?thesis
  proof (cases "rec_working_bank r")
    case None
    then show ?thesis using err by (simp add: flush_cache_def)
  next
    case (Some w)
    show ?thesis
    proof (cases "tick_height r < min_tick_height w \<or> tick \<and> tick_height r = min_tick_height w")
      case True
      then show ?thesis using err Some by (auto simp: flush_cache_def)
    next
      case False
      then have nf: "\<not> tick_height r < min_tick_height w" "\<not> (tick \<and> tick_height r = min_tick_height w)" by simp_all
      let ?n = "length (takeWhile (\<lambda>x. snd x \<le> max_tick_height w) (tick_cache r))"
      obtain b where b: "rec_banks r (wb_bank w) = Some b" "bank_ready E S b" using assms Some by (auto simp: rec_ready_def working_ok_def)
      then obtain b' where b': "register_ticks (re_now E) (take ?n (tick_cache r)) b = (Ok b' :: (unit, bank) res)" "same_slot b b'"
        using register_ticks_Ok unfolding bank_ready_def by blast
      obtain sent r1 where s: "send_cached w ?n b' r = (sent, r1)" by fastforce
      note r1 = send_cached_Ok [OF assms b(1) b'(2) s]
      have tps: "bank_ticks_per_slot b' \<noteq> 0" using b(2) b'(2) by (simp add: bank_ready_def same_slot_def)
      obtain r2 where r2: "finish_bank E w b' r1 = run_ok r2" "rec_ready E S r2" "same_log r1 r2"
        "rec_working_bank r2 = None \<or> r2 = r1 \<and> tick_height r1 < max_tick_height w"
        using finish_bank_Ok [of E S r1 b' w] r1 tps by blast
      obtain r3 where r3: "clear_bank E r2 = run_ok r3" "rec_ready E S r3" "rec_working_bank r3 = None" "same_log r2 r3"
        using clear_bank_Ok [OF r2(2)] by blast
      have "flush_cache E tick r = run_ok (Inr (), if sent then r2\<lparr>tick_cache := drop ?n (tick_cache r2)\<rparr> else r3)"
        using Some nf b(1) b'(1) s r2(1) r3(1) by (auto simp: flush_cache_def Let_def)
      moreover have "flushed r (Inr ()) (if sent then r2\<lparr>tick_cache := drop ?n (tick_cache r2)\<rparr> else r3)"
        using False Some r1 r2(3,4) r3(3,4) by (auto simp: flushed_def same_log_def not_less)
      moreover have "rec_ready E S (if sent then r2\<lparr>tick_cache := drop ?n (tick_cache r2)\<rparr> else r3)" using r2(2) r3(2) by simp
      ultimately show ?thesis by blast
    qed
  qed
qed

section \<open>What is sent and cached is one verified chain\<close>

text \<open>The entries after the first \<open>k\<close> messages of the channel, followed by the ticks in the cache.\<close>

definition rec_log :: "nat \<Rightarrow> recorder \<Rightarrow> entry list" where
  "rec_log k r = map fst (concat (map snd (drop k (rec_sent r))) @ tick_cache r)"

text \<open>Entries go to a bank at heights of its slot or before; transactions only before the last tick of the slot.\<close>

definition message_in_slot :: "(nat \<rightharpoonup> bank) \<Rightarrow> nat \<times> (entry \<times> u64) list \<Rightarrow> bool" where
  "message_in_slot banks m \<longleftrightarrow>
     (\<exists>b. banks (fst m) = Some b \<and> (\<forall>x \<in> set (snd m). snd x \<le> last_tick b \<and> (\<not> is_tick (fst x) \<longrightarrow> snd x < last_tick b)))"

definition rec_tip :: "hash \<Rightarrow> nat \<Rightarrow> recorder \<Rightarrow> hash" where
  "rec_tip h k r = last (h # map e_hash (rec_log k r))"

definition rec_chain :: "recorder_env \<Rightarrow> hash \<Rightarrow> nat \<Rightarrow> recorder \<Rightarrow> bool" where
  "rec_chain E h k r \<longleftrightarrow> k \<le> length (rec_sent r) \<and> chain_ok (re_sha E) h (rec_log k r) \<and>
     poh_at (re_sha E) (rec_tip h k r) (rec_poh r) \<and>
     (\<forall>x \<in> set (tick_cache r). snd x \<le> tick_height r \<and> is_tick (fst x)) \<and>
     (\<forall>m \<in> set (drop k (rec_sent r)). message_in_slot (rec_banks r) m)"

lemma message_in_slot_same:
  assumes "same_banks banks banks'" "message_in_slot banks m"
  shows "message_in_slot banks' m"
proof -
  obtain b where b: "banks (fst m) = Some b" "\<forall>x \<in> set (snd m). snd x \<le> last_tick b \<and> (\<not> is_tick (fst x) \<longrightarrow> snd x < last_tick b)"
    using assms(2) by (auto simp: message_in_slot_def)
  obtain b' where "banks' (fst m) = Some b'" "same_slot b b'" using same_banks_Some [OF assms(1) b(1)] by blast
  then show ?thesis using b(2) same_slot_last_tick [of b b'] by (simp add: message_in_slot_def)
qed

lemma flushed_chain:
  assumes "rec_ready E S r" "flushed r res r'" "rec_connected r" "rec_chain E h k r"
  shows "rec_chain E h k r'"
proof (cases res)
  case (Inl e)
  then show ?thesis using assms(2,4) by (simp add: flushed_def)
next
  case (Inr u)
  then obtain w n where w: "rec_working_bank r = Some w" "n = length (takeWhile (\<lambda>x. snd x \<le> max_tick_height w) (tick_cache r))"
    "tick_cache r' = drop n (tick_cache r)" "rec_sent r' = rec_sent r @ (if n = 0 then [] else [(wb_bank w, take n (tick_cache r))])"
    "rec_poh r' = rec_poh r" "tick_height r' = tick_height r" "same_banks (rec_banks r) (rec_banks r')"
    using assms(2,3) by (auto simp: flushed_def)
  obtain b where b: "rec_banks r (wb_bank w) = Some b" "max_tick_height w = last_tick b"
    using assms(1) w(1) by (auto simp: rec_ready_def working_ok_def)
  have k: "k \<le> length (rec_sent r)" using assms(4) by (simp add: rec_chain_def)
  have log: "rec_log k r' = rec_log k r" using k by (simp add: rec_log_def w(3,4) flip: take_map drop_map)
  have "x \<in> set (takeWhile (\<lambda>x. snd x \<le> max_tick_height w) (tick_cache r))" if "x \<in> set (take n (tick_cache r))" for x
    using that by (simp add: w(2) flip: takeWhile_eq_take)
  then have new: "message_in_slot (rec_banks r) (wb_bank w, take n (tick_cache r))"
    using b assms(4) by (fastforce simp: message_in_slot_def rec_chain_def dest: set_takeWhileD)
  have "message_in_slot (rec_banks r) m" if "m \<in> set (drop k (rec_sent r'))" for m
    using that assms(4) new k by (auto simp: w(4) rec_chain_def split: if_splits)
  then have "\<forall>m \<in> set (drop k (rec_sent r')). message_in_slot (rec_banks r') m" using message_in_slot_same [OF w(7)] by blast
  moreover have "\<forall>x \<in> set (tick_cache r'). snd x \<le> tick_height r' \<and> is_tick (fst x)"
    using assms(4) w(3,6) by (auto simp: rec_chain_def dest: in_set_dropD)
  ultimately show ?thesis using assms(4) k by (simp add: rec_chain_def rec_tip_def log w(4,5))
qed

lemma chain_snoc:
  assumes "rec_chain E h k r" "entry_follows (re_sha E) (rec_tip h k r) e" "rec_log k r' = rec_log k r @ [e]"
    "poh_at (re_sha E) (e_hash e) (rec_poh r')" "k \<le> length (rec_sent r')"
    "\<forall>x \<in> set (tick_cache r'). snd x \<le> tick_height r' \<and> is_tick (fst x)"
    "\<forall>m \<in> set (drop k (rec_sent r')). message_in_slot (rec_banks r') m"
  shows "rec_chain E h k r'"
  using assms by (simp add: rec_chain_def rec_tip_def chain_ok_append)

text \<open>What an operation of the recorder keeps.\<close>

definition rec_keeps :: "recorder_env \<Rightarrow> (u64 \<rightharpoonup> pubkey list) \<Rightarrow> hash \<Rightarrow> nat \<Rightarrow> recorder \<Rightarrow> recorder \<Rightarrow> bool" where
  "rec_keeps E S h k r r' \<longleftrightarrow> rec_ready E S r' \<and> rec_connected r' = rec_connected r \<and>
     (rec_connected r \<and> start_leader_at_tick r \<noteq> None \<and> rec_chain E h k r \<longrightarrow> rec_chain E h k r')"

lemma rec_ready_poh: "rec_ready E S r \<Longrightarrow> poh_ok p \<Longrightarrow> rec_ready E S (r\<lparr>rec_poh := p\<rparr>)"
  by (simp add: rec_ready_def)

lemma unat_plus_1: "y \<noteq> - 1 \<Longrightarrow> unat ((y :: u64) + 1) = unat y + 1"
  using unatSuc [of y] by (simp add: eq_neg_iff_add_eq_0 add.commute)

lemma le_plus_1: "x \<le> (y :: u64) \<Longrightarrow> y \<noteq> - 1 \<Longrightarrow> x \<le> y + 1"
  by (simp add: word_le_nat_alt unat_plus_1)

lemma tick_chain:
  assumes "rec_chain E h k r" "poh_tick (re_sha E) (rec_poh r) = (Some e, p)" "tick_height r \<noteq> - 1"
  shows "rec_chain E h k (r\<lparr>rec_poh := p, tick_height := tick_height r + 1,
    tick_cache := tick_cache r @ [(\<lparr>e_num_hashes = pe_num_hashes e, e_hash = pe_hash e, e_transactions = []\<rparr>, tick_height r + 1)]\<rparr>)"
proof -
  have c: "poh_at (re_sha E) (rec_tip h k r) (rec_poh r)" "k \<le> length (rec_sent r)"
    "\<forall>x \<in> set (tick_cache r). snd x \<le> tick_height r \<and> is_tick (fst x)" "\<forall>m \<in> set (drop k (rec_sent r)). message_in_slot (rec_banks r) m"
    using assms(1) by (simp_all add: rec_chain_def)
  have at: "poh_at (re_sha E) (pe_hash e) p" "pe_hash e = chain_hash (re_sha E) (rec_tip h k r) (unat (pe_num_hashes e)) []"
    using poh_at_tick [OF c(1) assms(2), unfolded option.case] by blast+
  show ?thesis
    by (rule chain_snoc [OF assms(1), of "\<lparr>e_num_hashes = pe_num_hashes e, e_hash = pe_hash e, e_transactions = []\<rparr>"])
      (use c(2-4) at le_plus_1 [OF _ assms(3)] in \<open>auto simp: entry_follows_def is_tick_def rec_log_def\<close>)
qed

lemma recorder_tick_Ok:
  assumes "rec_ready E S r" "tick_height r \<noteq> - 1"
  shows "\<exists>r'. recorder_tick E r = run_ok r' \<and> rec_keeps E S h k r r' \<and> rec_poh r' = snd (poh_tick (re_sha E) (rec_poh r))"
proof -
  obtain pe p where t: "poh_tick (re_sha E) (rec_poh r) = (pe, p)" by fastforce
  have p: "poh_ok p" using poh_tick_ok [OF _ t] assms(1) by (auto simp: rec_ready_def)
  then have ready: "rec_ready E S (r\<lparr>rec_poh := p\<rparr>)" using assms(1) by (rule rec_ready_poh [rotated])
  show ?thesis
  proof (cases pe)
    case None
    have "rec_chain E h k (r\<lparr>rec_poh := p\<rparr>)" if "rec_chain E h k r"
      using that poh_at_tick [OF _ t] None by (simp add: rec_chain_def rec_tip_def rec_log_def)
    then show ?thesis using t None ready by (intro exI [of _ "r\<lparr>rec_poh := p\<rparr>"]) (simp add: recorder_tick_def rec_keeps_def)
  next
    case (Some e)
    let ?r1 = "r\<lparr>rec_poh := p, tick_height := tick_height r + 1\<rparr>"
    let ?e = "\<lparr>e_num_hashes = pe_num_hashes e, e_hash = pe_hash e, e_transactions = []\<rparr>"
    let ?r2 = "?r1\<lparr>tick_cache := tick_cache r @ [(?e, tick_height r + 1)]\<rparr>"
    have ready1: "rec_ready E S ?r1" using ready by (simp add: rec_ready_def)
    show ?thesis
    proof (cases "start_leader_at_tick r")
      case None
      then show ?thesis using t Some ready1 by (intro exI [of _ ?r1]) (simp add: recorder_tick_def rec_keeps_def)
    next
      case (Some l)
      have ready2: "rec_ready E S ?r2" using ready1 by (simp add: rec_ready_def)
      obtain res r' where f: "flush_cache E True ?r2 = run_ok (res, r')" "rec_ready E S r'" "flushed ?r2 res r'"
        using flush_cache_Ok [OF ready2] by blast
      have chain: "rec_chain E h k ?r2" if c: "rec_chain E h k r"
        by (rule tick_chain [OF c t [unfolded \<open>pe = Some e\<close>] assms(2)])
      have "rec_keeps E S h k r r'"
        using f(2,3) chain flushed_chain [OF ready2 f(3)] by (auto simp: rec_keeps_def flushed_def)
      then show ?thesis using t \<open>pe = Some e\<close> Some f by (intro exI [of _ r']) (auto simp: recorder_tick_def flushed_def)
    qed
  qed
qed

definition rec_keeps' :: "recorder_env \<Rightarrow> (u64 \<rightharpoonup> pubkey list) \<Rightarrow> hash \<Rightarrow> nat \<Rightarrow> recorder \<Rightarrow> recorder \<Rightarrow> bool" where
  "rec_keeps' E S h k r r' \<longleftrightarrow> rec_ready E S r' \<and> rec_connected r' = rec_connected r \<and>
     (rec_connected r \<and> rec_chain E h k r \<longrightarrow> rec_chain E h k r')"

lemma rec_keeps'_trans: "rec_keeps' E S h k r r1 \<Longrightarrow> rec_keeps' E S h k r1 r2 \<Longrightarrow> rec_keeps' E S h k r r2"
  by (simp add: rec_keeps'_def)

lemma rec_keeps'_imp: "rec_keeps' E S h k r r' \<Longrightarrow> rec_keeps E S h k r r'"
  by (simp add: rec_keeps_def rec_keeps'_def)

lemma flushed_connected: "flushed r res r' \<Longrightarrow> rec_connected r' = rec_connected r"
  by (simp add: flushed_def)

lemma flushed_keeps:
  assumes "rec_ready E S r" "flushed r res r'" "rec_ready E S r'"
  shows "rec_keeps' E S h k r r'"
  using assms(3) flushed_chain [OF assms(1,2)] flushed_connected [OF assms(2)] by (simp add: rec_keeps'_def)

lemma record_chain:
  assumes "rec_chain E h k r" "tick_cache r = []" "txs \<noteq> []" "poh_record (re_sha E) (hash_transactions (re_sha E) txs) (rec_poh r) = (Some e, p)"
    "rec_banks r i = Some b" "tick_height r < last_tick b"
  shows "rec_chain E h k (r\<lparr>rec_poh := p, rec_sent := rec_sent r @
    [(i, [(\<lparr>e_num_hashes = pe_num_hashes e, e_hash = pe_hash e, e_transactions = txs\<rparr>, tick_height r)])]\<rparr>)"
proof -
  have c: "poh_at (re_sha E) (rec_tip h k r) (rec_poh r)" "k \<le> length (rec_sent r)"
    "\<forall>m \<in> set (drop k (rec_sent r)). message_in_slot (rec_banks r) m"
    using assms(1) by (simp_all add: rec_chain_def)
  have at: "poh_at (re_sha E) (pe_hash e) p" "pe_hash e = chain_hash (re_sha E) (rec_tip h k r) (unat (pe_num_hashes e)) txs" "pe_num_hashes e \<noteq> - 1"
    using poh_at_record [OF c(1) assms(4,3), unfolded option.case] by blast+
  show ?thesis
    by (rule chain_snoc [OF assms(1), of "\<lparr>e_num_hashes = pe_num_hashes e, e_hash = pe_hash e, e_transactions = txs\<rparr>"])
      (use c(2,3) at assms(2,5,6) in \<open>auto simp: entry_follows_def rec_log_def message_in_slot_def\<close>)
qed

text \<open>After a flush that kept the working bank no tick is left in the cache.\<close>

lemma flushed_empty:
  assumes "flushed r res r'" "rec_connected r" "rec_chain E h k r" "res = Inr u" "rec_working_bank r' = Some w"
  shows "tick_cache r' = []"
proof -
  obtain n where n: "n = length (takeWhile (\<lambda>x. snd x \<le> max_tick_height w) (tick_cache r))" "tick_cache r' = drop n (tick_cache r)"
    "tick_height r < max_tick_height w" using assms by (auto simp: flushed_def)
  have "takeWhile (\<lambda>x. snd x \<le> max_tick_height w) (tick_cache r) = tick_cache r"
    using assms(3) n(3) by (intro takeWhile_eq_all_conv [THEN iffD2]) (auto simp: rec_chain_def dest: order.strict_trans1)
  then have "n = length (tick_cache r)" using n(1) by (simp only:)
  then show ?thesis using n(2) by simp
qed

lemma record_loop_send:
  assumes "flush_cache E False r = run_ok (Inr u, r1)" "rec_working_bank r1 = Some w" "rec_banks r1 (wb_bank w) = Some b" "sl = bank_slot b"
    "poh_record (re_sha E) mixin (rec_poh r1) = (Some e, p)"
  shows "record_loop E sl mixin txs r =
    run_ok (case send (wb_bank w) [(\<lparr>e_num_hashes = pe_num_hashes e, e_hash = pe_hash e, e_transactions = txs\<rparr>, tick_height r1)]
      (r1\<lparr>rec_poh := p\<rparr>) of (ok, r2) \<Rightarrow> (if ok then Inr () else Inl SendError, r2))"
  using assms by (subst record_loop.simps) (simp add: run_ok_def)

lemma record_loop_tick:
  assumes "flush_cache E False r = run_ok (Inr u, r1)" "rec_working_bank r1 = Some w" "rec_banks r1 (wb_bank w) = Some b" "sl = bank_slot b"
    "poh_record (re_sha E) mixin (rec_poh r1) = (None, p)" "recorder_tick E (r1\<lparr>rec_poh := p\<rparr>) = run_ok r2"
  shows "record_loop E sl mixin txs r = record_loop E sl mixin txs r2"
  using assms by (subst record_loop.simps) (simp add: run_ok_def)

text \<open>An iteration either stops with an error, or comes to the water clock with an empty cache and a bank that is open.\<close>

lemma record_loop_start:
  assumes "rec_ready E S r"
  obtains (stop) e r1 where "record_loop E sl mixin txs r = run_ok (Inl e, r1)" "rec_keeps' E S h k r r1"
  | (go) u r1 w b where "flush_cache E False r = run_ok (Inr u, r1)" "rec_working_bank r1 = Some w" "rec_banks r1 (wb_bank w) = Some b"
      "sl = bank_slot b" "rec_keeps' E S h k r r1" "rec_poh r1 = rec_poh r" "tick_height r1 < last_tick b"
      "start_leader_at_tick r1 = start_leader_at_tick r" "rec_connected r \<and> rec_chain E h k r \<longrightarrow> tick_cache r1 = []"
proof -
  obtain res r1 where f: "flush_cache E False r = run_ok (res, r1)" "rec_ready E S r1" "flushed r res r1"
    using flush_cache_Ok [OF assms] by blast
  have keeps: "rec_keeps' E S h k r r1" by (rule flushed_keeps [OF assms f(3,2)])
  show ?thesis
  proof (cases res)
    case (Inl e)
    then have "record_loop E sl mixin txs r = run_ok (Inl e, r1)" using f(1) by (subst record_loop.simps) (simp add: run_ok_def)
    then show ?thesis using stop keeps by blast
  next
    case (Inr u)
    show ?thesis
    proof (cases "rec_working_bank r1")
      case None
      then have "record_loop E sl mixin txs r = run_ok (Inl MaxHeightReached, r1)" using f(1) Inr by (subst record_loop.simps) (simp add: run_ok_def)
      then show ?thesis using stop keeps by blast
    next
      case (Some w)
      obtain b where b: "rec_banks r1 (wb_bank w) = Some b" "max_tick_height w = last_tick b"
        using f(2) Some by (auto simp: rec_ready_def working_ok_def)
      have fl: "tick_height r1 < max_tick_height w" "start_leader_at_tick r1 = start_leader_at_tick r" "rec_poh r1 = rec_poh r"
        using f(3) Some Inr by (auto simp: flushed_def)
      show ?thesis
      proof (cases "sl = bank_slot b")
        case True
        then show ?thesis using go [OF f(1) [unfolded Inr] Some b(1) True keeps fl(3) _ fl(2)] fl(1) b(2) flushed_empty [OF f(3) _ _ Inr Some] by metis
      next
        case False
        then have "record_loop E sl mixin txs r = run_ok (Inl MaxHeightReached, r1)" using f(1) Inr Some b(1) by (subst record_loop.simps) (simp add: run_ok_def)
        then show ?thesis using stop keeps by blast
      qed
    qed
  qed
qed

lemma record_direct:
  assumes "rec_ready E S r" "txs \<noteq> []" "remaining_hashes (rec_poh r) \<noteq> 1"
  shows "\<exists>res r'. record_loop E sl (hash_transactions (re_sha E) txs) txs r = run_ok (res, r') \<and> rec_keeps' E S h k r r'"
proof (rule record_loop_start [OF assms(1), of sl "hash_transactions (re_sha E) txs" txs h k])
  fix u r1 w b
  assume g: "flush_cache E False r = run_ok (Inr u, r1)" "rec_working_bank r1 = Some w" "rec_banks r1 (wb_bank w) = Some b"
    "sl = bank_slot b" "rec_keeps' E S h k r r1" "rec_poh r1 = rec_poh r" "tick_height r1 < last_tick b"
    "rec_connected r \<and> rec_chain E h k r \<longrightarrow> tick_cache r1 = []"
  obtain pe p where r: "poh_record (re_sha E) (hash_transactions (re_sha E) txs) (rec_poh r1) = (pe, p)" by fastforce
  obtain e where e: "pe = Some e" using r assms(3) g(6) by (auto simp: poh_record_def Let_def)
  have p: "poh_ok p" using poh_record_ok [OF _ r] assms(1) g(6) by (auto simp: rec_ready_def)
  let ?r2 = "snd (send (wb_bank w) [(\<lparr>e_num_hashes = pe_num_hashes e, e_hash = pe_hash e, e_transactions = txs\<rparr>, tick_height r1)] (r1\<lparr>rec_poh := p\<rparr>))"
  have ready: "rec_ready E S (r1\<lparr>rec_poh := p\<rparr>)" using g(5) p by (simp add: rec_keeps'_def rec_ready_poh)
  have "rec_chain E h k ?r2" if c: "rec_connected r" "rec_chain E h k r"
  proof -
    have c1: "rec_connected r1" "rec_chain E h k r1" "tick_cache r1 = []" using c g(5,8) by (simp_all add: rec_keeps'_def)
    from record_chain [OF c1(2,3) assms(2) r [unfolded e] g(3,7)] c1(1) show ?thesis by (simp add: send_def)
  qed
  then have "rec_keeps' E S h k r ?r2" using ready g(5) by (simp add: rec_keeps'_def send_def)
  then show ?thesis using record_loop_send [OF g(1-4) r [unfolded e], of txs] by (metis (no_types, lifting) case_prod_beta)
qed blast

lemma record_Ok:
  assumes "rec_ready E S r" "txs \<noteq> []"
  shows "\<exists>res r'. recorder_record E sl (hash_transactions (re_sha E) txs) txs r = run_ok (res, r') \<and> rec_keeps E S h k r r'"
proof (cases "remaining_hashes (rec_poh r) = 1")
  case False
  obtain res r' where "record_loop E sl (hash_transactions (re_sha E) txs) txs r = run_ok (res, r')" "rec_keeps' E S h k r r'"
    using record_direct [OF assms False, of sl h k] by blast
  then show ?thesis using assms(2) by (auto simp: recorder_record_def intro: rec_keeps'_imp)
next
  case True
  show ?thesis
  proof (rule record_loop_start [OF assms(1), of sl "hash_transactions (re_sha E) txs" txs h k])
    fix e r1 assume "record_loop E sl (hash_transactions (re_sha E) txs) txs r = run_ok (Inl e, r1)" "rec_keeps' E S h k r r1"
    then show ?thesis using assms(2) by (auto simp: recorder_record_def intro: rec_keeps'_imp)
  next
    fix u r1 w b
    assume g: "flush_cache E False r = run_ok (Inr u, r1)" "rec_working_bank r1 = Some w" "rec_banks r1 (wb_bank w) = Some b"
      "sl = bank_slot b" "rec_keeps' E S h k r r1" "rec_poh r1 = rec_poh r" "tick_height r1 < last_tick b"
      "start_leader_at_tick r1 = start_leader_at_tick r"
    have rec: "poh_record (re_sha E) (hash_transactions (re_sha E) txs) (rec_poh r1) = (None, rec_poh r1)"
      using True g(6) by (simp add: poh_record_def)
    have ready: "rec_ready E S r1" using g(5) by (simp add: rec_keeps'_def)
    have "tick_height r1 \<noteq> - 1" using g(7) by auto
    then obtain r2 where r2: "recorder_tick E r1 = run_ok r2" "rec_keeps E S h k r1 r2" "rec_poh r2 = snd (poh_tick (re_sha E) (rec_poh r1))"
      using recorder_tick_Ok [OF ready] by blast
    have "remaining_hashes (rec_poh r2) \<noteq> 1"
      using poh_tick_ok [of "rec_poh r1" "re_sha E" _ "rec_poh r2"] r2(3) ready True g(6) by (auto simp: rec_ready_def poh_ok_def prod_eq_iff)
    then obtain res r' where r': "record_loop E sl (hash_transactions (re_sha E) txs) txs r2 = run_ok (res, r')" "rec_keeps' E S h k r2 r'"
      using record_direct [OF _ assms(2)] r2(2) unfolding rec_keeps_def by blast
    have "recorder_record E sl (hash_transactions (re_sha E) txs) txs r = run_ok (res, r')"
      using record_loop_tick [OF g(1-4) rec] r2(1) r'(1) assms(2) by (simp add: recorder_record_def)
    moreover have "rec_keeps E S h k r r'" using g(5,8) r2(2) r'(2) by (auto simp: rec_keeps_def rec_keeps'_def)
    ultimately show ?thesis by blast
  qed
qed

text \<open>
  What the services do with a recorder that knows its next leader slot and whose channel is open: the clock service
  hashes and ticks, the banking stage records batches of transactions, and the replay stage hands it a
  bank.
\<close>

inductive rec_step :: "recorder_env \<Rightarrow> recorder \<Rightarrow> recorder \<Rightarrow> bool" for E where
  step_hash: "poh_hash_upto (re_sha E) n (rec_poh r) = (Ok (full, p) :: (unit, bool \<times> poh) res) \<Longrightarrow> rec_step E r (r\<lparr>rec_poh := p\<rparr>)"
| step_tick: "start_leader_at_tick r \<noteq> None \<Longrightarrow> tick_height r \<noteq> - 1 \<Longrightarrow> recorder_tick E r = run_ok r' \<Longrightarrow> rec_step E r r'"
| step_record: "start_leader_at_tick r \<noteq> None \<Longrightarrow> txs \<noteq> [] \<Longrightarrow>
    recorder_record E sl (hash_transactions (re_sha E) txs) txs r = run_ok (res, r') \<Longrightarrow> rec_step E r r'"
| step_set_bank: "set_bank i r = Some r' \<Longrightarrow> rec_step E r r'"

inductive_cases rec_stepE: "rec_step E r r'"

definition rec_inv :: "recorder_env \<Rightarrow> (u64 \<rightharpoonup> pubkey list) \<Rightarrow> hash \<Rightarrow> nat \<Rightarrow> recorder \<Rightarrow> bool" where
  "rec_inv E S h k r \<longleftrightarrow> rec_ready E S r \<and> rec_connected r \<and> rec_chain E h k r"

lemma run_ok_inject [simp]: "run_ok x = run_ok y \<longleftrightarrow> x = y"
  by (simp add: run_ok_def)

lemma rec_keeps_inv: "rec_keeps E S h k r r' \<Longrightarrow> rec_inv E S h k r \<Longrightarrow> start_leader_at_tick r \<noteq> None \<Longrightarrow> rec_inv E S h k r'"
  by (simp add: rec_keeps_def rec_inv_def)

lemma rec_step_inv:
  assumes "rec_step E r r'" "rec_inv E S h k r"
  shows "rec_inv E S h k r'"
  using assms
proof (induction rule: rec_step.induct)
  case (step_hash n r full p)
  have "poh_at (re_sha E) (rec_tip h k r) p" using step_hash poh_at_upto by (auto simp: rec_inv_def rec_chain_def)
  then show ?case using step_hash.prems by (simp add: rec_inv_def rec_chain_def rec_tip_def rec_log_def rec_ready_def poh_at_def)
next
  case (step_tick r r')
  then have "rec_ready E S r" by (simp add: rec_inv_def)
  from recorder_tick_Ok [OF this step_tick.hyps(2), of h k] step_tick show ?case using rec_keeps_inv by auto
next
  case (step_record r txs sl res r')
  then have "rec_ready E S r" by (simp add: rec_inv_def)
  from record_Ok [OF this step_record.hyps(2), of sl h k] step_record show ?case using rec_keeps_inv by auto
next
  case (step_set_bank i r r')
  then obtain b where b: "rec_banks r i = Some b" "r' = r\<lparr>rec_ticks_per_slot := bank_ticks_per_slot b,
      rec_working_bank := Some \<lparr>wb_bank = i, min_tick_height = bank_tick_height b, max_tick_height = last_tick b\<rparr>\<rparr>"
    by (auto simp: set_bank_def set_working_bank_def last_tick_def split: option.splits)
  then show ?case using step_set_bank.prems by (simp add: rec_inv_def rec_ready_def rec_chain_def rec_tip_def rec_log_def working_ok_def)
qed

lemma rec_steps_inv: "(rec_step E)\<^sup>*\<^sup>* r r' \<Longrightarrow> rec_inv E S h k r \<Longrightarrow> rec_inv E S h k r'"
  by (induction rule: rtranclp_induct) (blast intro: rec_step_inv)+

lemma rec_inv_fresh:
  assumes "rec_ready E S r" "rec_connected r" "tick_cache r = []" "poh_new h (re_hashes_per_tick E) = (Ok (rec_poh r) :: (unit, poh) res)"
  shows "rec_inv E S h (length (rec_sent r)) r"
  using assms poh_at_new [OF assms(4)] by (simp add: rec_inv_def rec_chain_def rec_tip_def rec_log_def)

text \<open>
  C11: the ledger that a leader produces verifies. Starting from a recorder that was just reset to a block hash,
  after any interleaving of hashing, ticks, recorded batches and new working banks (taken while the
  recorder knows its leader slot and its channel is open), the entries sent since the reset, followed by the
  ticks still in the cache, are a chain that verification accepts from that block hash; and every entry was sent to a
  bank at a tick height of the bank's slot or before, with transactions only before the last tick of the slot.
\<close>

theorem recorder_chain_verifies:
  assumes "rec_ready E S r" "rec_connected r" "tick_cache r = []" "poh_new h (re_hashes_per_tick E) = (Ok (rec_poh r) :: (unit, poh) res)"
    "(rec_step E)\<^sup>*\<^sup>* r r'"
  shows "entries_verify (re_sha E) (rec_log (length (rec_sent r)) r') h = (Ok True :: (unit, bool) res) \<and>
    (\<forall>m \<in> set (drop (length (rec_sent r)) (rec_sent r')). message_in_slot (rec_banks r') m)"
  using rec_steps_inv [OF assms(5) rec_inv_fresh [OF assms(1-4)]]
  by (simp add: rec_inv_def rec_chain_def entries_verify_chain)

text \<open>
  C12: the recorder never gets stuck. In every state in which the schedules of its banks are known up to some later
  epoch, ticking returns and so does recording a batch, although \<open>record\<close> loops: at most one tick
  is needed before the clock takes the batch; both leave such a state again.
\<close>

theorem recorder_returns:
  assumes "rec_ready E S r" "tick_height r \<noteq> - 1" "txs \<noteq> []"
  shows "(\<exists>r'. recorder_tick E r = run_ok r' \<and> rec_ready E S r') \<and>
    (\<exists>res r'. recorder_record E sl (hash_transactions (re_sha E) txs) txs r = run_ok (res, r') \<and> rec_ready E S r')"
  using recorder_tick_Ok [OF assms(1,2)] record_Ok [OF assms(1,3), of sl] unfolding rec_keeps_def by metis

section \<open>A recorder at work\<close>

definition demo_rec_env :: recorder_env where
  "demo_rec_env = \<lparr>re_sha = demo_sha, re_sampler = demo_sampler, re_vote_codec = demo_node_codec, re_pool = Map.empty,
     re_hashes_per_tick = None, re_now = 0\<rparr>"

definition demo_rec_bank :: bank where
  "demo_rec_bank = demo_one_bank\<lparr>bank_ticks_per_slot := 64\<rparr>"

definition demo_recorder :: recorder where
  "demo_recorder =
     \<lparr>rec_poh = \<lparr>poh_hash = default_hash, poh_num_hashes = 0, hashes_per_tick = - 1, remaining_hashes = - 1\<rparr>, tick_height = 0,
      start_slot = 0, start_tick = 1, tick_cache = [], rec_working_bank = None, start_leader_at_tick = Some 96,
      last_leader_tick = Some 127, max_last_leader_grace_ticks = 32, rec_id = demo_key 1, rec_ticks_per_slot = 64,
      rec_cache = cache_new_from_bank demo_rec_bank, rec_banks = [0 \<mapsto> demo_rec_bank], rec_sent = [], rec_connected = True\<rparr>"

lemma demo_recorder_new:
  "recorder_new demo_rec_env 0 default_hash 0 (Some 1) 64 (demo_key 1) (cache_new_from_bank demo_rec_bank) [0 \<mapsto> demo_rec_bank] =
     (Ok demo_recorder :: (unit, recorder) res)"
  by (simp add: recorder_new_def poh_new_def demo_rec_env_def demo_recorder_def compute_leader_slot_ticks_def MAX_LAST_LEADER_GRACE_TICKS_FACTOR_def
      Let_def word_less_nat_alt unsigned_minus_1_eq_mask mask_eq_exp_minus_1)

lemma demo_recorder_ready: "rec_ready demo_rec_env demo_cluster demo_recorder"
proof -
  have "leader_schedule demo_sampler demo_node_codec e demo_rec_bank =
      (leader_schedule demo_sampler demo_node_codec e demo_one_bank :: (unit, pubkey list option) res)" for e
    by (simp add: demo_rec_bank_def leader_schedule_def staked_nodes_at_epoch_def epoch_vote_accounts_def split: option.split)
  then have ag: "agrees demo_sampler demo_node_codec demo_cluster demo_rec_bank" using demo_cluster_props(1) by (simp add: agrees_def)
  have F: "epoch_first 5 32 1 = 32" by (simp add: epoch_first_def)
  have b: "bank_slot demo_rec_bank = 1" "bank_epoch_schedule demo_rec_bank = bank_epoch_schedule demo_one_bank"
    "unat (slots_per_epoch (bank_epoch_schedule demo_one_bank)) = 32" "bank_ticks_per_slot demo_rec_bank = 64"
    by (simp_all add: demo_rec_bank_def demo_epoch_bank_def demo_bank_def)
  have S: "demo_cluster (of_nat 1) = None" by (simp add: demo_cluster_def)
  have "bank_ready demo_rec_env demo_cluster demo_rec_bank"
    unfolding bank_ready_def b
    by (intro conjI exI [of _ 5] exI [of _ 1] demo_cluster_props(4) S) (use ag F in \<open>simp_all add: demo_rec_env_def\<close>)
  moreover have "poh_ok (rec_poh demo_recorder)"
    by (simp add: demo_recorder_def poh_ok_def word_less_nat_alt unsigned_minus_1_eq_mask mask_eq_exp_minus_1)
  moreover have "cache_inv demo_cluster (cache_new_from_bank demo_rec_bank)" by (simp add: cache_new_from_bank_def cache_inv_new)
  ultimately show ?thesis using demo_cluster_props(2) by (simp add: rec_ready_def demo_recorder_def working_ok_def)
qed

lemma demo_recorder_fresh:
  "rec_connected demo_recorder" "tick_cache demo_recorder = []" "rec_sent demo_recorder = []"
  "poh_new default_hash (re_hashes_per_tick demo_rec_env) = (Ok (rec_poh demo_recorder) :: (unit, poh) res)"
  by (simp_all add: demo_recorder_def poh_new_def demo_rec_env_def Let_def word_less_nat_alt unsigned_minus_1_eq_mask mask_eq_exp_minus_1)

text \<open>A bank is set and one transaction is recorded in its slot.\<close>

lemma demo_recorder_steps:
  "\<exists>r'. (rec_step demo_rec_env)\<^sup>*\<^sup>* demo_recorder r' \<and> length (rec_sent r') = 1 \<and> map e_transactions (rec_log 0 r') = [[wire_tx]]"
proof -
  let ?mix = "hash_transactions demo_sha [wire_tx]"
  let ?w = "\<lparr>wb_bank = 0, min_tick_height = 0, max_tick_height = 127\<rparr>"
  let ?r1 = "demo_recorder\<lparr>rec_ticks_per_slot := 64, rec_working_bank := Some ?w\<rparr>"
  have b: "bank_slot demo_rec_bank = 1" "bank_ticks_per_slot demo_rec_bank = 64" "bank_tick_height demo_rec_bank = 0"
    by (simp_all add: demo_rec_bank_def demo_epoch_bank_def demo_bank_def bank_default_def)
  have 1: "set_bank 0 demo_recorder = Some ?r1" by (simp add: set_bank_def set_working_bank_def b demo_recorder_def)
  have f: "flush_cache demo_rec_env False ?r1 = run_ok (Inr (), ?r1)"
    by (simp add: flush_cache_def demo_recorder_def send_cached_def finish_bank_def Let_def)
  obtain pe p where r: "poh_record demo_sha ?mix (rec_poh ?r1) = (Some pe, p)"
    by (simp add: poh_record_def demo_recorder_def Let_def)
  let ?r2 = "?r1\<lparr>rec_poh := p, rec_sent := [(0, [(\<lparr>e_num_hashes = pe_num_hashes pe, e_hash = pe_hash pe, e_transactions = [wire_tx]\<rparr>, 0)])]\<rparr>"
  have "record_loop demo_rec_env 1 ?mix [wire_tx] ?r1 = run_ok (Inr (), ?r2)"
    using record_loop_send [OF f, of ?w demo_rec_bank 1 ?mix pe p "[wire_tx]"] r
    by (simp add: demo_recorder_def b send_def demo_rec_env_def)
  then have 2: "recorder_record demo_rec_env 1 (hash_transactions (re_sha demo_rec_env) [wire_tx]) [wire_tx] ?r1 = run_ok (Inr (), ?r2)"
    by (simp add: recorder_record_def demo_rec_env_def)
  have "rec_step demo_rec_env demo_recorder ?r1" by (rule step_set_bank [OF 1])
  moreover have "rec_step demo_rec_env ?r1 ?r2" by (rule step_record [OF _ _ 2]) (simp_all add: demo_recorder_def)
  ultimately have "(rec_step demo_rec_env)\<^sup>*\<^sup>* demo_recorder ?r2" by (rule converse_rtranclp_into_rtranclp [OF _ r_into_rtranclp])
  then show ?thesis by (intro exI [of _ ?r2]) (simp add: rec_log_def demo_recorder_def)
qed

theorem recorder_chain_verifies_witness:
  "\<exists>r'. (rec_step demo_rec_env)\<^sup>*\<^sup>* demo_recorder r' \<and> map e_transactions (rec_log 0 r') = [[wire_tx]] \<and>
     entries_verify demo_sha (rec_log 0 r') default_hash = (Ok True :: (unit, bool) res)"
proof -
  obtain r' where r': "(rec_step demo_rec_env)\<^sup>*\<^sup>* demo_recorder r'" "map e_transactions (rec_log 0 r') = [[wire_tx]]"
    using demo_recorder_steps by (elim exE conjE) (rule that)
  have e: "re_sha demo_rec_env = demo_sha" "length (rec_sent demo_recorder) = 0" by (simp_all add: demo_rec_env_def demo_recorder_fresh(3))
  have "entries_verify demo_sha (rec_log 0 r') default_hash = (Ok True :: (unit, bool) res)"
    using recorder_chain_verifies [OF demo_recorder_ready demo_recorder_fresh(1,2,4) r'(1)] unfolding e by (rule conjunct1)
  with r' show ?thesis by (intro exI conjI)
qed

theorem recorder_returns_witness:
  "\<exists>r'. recorder_tick demo_rec_env demo_recorder = run_ok r'"
proof -
  have "tick_height demo_recorder \<noteq> - 1" by (simp add: demo_recorder_def)
  from recorder_returns [OF demo_recorder_ready this, of "[wire_tx]"] show ?thesis by blast
qed

end
