(* ===== verification/Treasury_Forks.thy ===== *)
theory Treasury_Forks
  imports Bank_Forks
begin

text \<open>
  The forks that a validator follows, \<^verbatim>\<open>core/src/treasuryForks.rs\<close>: a map from slots to shared banks, the
  working bank and the root. Banks are addresses in the world of banks; a hash map is an association list with
  distinct keys, a hash set a set. A bank that leaves the map is dropped when its last reference goes away, which is the
  drop step of the world.
\<close>

record treasury_forks =
  tf_banks :: "(u64 \<times> nat) list"
  tf_working_bank :: nat
  tf_root :: u64

definition forks_new :: "u64 \<Rightarrow> nat \<Rightarrow> treasury_forks" where
  "forks_new sl i = \<lparr>tf_banks = [(sl, i)], tf_working_bank = i, tf_root = 0\<rparr>"

text \<open>The banks of the map. References keep banks alive, so none is missing.\<close>

definition forks_values :: "(nat \<rightharpoonup> bank) \<Rightarrow> treasury_forks \<Rightarrow> bank list" where
  "forks_values banks f = List.map_filter (\<lambda>(_, i). banks i) (tf_banks f)"

definition proper_ancestors :: "bank \<Rightarrow> u64 set" where
  "proper_ancestors b = set (map fst (bank_ancestors b)) - {bank_slot b}"

definition forks_ancestors :: "(nat \<rightharpoonup> bank) \<Rightarrow> treasury_forks \<Rightarrow> (u64 \<times> u64 set) list" where
  "forks_ancestors banks f = fold (\<lambda>b. AList.update (bank_slot b) (proper_ancestors b)) (forks_values banks f) []"

definition or_empty :: "u64 set option \<Rightarrow> u64 set" where
  "or_empty x = (case x of None \<Rightarrow> {} | Some s \<Rightarrow> s)"

definition add_descendant :: "u64 \<Rightarrow> u64 \<Rightarrow> (u64 \<times> u64 set) list \<Rightarrow> (u64 \<times> u64 set) list" where
  "add_descendant s parent m = AList.update parent (insert s (or_empty (map_of m parent))) m"

definition add_descendants :: "bank \<Rightarrow> (u64 \<times> u64 set) list \<Rightarrow> (u64 \<times> u64 set) list" where
  "add_descendants b m =
     fold (add_descendant (bank_slot b)) (sorted_list_of_set (proper_ancestors b))
       (AList.update (bank_slot b) (or_empty (map_of m (bank_slot b))) m)"

definition forks_descendants :: "(nat \<rightharpoonup> bank) \<Rightarrow> treasury_forks \<Rightarrow> (u64 \<times> u64 set) list" where
  "forks_descendants banks f = fold add_descendants (forks_values banks f) []"

definition bank_at :: "(nat \<rightharpoonup> bank) \<Rightarrow> nat \<Rightarrow> (bank \<Rightarrow> bool) \<Rightarrow> bool" where
  "bank_at banks i Q = (case banks i of None \<Rightarrow> False | Some b \<Rightarrow> Q b)"

definition frozen_banks :: "(nat \<rightharpoonup> bank) \<Rightarrow> treasury_forks \<Rightarrow> (u64 \<times> nat) list" where
  "frozen_banks banks f = filter (\<lambda>(_, i). bank_at banks i bank_is_frozen) (tf_banks f)"

definition active_banks :: "(nat \<rightharpoonup> bank) \<Rightarrow> treasury_forks \<Rightarrow> u64 list" where
  "active_banks banks f = map fst (filter (\<lambda>(_, i). bank_at banks i (\<lambda>b. \<not> bank_is_frozen b)) (tf_banks f))"

definition forks_get :: "u64 \<Rightarrow> treasury_forks \<Rightarrow> nat option" where
  "forks_get sl f = map_of (tf_banks f) sl"

definition forks_new_from_banks :: "(nat \<rightharpoonup> bank) \<Rightarrow> nat list \<Rightarrow> u64 \<Rightarrow> ('e, treasury_forks) res" where
  "forks_new_from_banks banks initial_banks r =
     res_bind (idx initial_banks 0) (\<lambda>working.
       Ok \<lparr>tf_banks = fold (\<lambda>i. AList.update (slot_at banks i) i) initial_banks [], tf_working_bank = working, tf_root = r\<rparr>)"

definition forks_insert :: "(nat \<rightharpoonup> bank) \<Rightarrow> nat \<Rightarrow> treasury_forks \<Rightarrow> ('e, treasury_forks) res" where
  "forks_insert banks i f =
     (if map_of (tf_banks f) (slot_at banks i) \<noteq> None then Panic
      else Ok (f\<lparr>tf_banks := AList.update (slot_at banks i) i (tf_banks f), tf_working_bank := i\<rparr>))"

definition prune_non_root :: "(nat \<rightharpoonup> bank) \<Rightarrow> u64 \<Rightarrow> treasury_forks \<Rightarrow> ('e, treasury_forks) res" where
  "prune_non_root banks r f =
     (if tf_banks f = [] then Ok f
      else case map_of (forks_descendants banks f) r of
             None \<Rightarrow> Panic
           | Some ds \<Rightarrow> Ok (f\<lparr>tf_banks := filter (\<lambda>(s, _). s \<in> ds) (tf_banks f)\<rparr>))"

definition forks_set_root :: "bank_env \<Rightarrow> u64 \<Rightarrow> treasury_forks \<Rightarrow> world \<Rightarrow> (treasury_forks \<times> world) run" where
  "forks_set_root E r f w =
     (let f = f\<lparr>tf_root := r\<rparr>
      in case map_of (tf_banks f) r of
           None \<Rightarrow> Some Panic
         | Some i \<Rightarrow>
             run_bind (squash E i w) (\<lambda>w'.
             run_bind (Some (prune_non_root (w_banks w') r f)) (\<lambda>f'. run_ok (f', w'))))"

section \<open>Descendants are the inverse of ancestors\<close>

definition forks_ok :: "(nat \<rightharpoonup> bank) \<Rightarrow> treasury_forks \<Rightarrow> bool" where
  "forks_ok banks f \<longleftrightarrow> distinct (map fst (tf_banks f)) \<and>
     (\<forall>s i. (s, i) \<in> set (tf_banks f) \<longrightarrow> (\<exists>b. banks i = Some b \<and> bank_slot b = s))"

lemma forks_okD: "forks_ok banks f \<Longrightarrow> (s, i) \<in> set (tf_banks f) \<Longrightarrow> \<exists>b. banks i = Some b \<and> bank_slot b = s"
  unfolding forks_ok_def by blast

lemma or_empty_simps [simp]: "or_empty None = {}" "or_empty (Some X) = X"
  by (simp_all add: or_empty_def)

lemma finite_proper_ancestors [simp]: "finite (proper_ancestors b)"
  by (simp add: proper_ancestors_def)

lemma map_of_add_descendant:
  "map_of (add_descendant s p m) k = (if k = p then Some (insert s (or_empty (map_of m p))) else map_of m k)"
  by (simp add: add_descendant_def update_conv')

lemma add_descendant_fold:
  "map_of (fold (add_descendant s) ps m) k =
     (if k \<in> set ps then Some (insert s (or_empty (map_of m k))) else map_of m k)"
proof (induction ps arbitrary: m)
  case (Cons p ps)
  show ?case by (simp add: Cons.IH map_of_add_descendant)
qed simp

lemma map_of_add_descendants:
  "map_of (add_descendants b m) k =
     (if k \<in> proper_ancestors b then Some (insert (bank_slot b) (or_empty (map_of m k)))
      else if k = bank_slot b then Some (or_empty (map_of m k)) else map_of m k)"
  by (auto simp: add_descendants_def add_descendant_fold update_conv' proper_ancestors_def)

lemma add_descendants_fold:
  "map_of (fold add_descendants bs m) k =
     (if \<exists>b \<in> set bs. k = bank_slot b \<or> k \<in> proper_ancestors b
      then Some (or_empty (map_of m k) \<union> bank_slot ` {b \<in> set bs. k \<in> proper_ancestors b}) else map_of m k)"
proof (induction bs arbitrary: m)
  case (Cons b bs)
  let ?d = "\<lambda>bs. bank_slot ` {b \<in> set bs. k \<in> proper_ancestors b}"
  have d: "?d (b # bs) = (if k \<in> proper_ancestors b then {bank_slot b} else {}) \<union> ?d bs" by auto
  show ?case unfolding fold_simps Cons.IH d by (auto simp: map_of_add_descendants)
qed simp

text \<open>The descendants of a slot are the slots of the banks that have it among their ancestors.\<close>

lemma forks_descendants_spec:
  "map_of (forks_descendants banks f) k =
     (if \<exists>b \<in> set (forks_values banks f). k = bank_slot b \<or> k \<in> proper_ancestors b
      then Some (bank_slot ` {b \<in> set (forks_values banks f). k \<in> proper_ancestors b}) else None)"
  by (simp add: forks_descendants_def add_descendants_fold)

lemma forks_values_iff: "b \<in> set (forks_values banks f) \<longleftrightarrow> (\<exists>s i. (s, i) \<in> set (tf_banks f) \<and> banks i = Some b)"
  by (force simp: forks_values_def List.map_filter_def)

lemma prune_non_root_spec:
  assumes "forks_ok banks f" "map_of (tf_banks f) r = Some i"
  shows "\<exists>f'. prune_non_root banks r f = Ok f' \<and> tf_root f' = tf_root f \<and> tf_working_bank f' = tf_working_bank f \<and>
    tf_banks f' = filter (\<lambda>(s, j). \<exists>b. banks j = Some b \<and> r \<in> proper_ancestors b) (tf_banks f)"
proof -
  let ?D = "bank_slot ` {b \<in> set (forks_values banks f). r \<in> proper_ancestors b}"
  have "(r, i) \<in> set (tf_banks f)" using assms(2) by (rule map_of_SomeD)
  then obtain b where "b \<in> set (forks_values banks f)" "bank_slot b = r"
    using forks_okD [OF assms(1)] unfolding forks_values_iff by blast
  then have d: "map_of (forks_descendants banks f) r = Some ?D" by (auto simp: forks_descendants_spec)
  have "s \<in> ?D \<longleftrightarrow> (\<exists>b. banks j = Some b \<and> r \<in> proper_ancestors b)" if m: "(s, j) \<in> set (tf_banks f)" for s j
  proof -
    obtain b where b: "banks j = Some b" "bank_slot b = s" using forks_okD [OF assms(1) m] by blast
    have uniq: "b' = b" if b': "b' \<in> set (forks_values banks f)" "bank_slot b' = s" for b'
    proof -
      obtain s' j' where j': "(s', j') \<in> set (tf_banks f)" "banks j' = Some b'" using b'(1) by (auto simp: forks_values_iff)
      then have "s' = s" using forks_okD [OF assms(1) j'(1)] b'(2) by auto
      then have "j' = j" using j'(1) m assms(1) eq_key_imp_eq_value unfolding forks_ok_def by metis
      then show ?thesis using j'(2) b(1) by simp
    qed
    have v: "b \<in> set (forks_values banks f)" using b(1) m by (auto simp: forks_values_iff)
    show ?thesis
    proof
      assume "s \<in> ?D"
      then obtain b' where "b' \<in> set (forks_values banks f)" "bank_slot b' = s" "r \<in> proper_ancestors b'" by blast
      then show "\<exists>b. banks j = Some b \<and> r \<in> proper_ancestors b" using uniq b(1) by metis
    next
      assume "\<exists>b. banks j = Some b \<and> r \<in> proper_ancestors b"
      then have "r \<in> proper_ancestors b" using b(1) by simp
      then show "s \<in> ?D" using v b(2) by blast
    qed
  qed
  then have "filter (\<lambda>(s, _). s \<in> ?D) (tf_banks f) = filter (\<lambda>(s, j). \<exists>b. banks j = Some b \<and> r \<in> proper_ancestors b) (tf_banks f)"
    by (intro filter_cong refl) (simp only: split_paired_all split_conv)
  then show ?thesis using d assms(2) by (cases "tf_banks f = []") (simp_all add: prune_non_root_def)
qed

lemma squash_later:
  assumes "squash E i w = Some (Ok w')"
  shows "\<exists>b b'. w_banks w i = Some b \<and> later_bank b b' \<and> bank_parent b' = None \<and> w_banks w' = (w_banks w)(i \<mapsto> b')"
proof -
  obtain b1 w1 where s: "world_freeze E i w = Some (Ok (b1, w1))" "w_banks w' = (w_banks w1)(i \<mapsto> b1\<lparr>bank_parent := None\<rparr>)"
    using squash_step [OF assms] by metis
  obtain b s' where b: "w_banks w i = Some b" "freeze E (b, w_shared w) = Some (Ok (b1, s'))" "w_banks w1 = (w_banks w)(i \<mapsto> b1)"
    using s(1) by (auto simp: world_freeze_def run_ok_def split: option.splits)
  have "later_bank b (b1\<lparr>bank_parent := None\<rparr>)" using freeze_later(1) [OF b(2)] by (simp add: later_bank_def bank_is_frozen_def)
  then show ?thesis using b s(2) by (intro exI [of _ b] exI [of _ "b1\<lparr>bank_parent := None\<rparr>"]) simp
qed

lemma later_proper_ancestors: "later_bank b b' \<Longrightarrow> proper_ancestors b' = proper_ancestors b \<and> bank_slot b' = bank_slot b"
  by (simp add: later_bank_def proper_ancestors_def)

text \<open>
  C16: setting the root keeps exactly the forks that build on it. Once the root bank of a consistent map has been
  squashed, the map holds, in the same order, the banks that have the root among their proper ancestors
  and no other bank (not the root itself either); the root bank has no parent any more.
\<close>

theorem forks_set_root_spec:
  assumes "forks_ok (w_banks w) f" "map_of (tf_banks f) r = Some i" "squash E i w = Some (Ok w')"
  shows "\<exists>f' b. forks_set_root E r f w = Some (Ok (f', w')) \<and> tf_root f' = r \<and> forks_ok (w_banks w') f' \<and>
    tf_banks f' = filter (\<lambda>(s, j). \<exists>b. w_banks w j = Some b \<and> r \<in> proper_ancestors b) (tf_banks f) \<and>
    forks_get r f' = None \<and> w_banks w' i = Some b \<and> bank_parent b = None"
proof -
  obtain b b' where b: "w_banks w i = Some b" "later_bank b b'" "bank_parent b' = None" "w_banks w' = (w_banks w)(i \<mapsto> b')"
    using squash_later [OF assms(3)] by blast
  note anc = later_proper_ancestors [OF b(2)]
  have same: "(\<exists>c. w_banks w' j = Some c \<and> r \<in> proper_ancestors c) \<longleftrightarrow> (\<exists>c. w_banks w j = Some c \<and> r \<in> proper_ancestors c)" for j
    using b(1,4) anc by simp
  have ok: "forks_ok (w_banks w') (f\<lparr>tf_root := r\<rparr>)" using assms(1) b(1,4) anc by (fastforce simp: forks_ok_def)
  obtain f' where f': "prune_non_root (w_banks w') r (f\<lparr>tf_root := r\<rparr>) = (Ok f' :: (unit, treasury_forks) res)" "tf_root f' = r"
    "tf_banks f' = filter (\<lambda>(s, j). \<exists>b. w_banks w' j = Some b \<and> r \<in> proper_ancestors b) (tf_banks f)"
    using prune_non_root_spec [where 'a = unit, OF ok, of r i] assms(2) by auto
  have ok': "forks_ok (w_banks w') f'" using ok unfolding forks_ok_def f'(3) by (auto simp: distinct_map_filter)
  have "forks_get r f' = None"
  proof (rule ccontr)
    assume "forks_get r f' \<noteq> None"
    then obtain j where j: "(r, j) \<in> set (tf_banks f')" by (auto simp: forks_get_def dest: map_of_SomeD)
    obtain c where c: "w_banks w' j = Some c" "bank_slot c = r" using forks_okD [OF ok' j] by blast
    moreover have "r \<in> proper_ancestors c" using j c(1) unfolding f'(3) by auto
    ultimately show False by (simp add: proper_ancestors_def)
  qed
  moreover have "forks_set_root E r f w = Some (Ok (f', w'))" using assms(2,3) f'(1) by (simp add: forks_set_root_def run_ok_def)
  ultimately show ?thesis using f'(2,3) ok' b(3,4) same by (intro exI [of _ f'] exI [of _ b']) simp
qed

text \<open>A frozen bank at slot 1, its child at slot 2 and a bank of another fork at slot 3.\<close>

definition demo_forks_world :: "shared \<Rightarrow> world" where
  "demo_forks_world s =
     \<lparr>w_shared = s, w_heap = (\<lambda>_. {}),
      w_banks = [0 \<mapsto> demo_bank\<lparr>bank_hash := Hash [1]\<rparr>,
                 1 \<mapsto> demo_bank\<lparr>bank_slot := 2, bank_ancestors := [(2, 0), (1, 1)], bank_parent := Some 0\<rparr>,
                 2 \<mapsto> demo_bank\<lparr>bank_slot := 3, bank_ancestors := [(3, 0)]\<rparr>],
      w_next = 3\<rparr>"

definition demo_forks :: treasury_forks where
  "demo_forks = \<lparr>tf_banks = [(1, 0), (2, 1), (3, 2)], tf_working_bank = 1, tf_root = 0\<rparr>"

theorem forks_set_root_spec_witness:
  "\<exists>f' w'. forks_set_root demo_bank_env 1 demo_forks (demo_forks_world \<lparr>sh_db = accounts_db_new, sh_status = status_cache_default\<rparr>)
      = Some (Ok (f', w')) \<and> tf_root f' = 1 \<and> tf_banks f' = [(2, 1)]"
proof -
  let ?w = "demo_forks_world \<lparr>sh_db = accounts_db_new, sh_status = status_cache_default\<rparr>"
  have ok: "forks_ok (w_banks ?w) demo_forks" by (auto simp: forks_ok_def demo_forks_world_def demo_forks_def demo_bank_def)
  have i: "map_of (tf_banks demo_forks) 1 = Some 0" by (simp add: demo_forks_def)
  have "Hash [1] \<noteq> default_hash" by (auto simp: default_hash_def dest: arg_cong [where f = length])
  then obtain w' where sq: "squash demo_bank_env 0 ?w = Some (Ok w')"
    by (simp add: squash_def world_freeze_def freeze_def set_hash_def demo_forks_world_def demo_bank_def run_ok_def
        bank_parents_def parents_loop.simps bank_default_def)
  show ?thesis using forks_set_root_spec [OF ok i sq]
    by (fastforce simp: demo_forks_def demo_forks_world_def demo_bank_def proper_ancestors_def)
qed

end
