(* ===== verification/Lock_Tower.thy ===== *)
theory Lock_Tower
  imports Treasury_Forks Leader_Schedule
begin

text \<open>
  Fork choice, \<^verbatim>\<open>core/src/forkSelection.rs\<close>: the stakes of an epoch, the lockouts and stakes that the votes of a bank
  put on slots, the heaviest bank, and the tower of the validator's own votes with the checks it makes before it votes.
  Hash maps are association lists with distinct keys. 64-bit floats are the operations of \<open>f64_ops\<close>.
\<close>

section \<open>State\<close>

definition VOTE_THRESHOLD_DEPTH :: nat where
  "VOTE_THRESHOLD_DEPTH = 8"

definition VOTE_THRESHOLD_SIZE :: "'f f64_ops \<Rightarrow> 'f" where
  "VOTE_THRESHOLD_SIZE F = f64_div F (f64_of_u64 F 2) (f64_of_u64 F 3)"

definition MAX_RECENT_VOTES :: nat where
  "MAX_RECENT_VOTES = 16"

record epoch_stakes =
  es_epoch :: u64
  es_stakes :: "(pubkey \<times> u64) list"
  es_self_staked :: u64
  es_total_staked :: u64
  es_delegate_pubkey :: pubkey

record stake_lockout =
  sl_lockout :: u64
  sl_stake :: u64

type_synonym stake_lockouts = "(u64 \<times> stake_lockout) list"

record 'f locktower =
  lt_epoch_stakes :: epoch_stakes
  lt_threshold_depth :: nat
  lt_threshold_size :: 'f
  lt_lockouts :: vote_state
  lt_recent_votes :: "vote list"

definition epoch_stakes_new :: "u64 \<Rightarrow> (pubkey \<times> u64) list \<Rightarrow> pubkey \<Rightarrow> epoch_stakes" where
  "epoch_stakes_new epoch stakes delegate =
     \<lparr>es_epoch = epoch, es_stakes = stakes, es_self_staked = (case map_of stakes delegate of None \<Rightarrow> 0 | Some s \<Rightarrow> s),
      es_total_staked = sum_list (map snd stakes), es_delegate_pubkey = delegate\<rparr>"

definition epoch_stakes_new_from_stakes :: "u64 \<Rightarrow> (pubkey \<times> u64 \<times> account) list \<Rightarrow> ('e, epoch_stakes) res" where
  "epoch_stakes_new_from_stakes epoch accounts =
     res_bind (idx accounts 0) (\<lambda>first.
       Ok (epoch_stakes_new epoch (fold (\<lambda>(k, v, _). AList.update k v) accounts []) (fst first)))"

definition epoch_stakes_new_from_bank :: "bank \<Rightarrow> pubkey \<Rightarrow> ('e, epoch_stakes) res" where
  "epoch_stakes_new_from_bank b my_pubkey =
     (let bank_epoch = fst (get_epoch_and_slot_index (bank_epoch_schedule b) (bank_slot b))
      in res_bind (unwrap (vote_account_stakes_at_epoch b bank_epoch)) (\<lambda>stakes.
           Ok (epoch_stakes_new bank_epoch stakes my_pubkey)))"

definition locktower_new :: "epoch_stakes \<Rightarrow> nat \<Rightarrow> 'f \<Rightarrow> 'f locktower" where
  "locktower_new es depth threshold =
     \<lparr>lt_epoch_stakes = es, lt_threshold_depth = depth, lt_threshold_size = threshold, lt_lockouts = default_vote_state,
      lt_recent_votes = []\<rparr>"

definition locktower_default :: "'f f64_ops \<Rightarrow> 'f locktower" where
  "locktower_default F = locktower_new (epoch_stakes_new 0 [] default_pubkey) 0 (f64_zero F)"

section \<open>What votes put on slots\<close>

definition slot_with_ancestors :: "u64 \<Rightarrow> (u64 \<times> u64 set) list \<Rightarrow> u64 list" where
  "slot_with_ancestors s ancestors = s # sorted_list_of_set (or_empty (map_of ancestors s))"

definition entry_or_default :: "u64 \<Rightarrow> stake_lockouts \<Rightarrow> stake_lockout" where
  "entry_or_default s m = (case map_of m s of None \<Rightarrow> \<lparr>sl_lockout = 0, sl_stake = 0\<rparr> | Some e \<Rightarrow> e)"

definition update_ancestor_lockouts :: "(u64 \<times> u64 set) list \<Rightarrow> lockout \<Rightarrow> stake_lockouts \<Rightarrow> stake_lockouts" where
  "update_ancestor_lockouts ancestors v m =
     fold (\<lambda>s m. let e = entry_or_default s m in AList.update s (e\<lparr>sl_lockout := sl_lockout e + lockout_slots v\<rparr>) m)
       (slot_with_ancestors (slot v) ancestors) m"

definition update_ancestor_stakes :: "(u64 \<times> u64 set) list \<Rightarrow> u64 \<Rightarrow> u64 \<Rightarrow> stake_lockouts \<Rightarrow> stake_lockouts" where
  "update_ancestor_stakes ancestors s0 stake m =
     fold (\<lambda>s m. let e = entry_or_default s m in AList.update s (e\<lparr>sl_stake := sl_stake e + stake\<rparr>) m)
       (slot_with_ancestors s0 ancestors) m"

definition root_lockout :: "u64 \<Rightarrow> lockout" where
  "root_lockout r = \<lparr>slot = r, confirmation_count = of_nat MAX_LOCKOUT_HISTORY\<rparr>"

text \<open>A loop over a list whose body may panic.\<close>

fun res_fold :: "('x \<Rightarrow> 's \<Rightarrow> ('e, 's) res) \<Rightarrow> 'x list \<Rightarrow> 's \<Rightarrow> ('e, 's) res" where
  "res_fold g [] st = Ok st"
| "res_fold g (x # xs) st = res_bind (g x st) (res_fold g xs)"

text \<open>The body of the loop over the vote accounts.\<close>

definition collect_vote ::
  "vote_state codec \<Rightarrow> 'f locktower \<Rightarrow> u64 \<Rightarrow> (u64 \<times> u64 set) list \<Rightarrow> pubkey \<times> u64 \<times> account \<Rightarrow> stake_lockouts \<Rightarrow>
     ('e, stake_lockouts) res" where
  "collect_vote c lt sl ancestors ka m =
     (let stake = (case map_of (es_stakes (lt_epoch_stakes lt)) (fst ka) of None \<Rightarrow> 0 | Some d \<Rightarrow> d)
      in if stake = 0 then Ok m
         else case vote_state_from c (snd (snd ka)) of
                None \<Rightarrow> Ok m
              | Some vs0 \<Rightarrow>
                  (let start_root = root_slot vs0;
                       vs = process_slot_vote_unchecked sl vs0;
                       m = fold (update_ancestor_lockouts ancestors) (votes vs) m;
                       m = (if start_root \<noteq> root_slot vs
                            then (case start_root of None \<Rightarrow> m | Some r \<Rightarrow> update_ancestor_lockouts ancestors (root_lockout r) m)
                            else m);
                       m = (case root_slot vs of None \<Rightarrow> m | Some r \<Rightarrow> update_ancestor_lockouts ancestors (root_lockout r) m)
                   in if map_option slot (nth_recent_vote vs 0) \<noteq> Some sl then Panic
                      else case nth_recent_vote vs 1 of
                             None \<Rightarrow> Ok m
                           | Some v \<Rightarrow> Ok (update_ancestor_stakes ancestors (slot v) stake m)))"

definition collect_vote_lockouts ::
  "vote_state codec \<Rightarrow> 'f locktower \<Rightarrow> u64 \<Rightarrow> (pubkey \<times> u64 \<times> account) list \<Rightarrow> (u64 \<times> u64 set) list \<Rightarrow>
     ('e, stake_lockouts) res" where
  "collect_vote_lockouts c lt sl accs ancestors = res_fold (collect_vote c lt sl ancestors) accs []"

definition calculate_weight :: "'f locktower \<Rightarrow> stake_lockouts \<Rightarrow> 128 word" where
  "calculate_weight lt m =
     (let r = root_slot (lt_lockouts lt)
      in fold (\<lambda>(s, e) sum. if r \<noteq> None \<and> s \<le> (case r of None \<Rightarrow> 0 | Some x \<Rightarrow> x) then sum
                            else sum + ucast (sl_lockout e) * ucast (sl_stake e)) m 0)"

definition bank_weight :: "vote_state codec \<Rightarrow> 'f locktower \<Rightarrow> bank \<Rightarrow> (u64 \<times> u64 set) list \<Rightarrow> ('e, 128 word) res" where
  "bank_weight c lt b ancestors =
     res_bind (collect_vote_lockouts c lt (bank_slot b) (vote_accounts (bank_stakes b)) ancestors) (\<lambda>m.
       Ok (calculate_weight lt m))"

text \<open>The weight, the number of parents and the address of every frozen bank.\<close>

definition bank_weights ::
  "vote_state codec \<Rightarrow> 'f locktower \<Rightarrow> (nat \<rightharpoonup> bank) \<Rightarrow> treasury_forks \<Rightarrow> ((128 word \<times> nat \<times> nat) list) run" where
  "bank_weights c lt banks f =
     run_fold (\<lambda>(_, i) ws.
         case banks i of
           None \<Rightarrow> None
         | Some b \<Rightarrow>
             run_bind (Some (bank_weight c lt b (forks_ancestors banks f))) (\<lambda>w.
             Option.bind (bank_parents banks b) (\<lambda>ps. run_ok (ws @ [(w, length ps, i)]))))
       (frozen_banks banks f) []"

definition find_heaviest_bank ::
  "vote_state codec \<Rightarrow> 'f locktower \<Rightarrow> (nat \<rightharpoonup> bank) \<Rightarrow> treasury_forks \<Rightarrow> nat option run" where
  "find_heaviest_bank c lt banks f =
     run_bind (bank_weights c lt banks f) (\<lambda>ws.
       let ws = sort_key (\<lambda>(w, n, _). (w, n)) ws
       in run_ok (if ws = [] then None else Some (snd (snd (last ws)))))"

definition initialize_lockouts_from_bank :: "vote_state codec \<Rightarrow> bank \<Rightarrow> u64 \<Rightarrow> ('e, vote_state) res" where
  "initialize_lockouts_from_bank c b epoch =
     (case epoch_vote_accounts b epoch of
        None \<Rightarrow> Ok default_vote_state
      | Some accs \<Rightarrow>
          res_fold (\<lambda>(k, _, a) lockouts.
              if k = bank_collector_id b
              then res_bind (unwrap_res (vote_state_deserialize c (data a))) (\<lambda>vs.
                     Ok (if length (votes lockouts) < length (votes vs) then vs else lockouts))
              else Ok lockouts)
            accs default_vote_state)"

definition frozen_by_height :: "(nat \<rightharpoonup> bank) \<Rightarrow> treasury_forks \<Rightarrow> (nat \<times> u64 \<times> nat) list option" where
  "frozen_by_height banks f =
     map_option (sort_key (\<lambda>(n, s, _). (n, s)))
       (those (map (\<lambda>(_, i). Option.bind (banks i) (\<lambda>b.
          map_option (\<lambda>ps. (length ps, bank_slot b, i)) (bank_parents banks b))) (frozen_banks banks f)))"

definition locktower_new_from_forks ::
  "'f f64_ops \<Rightarrow> vote_state codec \<Rightarrow> (nat \<rightharpoonup> bank) \<Rightarrow> treasury_forks \<Rightarrow> pubkey \<Rightarrow> 'f locktower run" where
  "locktower_new_from_forks F c banks f my_pubkey =
     Option.bind (frozen_by_height banks f) (\<lambda>frozen.
       if frozen = [] then run_ok (locktower_default F)
       else Option.bind (banks (snd (snd (last frozen)))) (\<lambda>b.
         run_bind (Some (epoch_stakes_new_from_bank b my_pubkey)) (\<lambda>es.
           let lt = locktower_new es VOTE_THRESHOLD_DEPTH (VOTE_THRESHOLD_SIZE F)
           in run_bind (find_heaviest_bank c lt banks f) (\<lambda>best.
                case best of
                  None \<Rightarrow> Some Panic
                | Some i \<Rightarrow>
                    Option.bind (banks i) (\<lambda>hb.
                    run_bind (Some (initialize_lockouts_from_bank c hb (es_epoch es))) (\<lambda>vs.
                      run_ok (lt\<lparr>lt_lockouts := vs\<rparr>)))))))"

section \<open>Voting\<close>

definition stake_above_threshold :: "'f f64_ops \<Rightarrow> 'f locktower \<Rightarrow> stake_lockout \<Rightarrow> bool" where
  "stake_above_threshold F lt e \<longleftrightarrow>
     f64_lt F (lt_threshold_size lt)
       (f64_div F (f64_of_u64 F (sl_stake e)) (f64_of_u64 F (es_total_staked (lt_epoch_stakes lt))))"

definition is_slot_confirmed :: "'f f64_ops \<Rightarrow> 'f locktower \<Rightarrow> u64 \<Rightarrow> stake_lockouts \<Rightarrow> bool" where
  "is_slot_confirmed F lt s m = (case map_of m s of None \<Rightarrow> False | Some e \<Rightarrow> stake_above_threshold F lt e)"

definition is_recent_epoch :: "'f locktower \<Rightarrow> bank \<Rightarrow> bool" where
  "is_recent_epoch lt b \<longleftrightarrow>
     fst (get_epoch_and_slot_index (bank_epoch_schedule b) (bank_slot b)) \<ge> es_epoch (lt_epoch_stakes lt)"

definition update_epoch :: "bank \<Rightarrow> 'f locktower \<Rightarrow> ('e, 'f locktower) res" where
  "update_epoch b lt =
     (if fst (get_epoch_and_slot_index (bank_epoch_schedule b) (bank_slot b)) \<noteq> es_epoch (lt_epoch_stakes lt)
      then if \<not> is_recent_epoch lt b then Panic
           else res_bind (epoch_stakes_new_from_bank b (es_delegate_pubkey (lt_epoch_stakes lt))) (\<lambda>es.
                  Ok (lt\<lparr>lt_epoch_stakes := es\<rparr>))
      else Ok lt)"

definition record_vote :: "u64 \<Rightarrow> hash \<Rightarrow> 'f locktower \<Rightarrow> ('e, u64 option \<times> 'f locktower) res" where
  "record_vote s h lt =
     (let r = root_slot (lt_lockouts lt);
          v = \<lparr>vote_slot = s, vote_hash = h\<rparr>;
          vs = process_vote_unchecked v (lt_lockouts lt);
          slots = map slot (drop (length (votes vs) - MAX_RECENT_VOTES) (votes vs));
          lt = lt\<lparr>lt_lockouts := vs, lt_recent_votes := filter (\<lambda>v. vote_slot v \<in> set slots) (lt_recent_votes lt @ [v])\<rparr>
      in if r \<noteq> root_slot vs then res_bind (unwrap (root_slot vs)) (\<lambda>r'. Ok (Some r', lt)) else Ok (None, lt))"

definition has_voted :: "'f locktower \<Rightarrow> u64 \<Rightarrow> bool" where
  "has_voted lt s \<longleftrightarrow> list_ex (\<lambda>l. slot l = s) (votes (lt_lockouts lt))"

fun on_fork_loop :: "(u64 \<times> u64 set) list \<Rightarrow> u64 \<Rightarrow> lockout list \<Rightarrow> ('e, bool) res" where
  "on_fork_loop descendants s [] = Ok True"
| "on_fork_loop descendants s (l # ls) =
     (if slot l = s then on_fork_loop descendants s ls
      else res_bind (unwrap (map_of descendants (slot l))) (\<lambda>ds.
             if s \<notin> ds then Ok False else on_fork_loop descendants s ls))"

definition is_locked_out :: "'f locktower \<Rightarrow> u64 \<Rightarrow> (u64 \<times> u64 set) list \<Rightarrow> ('e, bool) res" where
  "is_locked_out lt s descendants =
     (let vs = process_slot_vote_unchecked s (lt_lockouts lt)
      in res_bind (on_fork_loop descendants s (votes vs)) (\<lambda>on_fork.
           if \<not> on_fork then Ok True
           else case root_slot vs of
                  Some r \<Rightarrow> res_bind (unwrap (map_of descendants r)) (\<lambda>ds. Ok (s \<notin> ds))
                | None \<Rightarrow> Ok False))"

definition check_vote_stake_threshold :: "'f f64_ops \<Rightarrow> 'f locktower \<Rightarrow> u64 \<Rightarrow> stake_lockouts \<Rightarrow> bool" where
  "check_vote_stake_threshold F lt s m =
     (let vs = process_slot_vote_unchecked s (lt_lockouts lt)
      in case nth_recent_vote vs (lt_threshold_depth lt) of
           None \<Rightarrow> True
         | Some v \<Rightarrow> (case map_of m (slot v) of None \<Rightarrow> False | Some e \<Rightarrow> stake_above_threshold F lt e))"

section \<open>A tower on one fork\<close>

text \<open>
  \<open>A s\<close> are the proper ancestors of slot \<open>s\<close>. The votes of a tower are on one fork when each is an ancestor of the ones on
  top of it and the root is an ancestor of all.
\<close>

definition tower_on_fork :: "(u64 \<Rightarrow> u64 set) \<Rightarrow> vote_state \<Rightarrow> bool" where
  "tower_on_fork A vs \<longleftrightarrow> sorted_wrt (\<lambda>a b. a \<in> A b) (map slot (votes vs)) \<and>
     (\<forall>r. root_slot vs = Some r \<longrightarrow> (\<forall>l \<in> set (votes vs). r \<in> A (slot l)))"

definition ancestors_agree :: "(u64 \<Rightarrow> u64 set) \<Rightarrow> (nat \<rightharpoonup> bank) \<Rightarrow> treasury_forks \<Rightarrow> bool" where
  "ancestors_agree A banks f \<longleftrightarrow> (\<forall>b \<in> set (forks_values banks f). proper_ancestors b = A (bank_slot b))"

lemma process_vote_unchecked_slot: "process_vote_unchecked v vs = process_slot_vote_unchecked (vote_slot v) vs"
  by (simp add: process_slot_vote_unchecked_def process_vote_unchecked_def process_vote_def lockout_new_def)

lemma process_slot_vote_ok: "vote_state_ok vs \<Longrightarrow> vote_state_ok (process_slot_vote_unchecked s vs)"
  by (simp add: process_slot_vote_unchecked_def process_vote_unchecked_def process_vote_ok)

lemma descendant_is_ancestor:
  assumes "map_of (forks_descendants banks f) x = Some ds" "s \<in> ds" "ancestors_agree A banks f"
  shows "x \<in> A s"
  using assms by (auto simp: forks_descendants_spec ancestors_agree_def split: if_splits)

lemma on_fork_loop_True:
  "(on_fork_loop D s ls :: ('e, bool) res) = Ok True \<Longrightarrow> l \<in> set ls \<Longrightarrow> slot l \<noteq> s \<Longrightarrow> \<exists>ds. map_of D (slot l) = Some ds \<and> s \<in> ds"
  by (induction ls) (auto simp: unwrap_def split: if_splits option.splits)

lemma is_locked_out_False:
  assumes "(is_locked_out lt s (forks_descendants banks f) :: ('e, bool) res) = Ok False" "ancestors_agree A banks f"
  defines "vs \<equiv> process_slot_vote_unchecked s (lt_lockouts lt)"
  shows "\<And>l. l \<in> set (votes vs) \<Longrightarrow> slot l \<noteq> s \<Longrightarrow> slot l \<in> A s" "\<And>r. root_slot vs = Some r \<Longrightarrow> r \<in> A s"
proof -
  have loop: "(on_fork_loop (forks_descendants banks f) s (votes vs) :: ('e, bool) res) = Ok True"
    using assms(1) unfolding is_locked_out_def vs_def [symmetric] Let_def
    by (cases "on_fork_loop (forks_descendants banks f) s (votes vs) :: ('e, bool) res") (auto split: if_splits)
  fix l assume "l \<in> set (votes vs)" "slot l \<noteq> s"
  then show "slot l \<in> A s" using on_fork_loop_True [OF loop] descendant_is_ancestor [OF _ _ assms(2)] by blast
next
  fix r assume r: "root_slot vs = Some r"
  have "\<exists>ds. map_of (forks_descendants banks f) r = Some ds \<and> s \<in> ds"
    using assms(1) r unfolding is_locked_out_def vs_def [symmetric] Let_def
    by (cases "on_fork_loop (forks_descendants banks f) s (votes vs) :: ('e, bool) res")
      (auto simp: unwrap_def split: if_splits option.splits)
  then show "r \<in> A s" using descendant_is_ancestor [OF _ _ assms(2)] by blast
qed

text \<open>The slots of a tower after an accepted vote.\<close>

lemma process_slot_vote_cases:
  obtains (same) "process_slot_vote_unchecked s vs = vs"
  | (push) n where "map slot (votes (process_slot_vote_unchecked s vs)) = map slot (take n (votes vs)) @ [s]"
      "root_slot (process_slot_vote_unchecked s vs) = root_slot vs"
  | (root) n where "map slot (votes (process_slot_vote_unchecked s vs)) = map slot (tl (take n (votes vs))) @ [s]"
      "take n (votes vs) \<noteq> []" "root_slot (process_slot_vote_unchecked s vs) = Some (slot (hd (take n (votes vs))))"
proof -
  let ?v = "\<lparr>vote_slot = s, vote_hash = default_hash\<rparr>"
  let ?sh = "[(s, default_hash)]"
  have eq: "process_slot_vote_unchecked s vs = process_vote ?v ?sh vs"
    by (simp add: process_slot_vote_unchecked_def process_vote_unchecked_def)
  obtain n where n: "remaining ?v vs = take n (votes vs)" using pop_expired_loop_take by blast
  show thesis
  proof (cases "accepts_vote ?v ?sh vs")
    case False
    then show ?thesis using same eq process_vote_ignored by simp
  next
    case acc: True
    show ?thesis
    proof (cases "length (remaining ?v vs) = MAX_LOCKOUT_HISTORY")
      case True
      then have "remaining ?v vs \<noteq> []" by (auto simp: MAX_LOCKOUT_HISTORY_def)
      then show ?thesis using root [of n] process_vote_rooted [OF acc True] n
        by (simp add: eq double_lockouts_slots lockout_new_def)
    next
      case False
      then show ?thesis using push [of n] process_vote_pushed [OF acc False] n
        by (simp add: eq double_lockouts_slots lockout_new_def)
    qed
  qed
qed

lemma tower_on_fork_vote:
  assumes "tower_on_fork A vs" "vote_state_ok vs"
    "\<And>l. l \<in> set (votes (process_slot_vote_unchecked s vs)) \<Longrightarrow> slot l \<noteq> s \<Longrightarrow> slot l \<in> A s"
    "\<And>r. root_slot (process_slot_vote_unchecked s vs) = Some r \<Longrightarrow> r \<in> A s"
  shows "tower_on_fork A (process_slot_vote_unchecked s vs)"
proof -
  let ?vs = "process_slot_vote_unchecked s vs"
  have ok: "sorted_wrt (<) (map slot (votes ?vs))"
    using process_slot_vote_ok [OF assms(2), of s] by (simp add: vote_state_ok_def tower_ok_def sorted_wrt_map)
  have chain: "sorted_wrt (\<lambda>a b. a \<in> A b) (map slot (take n (votes vs)))" for n
    using assms(1) by (simp add: tower_on_fork_def sorted_wrt_take take_map [symmetric])
  have before: "x \<in> A s" if "map slot (votes ?vs) = xs @ [s]" "x \<in> set xs" for x xs
  proof -
    have "x \<noteq> s" using ok that by (auto simp: sorted_wrt_append)
    moreover have "x \<in> set (map slot (votes ?vs))" unfolding that(1) using that(2) by simp
    then obtain l where "l \<in> set (votes ?vs)" "x = slot l" unfolding set_map by (rule imageE)
    ultimately show ?thesis using assms(3) by blast
  qed
  have mem: "slot l \<in> set xs \<or> slot l = s" if "l \<in> set (votes ?vs)" "map slot (votes ?vs) = xs @ [s]" for l xs
  proof -
    have "slot l \<in> set (map slot (votes ?vs))" using that(1) by simp
    then show ?thesis unfolding that(2) by auto
  qed
  show ?thesis
  proof (cases rule: process_slot_vote_cases [of s vs])
    case same
    then show ?thesis using assms(1) by simp
  next
    case (push n)
    have "r \<in> A (slot l)" if "root_slot vs = Some r" "l \<in> set (votes ?vs)" for r l
      using mem [OF that(2) push(1)] that(1) assms(1) assms(4) [of r] push(2)
      by (auto simp: tower_on_fork_def dest: in_set_takeD)
    moreover have "sorted_wrt (\<lambda>a b. a \<in> A b) (map slot (votes ?vs))"
      unfolding push(1) using chain [of n] before [OF push(1)] by (simp add: sorted_wrt_append)
    ultimately show ?thesis using push(2) by (simp add: tower_on_fork_def)
  next
    case (root n)
    have c: "sorted_wrt (\<lambda>a b. a \<in> A b) (slot (hd (take n (votes vs))) # map slot (tl (take n (votes vs))))"
      using chain [of n] root(2) by (cases "take n (votes vs)") auto
    have "r \<in> A (slot l)" if "root_slot ?vs = Some r" "l \<in> set (votes ?vs)" for r l
      using mem [OF that(2) root(1)] that(1) c assms(4) [of r] root(3) by auto
    moreover have "sorted_wrt (\<lambda>a b. a \<in> A b) (map slot (votes ?vs))"
      unfolding root(1) using c before [OF root(1)] by (simp add: sorted_wrt_append)
    ultimately show ?thesis by (simp add: tower_on_fork_def)
  qed
qed

lemma record_vote_lockouts:
  assumes "record_vote s h lt = (Ok (r, lt') :: ('e, _) res)"
  shows "lt_lockouts lt' = process_slot_vote_unchecked s (lt_lockouts lt)"
  using assms by (auto simp: record_vote_def Let_def process_vote_unchecked_slot unwrap_def split: if_splits option.splits)

lemma update_epoch_lockouts:
  assumes "update_epoch b lt = (Ok lt' :: ('e, _) res)"
  shows "lt_lockouts lt' = lt_lockouts lt"
  using assms by (auto simp: update_epoch_def split: if_splits)

text \<open>A vote that passes the check for lockouts.\<close>

lemma record_vote_on_fork:
  assumes "tower_on_fork A (lt_lockouts lt)" "vote_state_ok (lt_lockouts lt)" "ancestors_agree A banks f"
    "is_locked_out lt s (forks_descendants banks f) = (Ok False :: ('d, bool) res)" "record_vote s h lt = (Ok (r, lt') :: ('e, _) res)"
  shows "tower_on_fork A (lt_lockouts lt')" "vote_state_ok (lt_lockouts lt')"
  using tower_on_fork_vote [OF assms(1,2) is_locked_out_False [OF assms(4,3)]] process_slot_vote_ok [OF assms(2), of s]
  by (simp_all add: record_vote_lockouts [OF assms(5)])

text \<open>The tower of a validator that votes only after the check, on forks that may change between its votes.\<close>

inductive tower_reach :: "(u64 \<Rightarrow> u64 set) \<Rightarrow> 'f locktower \<Rightarrow> 'f locktower \<Rightarrow> bool" for A lt0 where
  start: "tower_reach A lt0 lt0"
| epoch: "tower_reach A lt0 lt \<Longrightarrow> update_epoch b lt = (Ok lt' :: (unit, 'f locktower) res) \<Longrightarrow> tower_reach A lt0 lt'"
| vote: "tower_reach A lt0 lt \<Longrightarrow> ancestors_agree A banks f \<Longrightarrow>
    is_locked_out lt s (forks_descendants banks f) = (Ok False :: (unit, bool) res) \<Longrightarrow>
    record_vote s h lt = (Ok (r, lt') :: (unit, u64 option \<times> 'f locktower) res) \<Longrightarrow> tower_reach A lt0 lt'"

text \<open>
  C7: a validator's votes are on one fork. When every vote passes the check for lockouts, at every time each vote
  of the tower is on a slot that is a proper ancestor of the slots of all later votes and the root is an
  ancestor of all of them, whatever forks exist at the time of each vote, as long as a slot keeps its ancestors.
\<close>

theorem tower_single_fork:
  assumes "tower_reach A lt0 lt" "tower_on_fork A (lt_lockouts lt0)" "vote_state_ok (lt_lockouts lt0)"
  shows "sorted_wrt (\<lambda>l l'. slot l < slot l' \<and> slot l \<in> A (slot l')) (votes (lt_lockouts lt)) \<and>
    (\<forall>r. root_slot (lt_lockouts lt) = Some r \<longrightarrow> (\<forall>l \<in> set (votes (lt_lockouts lt)). r < slot l \<and> r \<in> A (slot l)))"
proof -
  have "tower_on_fork A (lt_lockouts lt) \<and> vote_state_ok (lt_lockouts lt)"
    using assms
  proof (induction rule: tower_reach.induct)
    case (epoch lt b lt')
    then show ?case by (simp add: update_epoch_lockouts)
  next
    case (vote lt banks f s h r lt')
    then show ?case using record_vote_on_fork by blast
  qed simp
  then show ?thesis by (auto simp: tower_on_fork_def vote_state_ok_def tower_ok_def sorted_wrt_iff_nth_less)
qed

definition demo_tower :: "nat locktower" where
  "demo_tower = locktower_new (epoch_stakes_new 0 [] default_pubkey) 8 0"

definition demo_tower1 :: "nat locktower" where
  "demo_tower1 = demo_tower\<lparr>lt_lockouts := default_vote_state\<lparr>votes := [\<lparr>slot = 1, confirmation_count = 1\<rparr>]\<rparr>,
     lt_recent_votes := [\<lparr>vote_slot = 1, vote_hash = default_hash\<rparr>]\<rparr>"

definition demo_tower2 :: "nat locktower" where
  "demo_tower2 = demo_tower\<lparr>lt_lockouts := default_vote_state\<lparr>votes := [\<lparr>slot = 1, confirmation_count = 2\<rparr>, \<lparr>slot = 2, confirmation_count = 1\<rparr>]\<rparr>,
     lt_recent_votes := [\<lparr>vote_slot = 1, vote_hash = default_hash\<rparr>, \<lparr>vote_slot = 2, vote_hash = default_hash\<rparr>]\<rparr>"

definition demo_slot_ancestors :: "u64 \<Rightarrow> u64 set" where
  "demo_slot_ancestors s = (if s = 2 then {1} else {})"

abbreviation demo_forks_banks :: "nat \<rightharpoonup> bank" where
  "demo_forks_banks \<equiv> w_banks (demo_forks_world \<lparr>sh_db = accounts_db_new, sh_status = status_cache_default\<rparr>)"

lemmas demo_vote_simps = process_slot_vote_unchecked_def process_vote_unchecked_def process_vote_def
  pop_expired_votes_def pop_expired_loop.simps [of _ "[]"] pop_expired_loop.simps [of _ "[_]"] is_expired_def
  expiration_slot_def lockout_slots_def INITIAL_LOCKOUT_def lockout_new_def double_lockouts_def MAX_LOCKOUT_HISTORY_def

lemma demo_forks_agree: "ancestors_agree demo_slot_ancestors demo_forks_banks demo_forks"
  by (auto simp: ancestors_agree_def forks_values_iff demo_forks_def demo_forks_world_def demo_slot_ancestors_def
      proper_ancestors_def demo_bank_def)

lemma demo_forks_descendants: "map_of (forks_descendants demo_forks_banks demo_forks) 1 = Some {2}"
proof -
  define b0 where "b0 = demo_bank\<lparr>bank_hash := Hash [1]\<rparr>"
  define b1 where "b1 = demo_bank\<lparr>bank_slot := 2, bank_ancestors := [(2, 0), (1, 1)], bank_parent := Some 0\<rparr>"
  define b2 where "b2 = demo_bank\<lparr>bank_slot := 3, bank_ancestors := [(3, 0)]\<rparr>"
  have slots: "bank_slot b0 = 1" "bank_slot b1 = 2" "bank_slot b2 = 3" by (simp_all add: b0_def b1_def b2_def demo_bank_def)
  have anc: "proper_ancestors b0 = {}" "proper_ancestors b1 = {1}" "proper_ancestors b2 = {}"
    by (simp_all add: b0_def b1_def b2_def demo_bank_def proper_ancestors_def)
  have "demo_forks_banks = [0 \<mapsto> b0, 1 \<mapsto> b1, 2 \<mapsto> b2]" by (simp add: demo_forks_world_def b0_def b1_def b2_def)
  then have "forks_values demo_forks_banks demo_forks = [b0, b1, b2]"
    by (simp only: forks_values_def demo_forks_def) (simp add: List.map_filter_simps)
  then have vals: "set (forks_values demo_forks_banks demo_forks) = {b0, b1, b2}" by simp
  have "{b \<in> {b0, b1, b2}. 1 \<in> proper_ancestors b} = {b1}" using anc by auto
  then show ?thesis unfolding forks_descendants_spec vals by (simp add: slots anc)
qed

lemma demo_tower_votes:
  "is_locked_out demo_tower 1 D = Ok False" "record_vote 1 default_hash demo_tower = Ok (None, demo_tower1)"
  "is_locked_out demo_tower1 2 (forks_descendants demo_forks_banks demo_forks) = Ok False"
  "record_vote 2 default_hash demo_tower1 = Ok (None, demo_tower2)"
  by (simp_all add: is_locked_out_def record_vote_def demo_tower_def demo_tower1_def demo_tower2_def locktower_new_def default_vote_state_def
      demo_vote_simps MAX_RECENT_VOTES_def unwrap_def demo_forks_descendants Let_def word_le_nat_alt word_less_nat_alt)

lemma demo_tower_start:
  "tower_on_fork A (lt_lockouts demo_tower)" "vote_state_ok (lt_lockouts demo_tower)"
  by (simp_all add: demo_tower_def locktower_new_def default_vote_state_def tower_on_fork_def vote_state_ok_def)

theorem tower_single_fork_witness:
  "tower_reach demo_slot_ancestors demo_tower demo_tower2 \<and> slot (votes (lt_lockouts demo_tower2) ! 0) = 1 \<and>
     1 \<in> demo_slot_ancestors (slot (votes (lt_lockouts demo_tower2) ! 1))"
proof -
  note ag = demo_forks_agree
  have r1: "tower_reach demo_slot_ancestors demo_tower demo_tower1"
    by (rule tower_reach.vote [OF tower_reach.start ag demo_tower_votes(1,2)])
  have r2: "tower_reach demo_slot_ancestors demo_tower demo_tower2"
    by (rule tower_reach.vote [OF r1 ag demo_tower_votes(3,4)])
  then show ?thesis using tower_single_fork [OF r2 demo_tower_start] by (simp add: demo_tower2_def)
qed

text \<open>
  C8: lockouts are respected. When the check lets a vote for a slot pass, every vote of the tower that is still
  locked out at that slot is a vote for the slot itself or for one of its ancestors.
\<close>

theorem lockouts_respected:
  assumes "ancestors_agree A banks f" "is_locked_out lt s (forks_descendants banks f) = (Ok False :: (unit, bool) res)"
    "l \<in> set (votes (lt_lockouts lt))" "s \<le> expiration_slot l"
  shows "slot l = s \<or> slot l \<in> A s"
proof -
  let ?vs = "process_slot_vote_unchecked s (lt_lockouts lt)"
  have "slot l \<in> slot ` set (votes ?vs) \<or> root_slot ?vs = Some (slot l)"
    using process_vote_keeps [of l "lt_lockouts lt" "\<lparr>vote_slot = s, vote_hash = default_hash\<rparr>"] assms(3,4)
    by (simp add: process_slot_vote_unchecked_def process_vote_unchecked_def is_expired_def not_less)
  then show ?thesis using is_locked_out_False [OF assms(2,1)] by fastforce
qed

theorem lockouts_respected_witness:
  "slot (votes (lt_lockouts demo_tower1) ! 0) = 1 \<and> (1 = (2 :: u64) \<or> 1 \<in> demo_slot_ancestors 2)"
  using lockouts_respected [OF demo_forks_agree demo_tower_votes(3), of "\<lparr>slot = 1, confirmation_count = 1\<rparr>"]
  by (simp add: demo_tower1_def demo_vote_simps)

section \<open>The heaviest bank\<close>

text \<open>The bank at an address has a weight and a number of parents.\<close>

definition weighs :: "vote_state codec \<Rightarrow> 'f locktower \<Rightarrow> (nat \<rightharpoonup> bank) \<Rightarrow> treasury_forks \<Rightarrow> nat \<Rightarrow> 128 word \<times> nat \<Rightarrow> bool" where
  "weighs c lt banks f i wn \<longleftrightarrow>
     (\<exists>b ps. banks i = Some b \<and> bank_weight c lt b (forks_ancestors banks f) = (Ok (fst wn) :: (unit, 128 word) res) \<and>
        bank_parents banks b = Some ps \<and> snd wn = length ps)"

lemma weighs_unique: "weighs c lt banks f i x \<Longrightarrow> weighs c lt banks f i y \<Longrightarrow> x = y"
  by (auto simp: weighs_def prod_eq_iff)

lemma bank_weights_fold:
  assumes "\<forall>(s, i) \<in> set xs. \<exists>wn. weighs c lt banks f i wn"
  shows "\<exists>ws. run_fold (\<lambda>(_, i) ws.
         case banks i of
           None \<Rightarrow> None
         | Some b \<Rightarrow>
             run_bind (Some (bank_weight c lt b (forks_ancestors banks f))) (\<lambda>w.
             Option.bind (bank_parents banks b) (\<lambda>ps. run_ok (ws @ [(w, length ps, i)])))) xs acc = Some (Ok (acc @ ws)) \<and>
     list_all2 (\<lambda>(_, i) (w, n, j). j = i \<and> weighs c lt banks f i (w, n)) xs ws"
  using assms
proof (induction xs arbitrary: acc)
  case (Cons x xs)
  obtain s i where x: "x = (s, i)" by (cases x)
  obtain w n where wn: "weighs c lt banks f i (w, n)" using Cons.prems x by auto
  then obtain b ps where b: "banks i = Some b" "bank_weight c lt b (forks_ancestors banks f) = (Ok w :: (unit, 128 word) res)"
    "bank_parents banks b = Some ps" "n = length ps" by (auto simp: weighs_def)
  obtain ws where ws: "run_fold (\<lambda>(_, i) ws.
         case banks i of
           None \<Rightarrow> None
         | Some b \<Rightarrow>
             run_bind (Some (bank_weight c lt b (forks_ancestors banks f))) (\<lambda>w.
             Option.bind (bank_parents banks b) (\<lambda>ps. run_ok (ws @ [(w, length ps, i)])))) xs (acc @ [(w, n, i)])
      = Some (Ok ((acc @ [(w, n, i)]) @ ws))"
    "list_all2 (\<lambda>(_, i) (w, n, j). j = i \<and> weighs c lt banks f i (w, n)) xs ws"
    using Cons.IH [of "acc @ [(w, n, i)]"] Cons.prems by auto
  show ?case using ws wn b by (intro exI [of _ "(w, n, i) # ws"]) (simp add: x run_ok_def)
qed (simp add: run_ok_def)

lemma weighed_banks:
  assumes "list_all2 (\<lambda>(_, i) (w, n, j). j = i \<and> weighs c lt banks f i (w, n)) xs ws"
  shows "(w, n, i) \<in> set ws \<Longrightarrow> \<exists>s. (s, i) \<in> set xs \<and> weighs c lt banks f i (w, n)"
    "(s, i) \<in> set xs \<Longrightarrow> \<exists>w n. (w, n, i) \<in> set ws \<and> weighs c lt banks f i (w, n)"
  using assms by (induction rule: list_all2_induct) auto

lemma last_sort_key_max: "xs \<noteq> [] \<Longrightarrow> last (sort_key g xs) \<in> set xs \<and> (\<forall>x \<in> set xs. g x \<le> g (last (sort_key g xs)))"
proof -
  assume ne: "xs \<noteq> []"
  have s: "sorted (map g (sort_key g xs))" by simp
  have ne': "sort_key g xs \<noteq> []" using ne by (metis length_0_conv length_sort)
  then obtain ys y where ys: "sort_key g xs = ys @ [y]" by (metis rev_exhaust)
  have "set xs = insert y (set ys)" using arg_cong [OF ys, of set] by simp
  moreover have "\<forall>x \<in> set ys. g x \<le> g y" using s unfolding ys by (simp add: sorted_append)
  ultimately show ?thesis using ys by auto
qed

text \<open>
  C10: the heaviest bank. When every frozen bank can be weighed, the search returns; it returns nothing exactly when
  no bank is frozen, and otherwise a frozen bank whose weight, and then whose number of parents, is at least that
  of every other frozen bank.
\<close>

theorem find_heaviest_bank_spec:
  assumes "\<forall>(s, i) \<in> set (frozen_banks banks f). \<exists>wn. weighs c lt banks f i wn"
  shows "if frozen_banks banks f = [] then find_heaviest_bank c lt banks f = Some (Ok None)
    else \<exists>s i wn. find_heaviest_bank c lt banks f = Some (Ok (Some i)) \<and> (s, i) \<in> set (frozen_banks banks f) \<and> weighs c lt banks f i wn \<and>
      (\<forall>(s', j) \<in> set (frozen_banks banks f). \<forall>wn'. weighs c lt banks f j wn' \<longrightarrow> wn' \<le> wn)"
proof -
  obtain ws where ws: "bank_weights c lt banks f = Some (Ok ws)"
    "list_all2 (\<lambda>(_, i) (w, n, j). j = i \<and> weighs c lt banks f i (w, n)) (frozen_banks banks f) ws"
    using bank_weights_fold [OF assms, of "[]"] by (auto simp: bank_weights_def)
  note in_ws = weighed_banks [OF ws(2)]
  have len: "ws = [] \<longleftrightarrow> frozen_banks banks f = []" using list_all2_lengthD [OF ws(2)] by auto
  define g :: "128 word \<times> nat \<times> nat \<Rightarrow> 128 word \<times> nat" where "g = (\<lambda>(w, n, _). (w, n))"
  have find: "find_heaviest_bank c lt banks f =
    Some (Ok (if sort_key g ws = [] then None else Some (snd (snd (last (sort_key g ws))))))"
    using ws(1) by (simp add: find_heaviest_bank_def run_ok_def Let_def g_def)
  show ?thesis
  proof (cases "ws = []")
    case True
    then show ?thesis using len find by simp
  next
    case False
    obtain w n i where l: "last (sort_key g ws) = (w, n, i)" by (metis prod.exhaust)
    have max: "(w, n, i) \<in> set ws" "\<forall>x \<in> set ws. g x \<le> (w, n)"
      using last_sort_key_max [OF False, of g] unfolding l by (simp_all add: g_def)
    have "sort_key g ws \<noteq> []" using False by (metis length_0_conv length_sort)
    then have heaviest: "find_heaviest_bank c lt banks f = Some (Ok (Some i))" using find l by simp
    obtain s where si: "(s, i) \<in> set (frozen_banks banks f)" "weighs c lt banks f i (w, n)" using in_ws(1) [OF max(1)] by blast
    have "wn' \<le> (w, n)" if j: "(s', j) \<in> set (frozen_banks banks f)" "weighs c lt banks f j wn'" for s' j wn'
    proof -
      obtain w' n' where "(w', n', j) \<in> set ws" "weighs c lt banks f j (w', n')" using in_ws(2) [OF j(1)] by blast
      then show ?thesis using bspec [OF max(2)] weighs_unique [OF j(2)] by (fastforce simp: g_def)
    qed
    then have "\<forall>(s', j) \<in> set (frozen_banks banks f). \<forall>wn'. weighs c lt banks f j wn' \<longrightarrow> wn' \<le> (w, n)" by blast
    then have "\<exists>s i wn. find_heaviest_bank c lt banks f = Some (Ok (Some i)) \<and> (s, i) \<in> set (frozen_banks banks f) \<and>
      weighs c lt banks f i wn \<and> (\<forall>(s', j) \<in> set (frozen_banks banks f). \<forall>wn'. weighs c lt banks f j wn' \<longrightarrow> wn' \<le> wn)"
      using heaviest si by (intro exI [of _ s] exI [of _ i] exI [of _ "(w, n)"]) simp
    then show ?thesis using False len by simp
  qed
qed

text \<open>Two frozen banks that nobody has voted for: the child, which has one parent more, is the heaviest.\<close>

definition demo_frozen_banks :: "nat \<rightharpoonup> bank" where
  "demo_frozen_banks =
     [0 \<mapsto> demo_bank\<lparr>bank_hash := Hash [1]\<rparr>,
      1 \<mapsto> demo_bank\<lparr>bank_slot := 2, bank_ancestors := [(2, 0), (1, 1)], bank_parent := Some 0, bank_hash := Hash [2]\<rparr>,
      2 \<mapsto> demo_bank\<lparr>bank_slot := 3, bank_ancestors := [(3, 0)]\<rparr>]"

theorem find_heaviest_bank_spec_witness:
  "frozen_banks demo_frozen_banks demo_forks = [(1, 0), (2, 1)] \<and>
     find_heaviest_bank (table_codec []) demo_tower demo_frozen_banks demo_forks = Some (Ok (Some 1))"
proof -
  have "Hash [1] \<noteq> default_hash" "Hash [2] \<noteq> default_hash" by (auto simp: default_hash_def dest: arg_cong [where f = length])
  then have frozen: "frozen_banks demo_frozen_banks demo_forks = [(1, 0), (2, 1)]"
    by (simp add: frozen_banks_def demo_forks_def demo_frozen_banks_def bank_at_def bank_is_frozen_def demo_bank_def bank_default_def)
  have w: "weighs (table_codec []) demo_tower demo_frozen_banks demo_forks 0 (0, 0)"
    "weighs (table_codec []) demo_tower demo_frozen_banks demo_forks 1 (0, 1)"
    by (simp_all add: weighs_def demo_frozen_banks_def bank_weight_def collect_vote_lockouts_def demo_bank_def bank_default_def stakes_default_def
        calculate_weight_def bank_parents_def parents_loop.simps)
  then have "\<forall>(s, i) \<in> set (frozen_banks demo_frozen_banks demo_forks). \<exists>wn. weighs (table_codec []) demo_tower demo_frozen_banks demo_forks i wn"
    unfolding frozen by auto
  from find_heaviest_bank_spec [OF this] obtain s i wn where
    r: "find_heaviest_bank (table_codec []) demo_tower demo_frozen_banks demo_forks = Some (Ok (Some i))" "(s, i) \<in> {(1, 0), (2, 1)}"
    "weighs (table_codec []) demo_tower demo_frozen_banks demo_forks i wn"
    "\<forall>wn'. weighs (table_codec []) demo_tower demo_frozen_banks demo_forks 1 wn' \<longrightarrow> wn' \<le> wn"
    unfolding frozen by auto
  have "(0, 1) \<le> wn" using r(4) w(2) by blast
  moreover have "i = 0 \<Longrightarrow> wn = (0, 0)" using r(3) w(1) weighs_unique by blast
  ultimately have "i = 1" using r(2) by (auto simp: less_eq_prod_def)
  then show ?thesis using r(1) frozen by simp
qed

section \<open>The stake on a slot\<close>

definition account_stake :: "'f locktower \<Rightarrow> pubkey \<Rightarrow> u64" where
  "account_stake lt k = (case map_of (es_stakes (lt_epoch_stakes lt)) k of None \<Rightarrow> 0 | Some d \<Rightarrow> d)"

text \<open>The newest vote of an account that has not expired at a slot.\<close>

definition newest_vote :: "vote_state codec \<Rightarrow> u64 \<Rightarrow> account \<Rightarrow> u64 option" where
  "newest_vote c sl a =
     (case vote_state_from c a of
        None \<Rightarrow> None
      | Some vs \<Rightarrow> (let ls = pop_expired_loop sl (votes vs) in if ls = [] then None else Some (slot (last ls))))"

definition votes_for :: "vote_state codec \<Rightarrow> u64 \<Rightarrow> (u64 \<times> u64 set) list \<Rightarrow> u64 \<Rightarrow> account \<Rightarrow> bool" where
  "votes_for c sl ancestors s a \<longleftrightarrow>
     (case newest_vote c sl a of None \<Rightarrow> False | Some v \<Rightarrow> s = v \<or> s \<in> or_empty (map_of ancestors v))"

definition ancestors_ok :: "(u64 \<times> u64 set) list \<Rightarrow> bool" where
  "ancestors_ok ancestors \<longleftrightarrow> (\<forall>k X. map_of ancestors k = Some X \<longrightarrow> finite X \<and> k \<notin> X)"

lemma ancestors_ok_fold:
  "ancestors_ok m \<Longrightarrow> ancestors_ok (fold (\<lambda>b. AList.update (bank_slot b) (proper_ancestors b)) bs m)"
proof (induction bs arbitrary: m)
  case (Cons b bs)
  have "ancestors_ok (AList.update (bank_slot b) (proper_ancestors b) m)"
    using Cons.prems by (auto simp: ancestors_ok_def update_conv' proper_ancestors_def)
  then show ?case using Cons.IH by simp
qed simp

lemma forks_ancestors_ok: "ancestors_ok (forks_ancestors banks f)"
  unfolding forks_ancestors_def by (rule ancestors_ok_fold) (simp add: ancestors_ok_def)

lemma slot_with_ancestors_set:
  assumes "ancestors_ok ancestors"
  shows "distinct (slot_with_ancestors s ancestors)" "set (slot_with_ancestors s ancestors) = insert s (or_empty (map_of ancestors s))"
  using assms by (auto simp: slot_with_ancestors_def ancestors_ok_def or_empty_def split: option.splits)

lemma entry_update: "entry_or_default k (AList.update s e m) = (if k = s then e else entry_or_default k m)"
  by (simp add: entry_or_default_def update_conv')

lemma update_lockouts_stake:
  "sl_stake (entry_or_default k (fold (\<lambda>s m. let e = entry_or_default s m in AList.update s (e\<lparr>sl_lockout := sl_lockout e + d\<rparr>) m) xs m))
     = sl_stake (entry_or_default k m)"
  by (induction xs arbitrary: m) (simp_all add: Let_def entry_update)

lemma update_ancestor_lockouts_stake [simp]:
  "sl_stake (entry_or_default k (update_ancestor_lockouts ancestors v m)) = sl_stake (entry_or_default k m)"
  unfolding update_ancestor_lockouts_def by (rule update_lockouts_stake)

lemma fold_update_ancestor_lockouts_stake [simp]:
  "sl_stake (entry_or_default k (fold (update_ancestor_lockouts ancestors) vs m)) = sl_stake (entry_or_default k m)"
  by (induction vs arbitrary: m) simp_all

lemma update_stakes_stake:
  "distinct xs \<Longrightarrow>
     sl_stake (entry_or_default k (fold (\<lambda>s m. let e = entry_or_default s m in AList.update s (e\<lparr>sl_stake := sl_stake e + d\<rparr>) m) xs m))
       = sl_stake (entry_or_default k m) + (if k \<in> set xs then d else 0)"
  by (induction xs arbitrary: m) (auto simp: Let_def entry_update)

lemma update_ancestor_stakes_stake:
  assumes "ancestors_ok ancestors"
  shows "sl_stake (entry_or_default k (update_ancestor_stakes ancestors s d m)) =
     sl_stake (entry_or_default k m) + (if k = s \<or> k \<in> or_empty (map_of ancestors s) then d else 0)"
  unfolding update_ancestor_stakes_def using update_stakes_stake [OF slot_with_ancestors_set(1) [OF assms]]
  by (simp add: slot_with_ancestors_set(2) [OF assms])

lemma nth_recent_slots:
  assumes "map slot (votes vs) = xs @ [sl]"
  shows "map_option slot (nth_recent_vote vs 0) = Some sl"
    "map_option slot (nth_recent_vote vs 1) = (if xs = [] then None else Some (last xs))"
proof -
  have len: "length (votes vs) = Suc (length xs)" using arg_cong [OF assms, of length] by simp
  have at: "slot (votes vs ! i) = (xs @ [sl]) ! i" if "i < length (votes vs)" for i
    using that arg_cong [OF assms, of "\<lambda>l. l ! i"] by simp
  show "map_option slot (nth_recent_vote vs 0) = Some sl" using at [of "length xs"] len by (simp add: nth_recent_vote_def nth_opt_def)
  show "map_option slot (nth_recent_vote vs 1) = (if xs = [] then None else Some (last xs))"
    using at [of "length xs - 1"] len by (auto simp: nth_recent_vote_def nth_opt_def nth_append last_conv_nth)
qed

text \<open>After the simulated vote on the slot of the bank the second newest vote is the newest one that the account cast.\<close>

lemma simulated_vote:
  assumes "vote_state_from c a = Some vs" "\<forall>l \<in> set (votes vs). slot l < sl"
  shows "map_option slot (nth_recent_vote (process_slot_vote_unchecked sl vs) 0) = Some sl"
    "map_option slot (nth_recent_vote (process_slot_vote_unchecked sl vs) 1) = newest_vote c sl a"
proof -
  let ?v = "\<lparr>vote_slot = sl, vote_hash = default_hash\<rparr>" and ?vs = "process_slot_vote_unchecked sl vs"
  let ?r = "pop_expired_loop sl (votes vs)"
  have eq: "?vs = process_vote ?v [(sl, default_hash)] vs"
    by (simp add: process_slot_vote_unchecked_def process_vote_unchecked_def)
  have acc: "accepts_vote ?v [(sl, default_hash)] vs" using assms(2) by (cases "votes vs = []") (auto simp: accepts_vote_def)
  have "\<exists>xs. map slot (votes ?vs) = map slot xs @ [sl] \<and> (xs = [] \<longleftrightarrow> ?r = []) \<and> (xs \<noteq> [] \<longrightarrow> last xs = last ?r)"
  proof (cases "length ?r = MAX_LOCKOUT_HISTORY")
    case True
    then have "tl ?r \<noteq> []" "?r \<noteq> []" by (cases ?r; auto simp: MAX_LOCKOUT_HISTORY_def)+
    then show ?thesis using process_vote_rooted [OF acc] True
      by (intro exI [of _ "tl ?r"]) (simp add: eq double_lockouts_slots lockout_new_def last_tl)
  next
    case False
    then show ?thesis using process_vote_pushed [OF acc]
      by (intro exI [of _ ?r]) (simp add: eq double_lockouts_slots lockout_new_def)
  qed
  then obtain xs where xs: "map slot (votes ?vs) = map slot xs @ [sl]" "xs = [] \<longleftrightarrow> ?r = []" "xs \<noteq> [] \<longrightarrow> last xs = last ?r" by blast
  show "map_option slot (nth_recent_vote ?vs 0) = Some sl" by (rule nth_recent_slots(1) [OF xs(1)])
  show "map_option slot (nth_recent_vote ?vs 1) = newest_vote c sl a"
    unfolding nth_recent_slots(2) [OF xs(1)] using xs(2,3) assms(1) by (auto simp: newest_vote_def last_map)
qed

lemma collect_vote_stake:
  assumes "ancestors_ok ancestors" "\<And>vs. vote_state_from c (snd (snd ka)) = Some vs \<Longrightarrow> \<forall>l \<in> set (votes vs). slot l < sl"
  shows "\<exists>m'. collect_vote c lt sl ancestors ka m = (Ok m' :: (unit, stake_lockouts) res) \<and>
    (\<forall>s. sl_stake (entry_or_default s m') =
       sl_stake (entry_or_default s m) + (if votes_for c sl ancestors s (snd (snd ka)) then account_stake lt (fst ka) else 0))"
proof (cases "account_stake lt (fst ka) = 0 \<or> vote_state_from c (snd (snd ka)) = None")
  case True
  then show ?thesis by (auto simp: collect_vote_def account_stake_def Let_def votes_for_def newest_vote_def)
next
  case False
  then obtain vs where vs: "vote_state_from c (snd (snd ka)) = Some vs" by blast
  note sim = simulated_vote [OF vs assms(2) [OF vs]]
  show ?thesis
    using False sim unfolding collect_vote_def account_stake_def [symmetric] Let_def vs
    by (cases "nth_recent_vote (process_slot_vote_unchecked sl vs) 1")
      (auto simp: votes_for_def update_ancestor_stakes_stake [OF assms(1)] split: option.splits)
qed

lemma collect_fold_stake:
  assumes "ancestors_ok ancestors"
    "\<forall>ka \<in> set accs. \<forall>vs. vote_state_from c (snd (snd ka)) = Some vs \<longrightarrow> (\<forall>l \<in> set (votes vs). slot l < sl)"
  shows "\<exists>m'. res_fold (collect_vote c lt sl ancestors) accs m = (Ok m' :: (unit, stake_lockouts) res) \<and>
    (\<forall>s. sl_stake (entry_or_default s m') = sl_stake (entry_or_default s m) +
       (\<Sum>ka\<leftarrow>accs. if votes_for c sl ancestors s (snd (snd ka)) then account_stake lt (fst ka) else 0))"
  using assms(2)
proof (induction accs arbitrary: m)
  case (Cons ka accs)
  then have "\<And>vs. vote_state_from c (snd (snd ka)) = Some vs \<Longrightarrow> \<forall>l \<in> set (votes vs). slot l < sl" by simp
  from collect_vote_stake [OF assms(1) this, where lt = lt and m = m]
  obtain m1 where m1: "collect_vote c lt sl ancestors ka m = (Ok m1 :: (unit, stake_lockouts) res)"
    "\<And>s. sl_stake (entry_or_default s m1) =
       sl_stake (entry_or_default s m) + (if votes_for c sl ancestors s (snd (snd ka)) then account_stake lt (fst ka) else 0)" by blast
  have "\<forall>ka \<in> set accs. \<forall>vs. vote_state_from c (snd (snd ka)) = Some vs \<longrightarrow> (\<forall>l \<in> set (votes vs). slot l < sl)" using Cons.prems by simp
  from Cons.IH [OF this, of m1] obtain m' where m': "res_fold (collect_vote c lt sl ancestors) accs m1 = (Ok m' :: (unit, stake_lockouts) res)"
    "\<forall>s. sl_stake (entry_or_default s m') = sl_stake (entry_or_default s m1) +
       (\<Sum>ka\<leftarrow>accs. if votes_for c sl ancestors s (snd (snd ka)) then account_stake lt (fst ka) else 0)" by blast
  then show ?case by (intro exI [of _ m']) (simp add: m1 add.assoc)
qed simp

text \<open>
  C9: the stake on a slot. When the vote accounts of a bank hold votes for earlier slots only, collecting them returns, and the stake put on
  each slot is the sum of the stakes of exactly those accounts whose newest vote that has not expired is for the slot
  or for one of its descendants.
\<close>

theorem fork_stake_spec:
  assumes "\<forall>ka \<in> set accs. \<forall>vs. vote_state_from c (snd (snd ka)) = Some vs \<longrightarrow> (\<forall>l \<in> set (votes vs). slot l < sl)"
  shows "\<exists>m. collect_vote_lockouts c lt sl accs (forks_ancestors banks f) = (Ok m :: (unit, stake_lockouts) res) \<and>
    (\<forall>s. sl_stake (entry_or_default s m) =
       (\<Sum>ka\<leftarrow>accs. if votes_for c sl (forks_ancestors banks f) s (snd (snd ka)) then account_stake lt (fst ka) else 0))"
  using collect_fold_stake [OF forks_ancestors_ok assms, where lt = lt and m = "[]"]
  by (auto simp: collect_vote_lockouts_def entry_or_default_def)

definition demo_voter :: vote_state where
  "demo_voter = (vote_state_new (demo_key 7) (demo_key 1) 0)\<lparr>votes := [\<lparr>slot = 1, confirmation_count = 1\<rparr>]\<rparr>"

definition demo_voter_account :: account where
  "demo_voter_account = default_account\<lparr>data := [0]\<rparr>"

lemma demo_voter_from: "vote_state_from (table_codec [demo_voter]) demo_voter_account = Some demo_voter"
  by (simp add: vote_state_from_def account_state_def demo_voter_account_def table_codec_def)

theorem fork_stake_spec_witness:
  "\<exists>m. collect_vote_lockouts (table_codec [demo_voter]) (demo_tower\<lparr>lt_epoch_stakes := epoch_stakes_new 0 [(demo_key 7, 50)] default_pubkey\<rparr>)
      2 [(demo_key 7, 50, demo_voter_account)] (forks_ancestors demo_forks_banks demo_forks) = (Ok m :: (unit, stake_lockouts) res) \<and>
     sl_stake (entry_or_default 1 m) = 50"
proof -
  let ?lt = "demo_tower\<lparr>lt_epoch_stakes := epoch_stakes_new 0 [(demo_key 7, 50)] default_pubkey\<rparr>"
  let ?c = "table_codec [demo_voter]" and ?A = "forks_ancestors demo_forks_banks demo_forks"
  have "newest_vote ?c 2 demo_voter_account = Some 1"
    unfolding newest_vote_def demo_voter_from
    by (simp add: demo_voter_def vote_state_new_def demo_vote_simps Let_def word_less_nat_alt)
  then have v: "votes_for ?c 2 ?A 1 demo_voter_account" by (simp add: votes_for_def)
  have "\<forall>ka \<in> set [(demo_key 7, 50 :: u64, demo_voter_account)]. \<forall>vs. vote_state_from ?c (snd (snd ka)) = Some vs \<longrightarrow>
    (\<forall>l \<in> set (votes vs). slot l < 2)"
    using demo_voter_from by (simp add: demo_voter_def word_less_nat_alt)
  from fork_stake_spec [OF this, of ?lt demo_forks_banks demo_forks] obtain m where
    "collect_vote_lockouts ?c ?lt 2 [(demo_key 7, 50, demo_voter_account)] ?A = (Ok m :: (unit, stake_lockouts) res)"
    "sl_stake (entry_or_default 1 m) = (if votes_for ?c 2 ?A 1 demo_voter_account then account_stake ?lt (demo_key 7) else 0)" by auto
  then show ?thesis using v by (simp add: account_stake_def epoch_stakes_new_def)
qed

end
