(* ===== verification/Spec2Isabelle.thy ===== *)
theory Spec2Isabelle
  imports Budget_Program Token_Program Exchange_Program Bank_Forks Packet_Verify Clock_Recorder Lock_Tower
begin

text \<open>
  Verification of the morgan ledger, a proof-of-history chain in Rust: the account programs, the accounts database, the bank that
  executes batches of transactions, and the parts of the validator that decide what is recorded, who leads and which fork
  is voted for.

  \<^bold>\<open>The program's parts.\<close> Transactions (\<^verbatim>\<open>interface/src\<close>) arrive as packets; \<^verbatim>\<open>core/src/signatureVerify.rs\<close> checks their
  signatures on the raw bytes. A \<^emph>\<open>bank\<close> (\<^verbatim>\<open>runtime/src/bank.rs\<close>) is the state of one slot: it locks and loads accounts
  (\<^verbatim>\<open>accounts.rs\<close>, \<^verbatim>\<open>accounts_db.rs\<close>, \<^verbatim>\<open>accounts_index.rs\<close>, \<^verbatim>\<open>append_vec.rs\<close>), runs the instructions of each message through
  the native programs (\<^verbatim>\<open>message_processor.rs\<close>, \<^verbatim>\<open>controllers/\<close>), stores the results, remembers signatures
  (\<^verbatim>\<open>status_cache.rs\<close>) and block hashes (\<^verbatim>\<open>blockhash_queue.rs\<close>), and follows stakes (\<^verbatim>\<open>stakes.rs\<close>). The leader of a slot, given by
  the schedule (\<^verbatim>\<open>core/src/leaderArrange*.rs\<close>), mixes batches into the water clock (\<^verbatim>\<open>waterClock.rs\<close>, \<^verbatim>\<open>waterClockRecorder.rs\<close>),
  which yields a chain of entries (\<^verbatim>\<open>entryInfo.rs\<close>) that every other node verifies. Nodes keep the banks of all forks
  (\<^verbatim>\<open>treasuryForks.rs\<close>) and vote with lockouts (\<^verbatim>\<open>forkSelection.rs\<close>).

  \<^bold>\<open>Conventions.\<close> Machine integers are words that wrap around, as in a release build; \<open>usize\<close> counters that cannot
  overflow are naturals. A result is \<open>Ok\<close>, \<open>Err\<close> or \<open>Panic\<close> (\<open>res\<close>); a computation that may also not return is an option of it
  (\<open>run\<close>), with \<open>None\<close> for not returning. Hash maps are maps or association lists; a \<open>Vec\<close> or a deque is a list. Shared objects that
  are mutated through several references (banks, sets of locked accounts) live at addresses of an explicit store. Foreign
  code is a parameter: serialization (\<open>codec\<close>), SHA-256, ed25519, the layout of records in memory, the random
  generator (\<open>sampler\<close>, \<open>be_draw\<close>), 64-bit floats (\<open>f64_ops\<close>), the clock, and the opening of shared libraries. What a theorem needs of a parameter is
  a named hypothesis, and its witness instantiates the parameter. Logging, metrics and file paths are left out.

  \<^bold>\<open>Theories.\<close>
  \<^item> \<open>Morgan_Prelude\<close>: words, results, codecs, generic lemmas.
  \<^item> \<open>Account_Model\<close>, \<open>Message_Model\<close>, \<open>Short_Vec\<close>: accounts and keys, compilation of messages and signing, the wire format. Compiled
    messages carry exactly the instructions they were built from; the wire format of a transaction reads back.
  \<^item> \<open>System_Program\<close>, \<open>Vote_Program\<close>, \<open>Stake_Program\<close>, \<open>Budget_Program\<close>, \<open>Token_Program\<close>, \<open>Exchange_Program\<close>: one theory per account program, with its state, its
    instructions and its processor. The lemmas give the effect of every instruction with its errors, who has to sign, and the conservation
    of difs or tokens; the lockout tower has its invariant, rewards are given as a formula, and a payment plan does what its meaning says.
  \<^item> \<open>Message_Processor\<close>: the execution of a message with the check after each instruction. Whatever the programs do, a
    message that succeeds moves difs but neither makes nor destroys them, and changes only what the owner of an account may change. The
    locales \<open>slice_program\<close> and \<open>native_program\<close> are the contract of a program; the loader's symbol cache is shown transparent.
  \<^item> \<open>Append_Vec\<close>, \<open>Accounts_Index\<close>, \<open>Accounts_DB\<close>: stores as bytes, versions per fork and root, the store loop. The locale \<open>account_store\<close>
    is what the bank uses of the database: after a store the tip of the fork reads what was stored and other keys are unchanged.
  \<^item> \<open>Blockhash_Queue\<close>, \<open>Status_Cache\<close>, \<open>Epoch_Schedule\<close>, \<open>Stakes_Cache\<close>: each refines the history it stands for.
  \<^item> \<open>Account_Locks\<close>, \<open>Accounts_Loader\<close>: exclusive locks of a batch, loading with fees, the order-independent hash of a state.
  \<^item> \<open>Bank_Model\<close>, \<open>Bank_Safety\<close>, \<open>Bank_Forks\<close>: the bank and the tree of banks. A batch conserves difs and pays the collector the
    fees, for messages whose only unsigned credit-only keys are the programs (\<open>aligned\<close>, which says why); no transaction is processed
    twice while the status cache keeps its slot; genesis holds what the genesis block says; parents and ancestors stay consistent in every reachable
    tree, and a child carries the hash of its frozen parent.
  \<^item> \<open>Packet_Verify\<close>: the offsets into raw packets are those of the transaction they carry, for headers below 128 signatures.
  \<^item> \<open>Water_Clock\<close>, \<open>Clock_Recorder\<close>: the hash chain, the entries and the recorder. Verification accepts exactly the
    chains that the clock produces, and what a leader sends is such a chain.
  \<^item> \<open>Block_Meta\<close>: metadata of slots and erasure sets, with the status of an erasure set from its bit masks.
  \<^item> \<open>Leader_Schedule\<close>: the schedule is the same on every node, the cache is transparent and bounded, and the search for the next slot
    to lead returns the first one.
  \<^item> \<open>Treasury_Forks\<close>, \<open>Lock_Tower\<close>: the forks a validator follows, the root and the votes. A tower that votes only
    after the lockout check stays on one fork; the stake on a slot is that of the votes for it and its descendants, and the heaviest
    bank has maximal weight.

  \<^bold>\<open>Loops.\<close> A loop over a collection is a structural recursion. Loops that may run forever are partial functions with
    values in \<open>option\<close>: the store loop of the database, the recording loop, the search for a leader slot, the splitting of entries, the
    walk along parent pointers. Theorems that they return are proved as such; the store loop and the splitting of entries are
    also shown not to return on inputs that do not fit. No definition uses fuel.

  \<^bold>\<open>Not modelled.\<close> Network and gossip services, the RPC servers and clients, wallets and command line tools are sockets, threads
  and parsing of arguments around the modelled parts. The block buffer pool is an interface to a database on disk; only its
  metadata is modelled and lookups in it are parameters. The CUDA paths, ChaCha encryption and Reed-Solomon coding are foreign code. The BPF loader
  runs a foreign virtual machine. The storage and config programs, the replay loop and the transaction stages of the validator are
  not modelled; the operations of the bank, the forks, the tower and the recorder that they call are.
\<close>

end
